(* ===== verification/Prelude.thy ===== *)
theory Prelude
  imports
    Main
    "HOL-Library.Word"
    "HOL-Library.List_Lexorder"
    "HOL-Library.Sublist"
begin

text \<open>
  Shared vocabulary of the development: bytes and byte strings (\<open>std::string\<close>), the
  little-endian image of the unsigned integers the on-disk formats store with
  \<open>memcpy\<close>, and the facts on strictly sorted association lists every component
  uses.

  A \<open>std::string\<close> is a list of 8-bit words. \<open>HOL-Library.List_Lexorder\<close> orders such
  lists lexicographically with a proper prefix below its extensions and the words compare
  unsigned, which is \<open>std::string::operator<\<close> (\<open>char_traits<char>::compare\<close>).
\<close>

unbundle bit_operations_syntax

type_synonym byte = "8 word"
type_synonym bytes = "byte list"

text \<open>\<open>SSTable::Entry\<close> and \<open>Memtable::Iterator::value_type\<close>: a key and a value, where no
  value is a tombstone.\<close>

type_synonym entry = "bytes \<times> bytes option"

named_theorems codec_simps \<open>round trips and lengths of the byte encodings\<close>
named_theorems sorted_simps \<open>strictly sorted association lists\<close>

abbreviation uint32_max :: nat where
  "uint32_max \<equiv> 4294967295"

abbreviation uint64_max :: nat where
  "uint64_max \<equiv> 18446744073709551615"

section \<open>Little-endian integers\<close>

text \<open>\<open>memcpy\<close> of an \<open>n\<close>-byte unsigned integer on the little-endian targets the engine
  supports. A value that does not fit is truncated, as the cast to the field's type does.\<close>

fun le_enc :: "nat \<Rightarrow> nat \<Rightarrow> bytes" where
  "le_enc 0 x = []"
| "le_enc (Suc n) x = word_of_nat x # le_enc n (x div 256)"

fun le_dec :: "bytes \<Rightarrow> nat" where
  "le_dec [] = 0"
| "le_dec (b # bs) = unat b + 256 * le_dec bs"

lemma length_le_enc [simp, codec_simps]: "length (le_enc n x) = n"
  by (induction n arbitrary: x) auto

lemma unat_byte_of_nat: "unat (word_of_nat x :: byte) = x mod 256"
  by (simp add: unat_of_nat)

lemma le_dec_enc_mod: "le_dec (le_enc n x) = x mod 256 ^ n"
proof (induction n arbitrary: x)
  case 0
  show ?case by simp
next
  case (Suc n)
  have "le_dec (le_enc (Suc n) x) = x mod 256 + 256 * (x div 256 mod 256 ^ n)"
    by (simp add: Suc.IH unat_byte_of_nat)
  also have "\<dots> = x mod (256 * 256 ^ n)"
    by (simp add: mod_mult2_eq)
  finally show ?case by simp
qed

lemma le_dec_enc [simp, codec_simps]: "x < 256 ^ n \<Longrightarrow> le_dec (le_enc n x) = x"
  by (simp add: le_dec_enc_mod)

lemma le_dec_enc4 [simp, codec_simps]: "x \<le> uint32_max \<Longrightarrow> le_dec (le_enc 4 x) = x"
  by (rule le_dec_enc) simp

lemma le_dec_enc8 [simp, codec_simps]: "x \<le> uint64_max \<Longrightarrow> le_dec (le_enc 8 x) = x"
  by (rule le_dec_enc) simp

lemma le_dec_less: "le_dec bs < 256 ^ length bs"
proof (induction bs)
  case Nil
  show ?case by simp
next
  case (Cons b bs)
  have "unat b < 256" using unsigned_less [of b] by simp
  with Cons.IH show ?case by simp
qed

lemma le_enc_dec [simp, codec_simps]: "length bs = n \<Longrightarrow> le_enc n (le_dec bs) = bs"
proof (induction bs arbitrary: n)
  case (Cons b bs)
  have "(256 :: byte) = 0" by simp
  then have "word_of_nat (unat b + 256 * le_dec bs) = b"
    by (simp only: of_nat_add of_nat_mult of_nat_numeral mult_zero_left add_0_right) simp
  moreover have "(unat b + 256 * le_dec bs) div 256 = le_dec bs"
    using unsigned_less [of b, where 'a = nat] by simp
  ultimately show ?case using Cons by (cases n) auto
qed simp

lemma le_dec_append_zeros [simp]: "le_dec (bs @ replicate n 0) = le_dec bs"
  by (induction bs) (auto, induction n, auto)

lemma map_le_Some: "f \<subseteq>\<^sub>m g \<Longrightarrow> f k = Some v \<Longrightarrow> g k = Some v"
  by (auto simp: map_le_def dom_def)

lemma map_Some_ext: "(\<And>k v. f k = Some v \<longleftrightarrow> g k = Some v) \<Longrightarrow> f = g"
  by (rule ext) (metis option.exhaust)

section \<open>Strictly sorted association lists\<close>

abbreviation keys :: "('k \<times> 'v) list \<Rightarrow> 'k list" where
  "keys es \<equiv> map fst es"

abbreviation ssorted :: "('k::linorder \<times> 'v) list \<Rightarrow> bool" where
  "ssorted es \<equiv> sorted_wrt (<) (keys es)"

lemma ssorted_distinct [sorted_simps]: "ssorted es \<Longrightarrow> distinct (keys es)"
  by (simp add: strict_sorted_iff)

lemma map_of_eq_None_lt:
  fixes k :: "'k::linorder"
  shows "(\<And>x. x \<in> set (keys es) \<Longrightarrow> k < x) \<Longrightarrow> map_of es k = None"
  by (force simp: map_of_eq_None_iff)

lemma map_of_eq_None_gt:
  fixes k :: "'k::linorder"
  shows "(\<And>x. x \<in> set (keys es) \<Longrightarrow> x < k) \<Longrightarrow> map_of es k = None"
  by (force simp: map_of_eq_None_iff)

lemma ssorted_filter [sorted_simps]: "ssorted es \<Longrightarrow> ssorted (filter P es)"
  by (induction es) auto

lemma ssorted_append [sorted_simps]:
  "ssorted (xs @ ys) \<longleftrightarrow>
     ssorted xs \<and> ssorted ys \<and> (\<forall>x \<in> set (keys xs). \<forall>y \<in> set (keys ys). x < y)"
  by (auto simp: sorted_wrt_append)

lemma ssorted_appendD: "ssorted (xs @ ys) \<Longrightarrow> x \<in> set xs \<Longrightarrow> y \<in> set ys \<Longrightarrow> fst x < fst y"
  by (auto simp: sorted_wrt_append)

text \<open>A strictly sorted association list is determined by the map it denotes.\<close>

lemma ssorted_map_of_unique:
  assumes "ssorted xs" "ssorted ys" "map_of xs = map_of ys"
  shows "xs = ys"
proof -
  have d: "distinct (map fst xs)" "distinct (map fst ys)"
    using assms by (auto dest: ssorted_distinct)
  then have s: "set xs = set ys"
    using assms(3) by (metis map_of_inject_set)
  then have "map fst xs = map fst ys"
    using assms(1,2) by (metis set_map sorted_distinct_set_unique strict_sorted_iff)
  with d s show ?thesis
    by (metis distinct_map inj_on_Un map_inj_on sup.idem)
qed

section \<open>Histories and simulation\<close>

text \<open>A run of a labelled step relation, and the labels of its steps.\<close>

inductive steps :: "('s \<Rightarrow> 'l \<Rightarrow> 's \<Rightarrow> bool) \<Rightarrow> 's \<Rightarrow> 'l list \<Rightarrow> 's \<Rightarrow> bool" for R where
  stop: "steps R s [] s"
| step: "R s l s1 \<Longrightarrow> steps R s1 ls s2 \<Longrightarrow> steps R s (l # ls) s2"

inductive_simps steps_Nil [simp]: "steps R s [] s'"

inductive_simps steps_Cons [simp]: "steps R s (l # ls) s'"

text \<open>The contract between an implementation \<open>R\<close> and its specification \<open>S\<close>: \<open>holds\<close> relates their states, and every step of one is a step of
  the other with the same label.\<close>

locale simulation =
  fixes holds :: "'s \<Rightarrow> 'm \<Rightarrow> bool" and R :: "'s \<Rightarrow> 'l \<Rightarrow> 's \<Rightarrow> bool" and S :: "'m \<Rightarrow> 'l \<Rightarrow> 'm \<Rightarrow> bool"
  assumes step_sim: "holds s m \<Longrightarrow> R s l s' \<Longrightarrow> \<exists>m'. S m l m' \<and> holds s' m'"
begin

lemma steps_sim: "steps R s ls s' \<Longrightarrow> holds s m \<Longrightarrow> \<exists>m'. steps S m ls m' \<and> holds s' m'"
proof (induction arbitrary: m rule: steps.induct)
  case (step s l s1 ls s2)
  then obtain m1 where "S m l m1" "holds s1 m1" using step_sim by blast
  then show ?case using step.IH by (meson steps.step)
qed (auto intro: steps.stop)

end

end
