(* ===== verification/WalFormat.thy ===== *)
theory WalFormat
  imports Prelude
begin

text \<open>
  The write-ahead log as bytes: the record \<open>WAL::writeEntry\<close> builds in its aligned buffer
  (src/wal/wal_writer.cpp), \<open>WAL::crc32\<close>, and the parser \<open>WAL::recover\<close> runs over the whole
  file (src/wal/wal_reader.cpp). The lemmas show that recovery inverts the encoding, that
  holes left by records that never landed are skipped, that a torn tail costs only the torn
  record, that whatever is recovered is literally in the log with its checksum, and that the
  checksum notices every change of a single byte.
\<close>

section \<open>Records\<close>

datatype etype = PUT | DEL

record wal_entry =
  we_type :: etype
  we_key :: bytes
  we_value :: bytes

fun type_byte :: "etype \<Rightarrow> byte" where
  "type_byte PUT = 1"
| "type_byte DEL = 2"

text \<open>\<open>WAL::crc32\<close>: the reflected CRC-32, one bit at a time, over the type byte, the key and
  the value.\<close>

definition crc_shift :: "32 word \<Rightarrow> 32 word" where
  "crc_shift crc = (drop_bit 1 crc) XOR (0xEDB88320 AND (- (crc AND 1)))"

definition crc_update :: "32 word \<Rightarrow> byte \<Rightarrow> 32 word" where
  "crc_update crc b = (crc_shift ^^ 8) (crc XOR ucast b)"

definition crc32 :: "byte \<Rightarrow> bytes \<Rightarrow> bytes \<Rightarrow> 32 word" where
  "crc32 t key value =
     (let crc = crc_update 0xFFFFFFFF t;
          crc = foldl crc_update crc key;
          crc = foldl crc_update crc value
      in crc XOR 0xFFFFFFFF)"

text \<open>\<open>(size + 511) & ~511\<close>; \<open>align512_word\<close> below relates it to the 64-bit expression.\<close>

definition align512 :: "nat \<Rightarrow> nat" where
  "align512 n = (n + 511) div 512 * 512"

definition record_size :: "bytes \<Rightarrow> bytes \<Rightarrow> nat" where
  "record_size key value = 1 + 4 + 4 + length key + length value + 4"

definition record_body :: "byte \<Rightarrow> bytes \<Rightarrow> bytes \<Rightarrow> bytes" where
  "record_body t key value =
     t # le_enc 4 (length key) @ le_enc 4 (length value) @ key @ value
       @ le_enc 4 (unat (crc32 t key value))"

text \<open>The buffer handed to the ring: \<open>memset\<close> to zero over the aligned size, then the record.\<close>

definition encode_record :: "byte \<Rightarrow> bytes \<Rightarrow> bytes \<Rightarrow> bytes" where
  "encode_record t key value =
     (let size = record_size key value; aligned_size = align512 size
      in record_body t key value @ replicate (aligned_size - size) 0)"

definition encode_entry :: "wal_entry \<Rightarrow> bytes" where
  "encode_entry e = encode_record (type_byte (we_type e)) (we_key e) (we_value e)"

section \<open>Recovery\<close>

text \<open>Every damaged or padding position moves to the next 512-byte boundary.\<close>

definition next_block :: "nat \<Rightarrow> nat" where
  "next_block entry_start = (entry_start div 512 + 1) * 512"

lemma next_block_gt: "s < next_block s"
proof -
  have "s = s div 512 * 512 + s mod 512" by (rule div_mult_mod_eq [symmetric])
  moreover have "s mod 512 < 512" by simp
  ultimately show ?thesis unfolding next_block_def by (simp only: add_mult_distrib)
qed

lemma align512_ge: "n \<le> align512 n"
proof -
  have "n + 511 = (n + 511) div 512 * 512 + (n + 511) mod 512" by (rule div_mult_mod_eq [symmetric])
  moreover have "(n + 511) mod 512 < 512" by simp
  ultimately show ?thesis unfolding align512_def by linarith
qed

lemma align512_dvd [simp]: "512 dvd align512 n"
  by (simp add: align512_def)

lemma align512_mod [simp]: "align512 n mod 512 = 0"
  by (simp add: align512_def)

lemma align512_pos: "0 < n \<Longrightarrow> 0 < align512 n"
  using align512_ge [of n] by linarith

text \<open>One iteration of the parsing loop of \<open>WAL::recover\<close>: the entry it pushes, if any, and the
  offset it continues at.\<close>

definition recover_step :: "bytes \<Rightarrow> nat \<Rightarrow> wal_entry option \<times> nat" where
  "recover_step buf entry_start =
     (let total = length buf;
          skip = (None, next_block entry_start);
          t = buf ! entry_start in
      if t = 0 then skip
      else if entry_start + 9 > total then skip
      else
        (let klen = le_dec (take 4 (drop (entry_start + 1) buf));
             vlen = le_dec (take 4 (drop (entry_start + 5) buf)) in
         if entry_start + 9 + klen + vlen + 4 > total then skip
         else
           (let key = take klen (drop (entry_start + 9) buf);
                value = take vlen (drop (entry_start + 9 + klen) buf);
                stored_crc = le_dec (take 4 (drop (entry_start + 9 + klen + vlen) buf)) in
            if stored_crc \<noteq> unat (crc32 t key value) then skip
            else if t \<noteq> 1 \<and> t \<noteq> 2 then skip
            else
              (Some \<lparr>we_type = (if t = 1 then PUT else DEL), we_key = key, we_value = value\<rparr>,
               entry_start + align512 (1 + 4 + 4 + klen + vlen + 4)))))"

lemma recover_step_progress: "s < snd (recover_step buf s)"
  using next_block_gt [of s] by (simp add: recover_step_def Let_def align512_pos)

text \<open>The loop, which ends once the offset reaches the end of the buffered file.\<close>

function recover_from :: "bytes \<Rightarrow> nat \<Rightarrow> wal_entry list" where
  "recover_from buf offset =
     (if offset < length buf then
        (case fst (recover_step buf offset) of
           None \<Rightarrow> recover_from buf (snd (recover_step buf offset))
         | Some e \<Rightarrow> e # recover_from buf (snd (recover_step buf offset)))
      else [])"
  by pat_completeness auto
termination
  by (relation "measure (\<lambda>(buf, offset). length buf - offset)")
     (auto intro: diff_less_mono2 recover_step_progress)

declare recover_from.simps [simp del]

text \<open>Reading the file: the results of the successive \<open>read\<close> calls are the environment's; an
  empty chunk is end of file.\<close>

datatype read_res = Chunk bytes | Eintr | ReadError

datatype recover_error = LogTooLarge | LogReadFailed | LogGrewPastLimit

definition max_recovery_bytes :: nat where
  "max_recovery_bytes = 2 ^ 30"

fun read_loop :: "read_res list \<Rightarrow> bytes \<Rightarrow> recover_error + bytes" where
  "read_loop [] buf = Inr buf"
| "read_loop (Eintr # rs) buf = read_loop rs buf"
| "read_loop (ReadError # rs) buf = Inl LogReadFailed"
| "read_loop (Chunk c # rs) buf =
     (if c = [] then Inr buf
      else if length buf + length c > max_recovery_bytes then Inl LogGrewPastLimit
      else read_loop rs (buf @ c))"

text \<open>\<open>WAL::recover\<close>: \<open>file\<close> is \<open>None\<close> when the log cannot be opened, \<open>st_size\<close> is \<open>None\<close>
  when \<open>fstat\<close> fails.\<close>

definition recover :: "bytes option \<Rightarrow> nat option \<Rightarrow> read_res list \<Rightarrow> recover_error + wal_entry list" where
  "recover file st_size reads =
     (case file of
        None \<Rightarrow> Inr []
      | Some _ \<Rightarrow>
          (if (case st_size of None \<Rightarrow> False | Some n \<Rightarrow> n > max_recovery_bytes) then Inl LogTooLarge
           else
             (case read_loop reads [] of
                Inl err \<Rightarrow> Inl err
              | Inr buf \<Rightarrow> Inr (recover_from buf 0))))"

section \<open>Recovery inverts the encoding\<close>

lemma align512_word:
  assumes "n + 511 < 2 ^ 64"
  shows "unat ((word_of_nat n + 511 :: 64 word) AND NOT 511) = align512 n"
proof -
  have "(511 :: 64 word) = mask 9" by (simp add: mask_eq_decr_exp)
  moreover have "(w AND NOT (mask 9)) = push_bit 9 (drop_bit 9 w)" for w :: "64 word"
    by (simp add: bit_eq_iff bit_simps) (auto simp: bit_simps)
  moreover have "unat (push_bit 9 (drop_bit 9 w)) = unat w div 512 * 512" for w :: "64 word"
  proof -
    have "unat w div 512 * 512 \<le> unat w" by simp
    also have "\<dots> < 2 ^ 64" using unsigned_less [of w] by simp
    finally show ?thesis
      by (simp add: push_bit_eq_mult drop_bit_eq_div unat_word_ariths unat_div)
  qed
  moreover have "unat (word_of_nat n + 511 :: 64 word) = n + 511"
    using assms by (simp add: unat_word_ariths unat_of_nat mod_simps)
  ultimately show ?thesis by (simp add: align512_def)
qed

lemma length_record_body: "length (record_body t k v) = record_size k v"
  by (simp add: record_body_def record_size_def)

lemma length_encode_record: "length (encode_record t k v) = align512 (record_size k v)"
  using align512_ge [of "record_size k v"]
  by (simp add: encode_record_def Let_def length_record_body)

lemma drop_from: "drop (s + n) xs = drop n (drop s xs)"
  by (simp add: add.commute)

text \<open>What one iteration does at a position where the fields of a record are laid out, whatever
  checksum bytes follow them.\<close>

lemma recover_step_fields:
  assumes at: "drop s buf = t # le_enc 4 (length k) @ le_enc 4 (length v) @ k @ v @ c @ rest"
    and lens: "length k \<le> uint32_max" "length v \<le> uint32_max" and c: "length c = 4"
  shows "recover_step buf s =
           (if t = 0 \<or> le_dec c \<noteq> unat (crc32 t k v) \<or> (t \<noteq> 1 \<and> t \<noteq> 2) then (None, next_block s)
            else (Some \<lparr>we_type = (if t = 1 then PUT else DEL), we_key = k, we_value = v\<rparr>,
                  s + align512 (record_size k v)))"
proof -
  have "length (drop s buf) = record_size k v + length rest"
    by (simp add: at c record_size_def)
  then have len: "length buf = s + record_size k v + length rest" and lt: "s < length buf"
    by (auto simp: record_size_def)
  have hd: "buf ! s = t"
    using at lt by (metis hd_drop_conv_nth list.sel(1))
  note parts = drop_from [of s _ buf, unfolded at]
  have f: "take 4 (drop (s + 1) buf) = le_enc 4 (length k)"
    "take 4 (drop (s + 5) buf) = le_enc 4 (length v)"
    "take (length k) (drop (s + 9) buf) = k"
    "take (length v) (drop (s + 9 + length k) buf) = v"
    "take 4 (drop (s + 9 + length k + length v) buf) = c"
    using c by (simp_all only: add.assoc parts) (simp_all add: drop_Cons')
  have l: "le_dec (le_enc 4 (length k)) = length k" "le_dec (le_enc 4 (length v)) = length v"
    using lens by simp_all
  have b: "\<not> length buf < s + 9" "\<not> length buf < s + 9 + length k + length v + 4"
    by (simp_all add: len record_size_def)
  have r: "1 + 4 + 4 + length k + length v + 4 = record_size k v"
    by (simp add: record_size_def)
  show ?thesis
    unfolding recover_step_def Let_def hd f l r using b by auto
qed

lemma recover_step_body:
  assumes at: "drop s buf = record_body t k v @ rest"
    and t: "t = 1 \<or> t = 2" and lens: "length k \<le> uint32_max" "length v \<le> uint32_max"
  shows "recover_step buf s =
           (Some \<lparr>we_type = (if t = 1 then PUT else DEL), we_key = k, we_value = v\<rparr>,
            s + align512 (record_size k v))"
proof -
  have "unat (crc32 t k v) \<le> uint32_max"
    using unsigned_less [of "crc32 t k v", where 'a = nat] by simp
  then have "le_dec (le_enc 4 (unat (crc32 t k v))) = unat (crc32 t k v)"
    by (rule le_dec_enc4)
  then show ?thesis
    using recover_step_fields [of s buf t k v "le_enc 4 (unat (crc32 t k v))" rest] at t lens
    by (auto simp: record_body_def)
qed

text \<open>At 512-byte boundaries the loop does not look back, so a log can be read piece by piece.\<close>

lemma next_block_shift:
  assumes "512 dvd p"
  shows "next_block (p + s) = p + next_block s"
  using assms by (auto simp: next_block_def div_add algebra_simps elim!: dvdE)

lemma recover_step_shift:
  assumes "512 dvd length pre" "s < length buf"
  shows "recover_step (pre @ buf) (length pre + s) =
           (let r = recover_step buf s in (fst r, length pre + snd r))"
proof -
  have d: "drop (length pre + s + n) (pre @ buf) = drop (s + n) buf" for n
    by (simp add: add.assoc)
  have i: "(pre @ buf) ! (length pre + s) = buf ! s"
    by (simp add: nth_append)
  show ?thesis
    unfolding recover_step_def Let_def i next_block_shift [OF assms(1)]
    by (simp add: d [of "_ + _", unfolded add.assoc] d add.assoc)
qed

lemma recover_from_shift:
  assumes "512 dvd length pre"
  shows "recover_from (pre @ buf) (length pre + s) = recover_from buf s"
proof (induction buf s rule: recover_from.induct)
  case (1 buf s)
  show ?case
  proof (cases "s < length buf")
    case True
    with recover_step_shift [OF assms True] 1 show ?thesis
      by (auto simp: Let_def recover_from.simps [of "pre @ buf"] recover_from.simps [of buf s]
          split: option.splits)
  next
    case False
    then show ?thesis
      by (simp add: recover_from.simps [of "pre @ buf"] recover_from.simps [of buf s])
  qed
qed

lemma recover_from_append:
  "512 dvd length pre \<Longrightarrow> recover_from (pre @ buf) (length pre) = recover_from buf 0"
  using recover_from_shift [of pre buf 0] by simp

lemma recover_from_past: "length buf \<le> s \<Longrightarrow> recover_from buf s = []"
  by (simp add: recover_from.simps)

text \<open>The entries \<open>writeEntry\<close> accepts.\<close>

definition entry_fits :: "wal_entry \<Rightarrow> bool" where
  "entry_fits e \<longleftrightarrow> length (we_key e) \<le> uint32_max \<and> length (we_value e) \<le> uint32_max"

lemma type_byte_cases: "type_byte t = 1 \<or> type_byte t = 2"
  by (cases t) auto

lemma type_byte_PUT: "(if type_byte t = 1 then PUT else DEL) = t"
  by (cases t) auto

lemma recover_from_entry:
  assumes "entry_fits e"
  shows "recover_from (encode_entry e @ rest) 0 = e # recover_from rest 0"
proof -
  let ?t = "type_byte (we_type e)" and ?k = "we_key e" and ?v = "we_value e"
  let ?n = "align512 (record_size ?k ?v)"
  obtain pad where enc: "encode_entry e = record_body ?t ?k ?v @ pad"
    by (simp add: encode_entry_def encode_record_def Let_def)
  have len: "length (encode_entry e) = ?n"
    by (simp add: encode_entry_def length_encode_record)
  have "recover_step (encode_entry e @ rest) 0 = (Some e, ?n)"
    using recover_step_body [of 0 "encode_entry e @ rest" ?t ?k ?v "pad @ rest"] assms
    by (simp add: enc type_byte_cases type_byte_PUT entry_fits_def)
  moreover have "0 < ?n" by (rule align512_pos) (simp add: record_size_def)
  moreover have "recover_from (encode_entry e @ rest) ?n = recover_from rest 0"
    using recover_from_append [of "encode_entry e" rest] len by simp
  ultimately show ?thesis
    by (simp add: recover_from.simps [of _ 0] len)
qed

lemma recover_from_zero_block:
  "recover_from (replicate 512 0 @ rest) 0 = recover_from rest 0"
proof -
  have "recover_step (replicate 512 0 @ rest) 0 = (None, 512)"
    by (simp add: recover_step_def nth_append next_block_def)
  moreover have "recover_from (replicate 512 0 @ rest) 512 = recover_from rest 0"
    using recover_from_append [of "replicate 512 0" rest] by simp
  ultimately show ?thesis
    by (simp add: recover_from.simps [of _ 0])
qed

lemma recover_from_zero_blocks:
  "recover_from (replicate (512 * n) 0 @ rest) 0 = recover_from rest 0"
proof (induction n)
  case (Suc n)
  then show ?case
    by (simp add: replicate_add recover_from_zero_block [of "replicate (512 * n) 0 @ rest"])
qed simp

lemma recover_from_entries:
  "\<forall>e \<in> set es. entry_fits e \<Longrightarrow>
   recover_from (concat (map encode_entry es) @ rest) 0 = es @ recover_from rest 0"
  by (induction es) (auto simp: recover_from_entry)

text \<open>A record as it is found after a crash: landed, or still a hole of zero bytes.\<close>

definition slot_bytes :: "wal_entry \<times> bool \<Rightarrow> bytes" where
  "slot_bytes s = (if snd s then encode_entry (fst s) else replicate (length (encode_entry (fst s))) 0)"

lemma recover_from_slots:
  "\<forall>s \<in> set ss. entry_fits (fst s) \<Longrightarrow>
   recover_from (concat (map slot_bytes ss) @ rest) 0 = map fst (filter snd ss) @ recover_from rest 0"
proof (induction ss)
  case (Cons s ss)
  obtain n where "length (encode_entry (fst s)) = 512 * n"
    by (metis align512_dvd dvdE encode_entry_def length_encode_record)
  with Cons show ?case
    by (auto simp: slot_bytes_def recover_from_entry recover_from_zero_blocks)
qed simp

subsection \<open>Torn tails\<close>

lemma encode_entry_body:
  "encode_entry e = record_body (type_byte (we_type e)) (we_key e) (we_value e)
     @ replicate (align512 (record_size (we_key e) (we_value e)) - record_size (we_key e) (we_value e)) 0"
  by (simp add: encode_entry_def encode_record_def Let_def)

lemma recover_step_short: "length buf < s + 9 \<Longrightarrow> recover_step buf s = (None, next_block s)"
  by (simp add: recover_step_def Let_def)

lemma recover_step_cut:
  "length buf < s + 9 + le_dec (take 4 (drop (s + 1) buf)) + le_dec (take 4 (drop (s + 5) buf)) + 4 \<Longrightarrow>
   recover_step buf s = (None, next_block s)"
  unfolding recover_step_def Let_def by (simp only: if_True if_cancel)

lemma recover_step_torn:
  assumes fits: "entry_fits e" and n: "0 < n" "n < record_size (we_key e) (we_value e)"
  shows "recover_step (take n (encode_entry e)) 0 = (None, 512)"
proof -
  let ?k = "we_key e" and ?v = "we_value e" and ?buf = "take n (encode_entry e)"
  have len: "length ?buf = n"
    using n align512_ge [of "record_size ?k ?v"]
    by (simp add: encode_entry_def length_encode_record)
  have body: "?buf = take n (record_body (type_byte (we_type e)) ?k ?v)"
    using n by (simp add: encode_entry_body length_record_body)
  show ?thesis
  proof (cases "n < 9")
    case True
    then show ?thesis
      using recover_step_short [of ?buf 0] by (simp add: len next_block_def)
  next
    case False
    have "take 4 (drop 1 ?buf) = le_enc 4 (length ?k)" "take 4 (drop 5 ?buf) = le_enc 4 (length ?v)"
      using False by (simp_all add: body record_body_def drop_take take_Cons' drop_Cons')
    then have "le_dec (take 4 (drop 1 ?buf)) = length ?k" "le_dec (take 4 (drop 5 ?buf)) = length ?v"
      using fits by (simp_all add: entry_fits_def)
    then show ?thesis
      using n recover_step_cut [of ?buf 0] by (simp add: len next_block_def record_size_def)
  qed
qed

lemma recover_from_torn:
  assumes fits: "entry_fits e" and one: "record_size (we_key e) (we_value e) \<le> 512" and n: "n \<le> 512"
  shows "recover_from (take n (encode_entry e)) 0 =
           (if record_size (we_key e) (we_value e) \<le> n then [e] else [])"
proof -
  let ?k = "we_key e" and ?v = "we_value e" and ?buf = "take n (encode_entry e)"
  have al: "align512 (record_size ?k ?v) = 512"
    using one by (simp add: align512_def record_size_def div_nat_eqI)
  have len: "length ?buf = n"
    using n by (simp add: encode_entry_def length_encode_record al)
  show ?thesis
  proof (cases "record_size ?k ?v \<le> n")
    case True
    have "?buf = record_body (type_byte (we_type e)) ?k ?v @ replicate (n - record_size ?k ?v) 0"
      using True n by (simp add: encode_entry_body length_record_body al min_absorb1 diff_le_mono)
    then have "recover_step ?buf 0 = (Some e, 512)"
      using fits recover_step_body [of 0 ?buf "type_byte (we_type e)" ?k ?v]
      by (simp add: al type_byte_cases type_byte_PUT entry_fits_def)
    moreover have "0 < length ?buf" using True by (simp only: len record_size_def)
    ultimately show ?thesis
      using True n recover_from_past [of ?buf 512] len by (subst recover_from.simps) simp
  next
    case False
    then show ?thesis
      using recover_step_torn [OF fits, of n] n len
      by (cases "n = 0") (auto simp: recover_from.simps [of _ 0] recover_from_past)
  qed
qed

subsection \<open>Nothing is made up\<close>

lemma recover_step_SomeD:
  assumes "recover_step buf s = (Some e, s')"
  shows "\<exists>klen vlen. klen = le_dec (take 4 (drop (s + 1) buf)) \<and> vlen = le_dec (take 4 (drop (s + 5) buf))
    \<and> s + 9 + klen + vlen + 4 \<le> length buf
    \<and> we_key e = take klen (drop (s + 9) buf) \<and> we_value e = take vlen (drop (s + 9 + klen) buf)
    \<and> type_byte (we_type e) = buf ! s
    \<and> le_dec (take 4 (drop (s + 9 + klen + vlen) buf)) = unat (crc32 (buf ! s) (we_key e) (we_value e))
    \<and> s' = s + align512 (record_size (we_key e) (we_value e))"
proof -
  let ?k = "le_dec (take 4 (drop (s + 1) buf))" and ?v = "le_dec (take 4 (drop (s + 5) buf))"
  let ?key = "take ?k (drop (s + 9) buf)" and ?val = "take ?v (drop (s + 9 + ?k) buf)"
  have c: "\<not> buf ! s = 0" "\<not> length buf < s + 9" "\<not> length buf < s + 9 + ?k + ?v + 4"
    "\<not> le_dec (take 4 (drop (s + 9 + ?k + ?v) buf)) \<noteq> unat (crc32 (buf ! s) ?key ?val)"
    "\<not> (buf ! s \<noteq> 1 \<and> buf ! s \<noteq> 2)"
    using assms unfolding recover_step_def Let_def
    by (auto simp only: prod.inject option.distinct split: if_split_asm)
  have "recover_step buf s = (Some \<lparr>we_type = (if buf ! s = 1 then PUT else DEL), we_key = ?key,
      we_value = ?val\<rparr>, s + align512 (1 + 4 + 4 + ?k + ?v + 4))"
    unfolding recover_step_def Let_def by (simp only: c if_False)
  with assms have e: "e = \<lparr>we_type = (if buf ! s = 1 then PUT else DEL), we_key = ?key,
      we_value = ?val\<rparr>" "s' = s + align512 (1 + 4 + 4 + ?k + ?v + 4)"
    by (simp_all only: prod.inject option.inject)
  have len: "length ?key = ?k" "length ?val = ?v"
    using c(3) by simp_all
  have t: "type_byte (if buf ! s = 1 then PUT else DEL) = buf ! s"
    using c(5) by auto
  have "1 + 4 + 4 + ?k + ?v + 4 = record_size ?key ?val"
    unfolding record_size_def len ..
  with c e t show ?thesis
    by (intro exI [of _ ?k] exI [of _ ?v])
       (simp only: wal_entry.simps not_less simp_thms refl)
qed

lemma recover_step_sound:
  assumes "recover_step buf s = (Some e, s')"
  shows "take (record_size (we_key e) (we_value e)) (drop s buf)
           = record_body (type_byte (we_type e)) (we_key e) (we_value e)"
proof -
  obtain klen vlen where kv: "klen = le_dec (take 4 (drop (s + 1) buf))"
      "vlen = le_dec (take 4 (drop (s + 5) buf))"
    and len: "s + 9 + klen + vlen + 4 \<le> length buf"
    and key: "we_key e = take klen (drop (s + 9) buf)"
    and val: "we_value e = take vlen (drop (s + 9 + klen) buf)"
    and t: "type_byte (we_type e) = buf ! s"
    and crc: "le_dec (take 4 (drop (s + 9 + klen + vlen) buf)) = unat (crc32 (buf ! s) (we_key e) (we_value e))"
    using recover_step_SomeD [OF assms] by blast
  let ?d = "drop s buf"
  have lk: "length (we_key e) = klen" and lv: "length (we_value e) = vlen"
    using len by (simp_all add: key val)
  have "take (record_size (we_key e) (we_value e)) ?d
      = take 1 ?d @ take 4 (drop 1 ?d) @ take 4 (drop 5 ?d) @ take klen (drop 9 ?d)
          @ take vlen (drop (9 + klen) ?d) @ take 4 (drop (9 + klen + vlen) ?d)"
  proof -
    have "record_size (we_key e) (we_value e) = 1 + (4 + (4 + (klen + (vlen + 4))))"
      by (simp add: record_size_def lk lv)
    then show ?thesis by (simp only: take_add drop_drop) (simp add: ac_simps)
  qed
  moreover have "take 1 ?d = [buf ! s]"
    using len by (simp add: take_Suc_conv_app_nth)
  moreover have "take 4 (drop 1 ?d) = le_enc 4 klen" "take 4 (drop 5 ?d) = le_enc 4 vlen"
    "take 4 (drop (9 + klen + vlen) ?d) = le_enc 4 (unat (crc32 (buf ! s) (we_key e) (we_value e)))"
    using len by (simp_all add: kv crc [symmetric] ac_simps)
  ultimately show ?thesis
    unfolding record_body_def lk lv t drop_from [symmetric] key [symmetric] val [symmetric]
      add.assoc [symmetric] by simp
qed

lemma recover_from_sound:
  assumes "e \<in> set (recover_from buf s)" "512 dvd s"
  shows "\<exists>p. 512 dvd p \<and> s \<le> p
           \<and> take (record_size (we_key e) (we_value e)) (drop p buf)
               = record_body (type_byte (we_type e)) (we_key e) (we_value e)"
  using assms
proof (induction buf s rule: recover_from.induct)
  case (1 buf s)
  obtain oe s' where step: "recover_step buf s = (oe, s')" by fastforce
  have le: "s \<le> s'" using recover_step_progress [of s buf] step by simp
  have dvd: "512 dvd s'"
  proof (cases oe)
    case None
    then show ?thesis
      using step by (auto simp: recover_step_def Let_def next_block_def split: if_split_asm)
  next
    case (Some x)
    then show ?thesis
      using recover_step_SomeD [of buf s x s'] step "1.prems" by auto
  qed
  have lt: "s < length buf"
    using "1.prems" by (auto simp: recover_from.simps [of buf s] split: if_split_asm)
  then consider "oe = Some e" | "e \<in> set (recover_from buf s')"
    using "1.prems" step by (auto simp: recover_from.simps [of buf s] split: option.splits)
  then show ?case
  proof cases
    case 1
    then show ?thesis using step recover_step_sound "1.prems" by blast
  next
    case 2
    then have "\<exists>p. 512 dvd p \<and> s' \<le> p
        \<and> take (record_size (we_key e) (we_value e)) (drop p buf)
            = record_body (type_byte (we_type e)) (we_key e) (we_value e)"
      using "1.IH" lt step dvd by (cases oe) auto
    then show ?thesis using le by (meson le_trans)
  qed
qed

section \<open>What the checksum detects\<close>

lemma crc_shift_eq: "crc_shift c = drop_bit 1 c XOR (if odd c then 0xEDB88320 else 0)"
  by (simp add: crc_shift_def and_one_eq mod_2_eq_odd)

lemma crc_shift_top: "bit (crc_shift c) 31 \<longleftrightarrow> odd c"
proof -
  have "\<not> bit (drop_bit 1 c) 31" using bit_imp_le_length [of c 32] by (auto simp: bit_drop_bit_eq)
  moreover have "bit (0xEDB88320 :: 32 word) 31" by simp
  ultimately show ?thesis by (simp add: crc_shift_eq bit_xor_iff)
qed

lemma xor_right_cancel: "a XOR c = b XOR c \<longleftrightarrow> a = b" for a b c :: "32 word"
proof
  assume "a XOR c = b XOR c"
  then have "(a XOR c) XOR c = (b XOR c) XOR c" by (rule arg_cong)
  then show "a = b" by (simp only: xor.assoc xor_self_eq xor.right_neutral)
qed simp

lemma ucast_byte_inject: "(ucast a :: 32 word) = ucast b \<longleftrightarrow> a = b" for a b :: byte
proof
  assume "(ucast a :: 32 word) = ucast b"
  then have "unat (ucast a :: 32 word) = unat (ucast b :: 32 word)" by simp
  then show "a = b" by (simp add: unsigned_ucast_eq word_unat_eq_iff take_bit_nat_eq_self
      order.strict_trans [OF unsigned_less [of _, where 'a = nat]])
qed simp

lemma inj_crc_shift: "inj crc_shift"
proof (rule injI)
  fix a b assume eq: "crc_shift a = crc_shift b"
  then have p: "odd a = odd b" by (metis crc_shift_top)
  with eq have "drop_bit 1 a = drop_bit 1 b"
    by (simp add: crc_shift_eq xor_right_cancel split: if_split_asm)
  then have "bit (drop_bit 1 a) n = bit (drop_bit 1 b) n" for n by simp
  then have "bit a (Suc n) = bit b (Suc n)" for n by (simp add: bit_drop_bit_eq)
  with p have "bit a n = bit b n" for n by (cases n) (simp_all add: bit_0)
  then show "a = b" by (rule bit_eqI)
qed

lemma crc_update_inject [simp]:
  "crc_update c a = crc_update d a \<longleftrightarrow> c = d" "crc_update c a = crc_update c b \<longleftrightarrow> a = b"
proof -
  have inj: "inj (crc_shift ^^ 8)" by (rule inj_fn [OF inj_crc_shift])
  have x: "c XOR ucast a = c XOR ucast b \<longleftrightarrow> a = b"
    using xor_right_cancel [of "ucast a" c "ucast b"] by (simp add: xor.commute ucast_byte_inject)
  show "crc_update c a = crc_update d a \<longleftrightarrow> c = d" "crc_update c a = crc_update c b \<longleftrightarrow> a = b"
    by (simp_all add: crc_update_def inj_eq [OF inj] xor_right_cancel x)
qed

lemma foldl_crc_inject [simp]: "foldl crc_update c xs = foldl crc_update d xs \<longleftrightarrow> c = d"
  by (induction xs arbitrary: c d) auto

lemma crc32_inject_key: "crc32 t (xs @ b # ys) v = crc32 t (xs @ b' # ys) v \<longleftrightarrow> b = b'"
  by (simp add: crc32_def Let_def xor_right_cancel)

lemma crc32_inject_value: "crc32 t k (xs @ b # ys) = crc32 t k (xs @ b' # ys) \<longleftrightarrow> b = b'"
  by (simp add: crc32_def Let_def xor_right_cancel)

lemma crc32_inject_type: "crc32 t k v = crc32 t' k v \<longleftrightarrow> t = t'"
  by (simp add: crc32_def Let_def xor_right_cancel)

text \<open>A record whose fields or checksum no longer agree is skipped, one block at a time.\<close>

lemma recover_from_bad_block:
  assumes "t = 0 \<or> le_dec c \<noteq> unat (crc32 t k v)"
    and "length k \<le> uint32_max" "length v \<le> uint32_max" "length c = 4"
    and block: "length block = 512"
      "block = t # le_enc 4 (length k) @ le_enc 4 (length v) @ k @ v @ c @ pad"
  shows "recover_from (block @ rest) 0 = recover_from rest 0"
proof -
  have "recover_step (block @ rest) 0 = (None, 512)"
    using recover_step_fields [of 0 "block @ rest" t k v c "pad @ rest"] assms
    by (auto simp: next_block_def)
  moreover have "recover_from (block @ rest) 512 = recover_from rest 0"
    using recover_from_append [of block rest] block by simp
  ultimately show ?thesis
    by (simp add: recover_from.simps [of _ 0] block(1))
qed

text \<open>Flipping any one byte of the type, the key, the value or the stored checksum of a record
  that fits one block loses that record and nothing else.\<close>

lemma crc32_upd_key: "j < length k \<Longrightarrow> b \<noteq> k ! j \<Longrightarrow> crc32 t k v \<noteq> crc32 t (k[j := b]) v"
  using crc32_inject_key [of t "take j k" "k ! j" "drop (Suc j) k" v b]
  by (simp add: id_take_nth_drop [symmetric] upd_conv_take_nth_drop)

lemma crc32_upd_value: "j < length v \<Longrightarrow> b \<noteq> v ! j \<Longrightarrow> crc32 t k v \<noteq> crc32 t k (v[j := b])"
  using crc32_inject_value [of t k "take j v" "v ! j" "drop (Suc j) v" b]
  by (simp add: id_take_nth_drop [symmetric] upd_conv_take_nth_drop)

lemma nth_mid: "i = length us + j \<Longrightarrow> j < length xs \<Longrightarrow> (us @ xs @ vs) ! i = xs ! j"
  by (simp add: nth_append)

lemma upd_mid: "i = length us + j \<Longrightarrow> j < length xs \<Longrightarrow> (us @ xs @ vs)[i := b] = us @ xs[j := b] @ vs"
  by (simp add: list_update_append)

lemma recover_from_flipped:
  assumes fits: "entry_fits e" and one: "record_size (we_key e) (we_value e) \<le> 512"
    and i: "i = 0 \<or> 9 \<le> i" "i < record_size (we_key e) (we_value e)"
    and b: "b \<noteq> encode_entry e ! i"
  shows "recover_from ((encode_entry e)[i := b] @ rest) 0 = recover_from rest 0"
proof -
  let ?t = "type_byte (we_type e)" and ?k = "we_key e" and ?v = "we_value e"
  let ?c = "le_enc 4 (unat (crc32 ?t ?k ?v))"
  let ?nk = "length ?k" and ?nv = "length ?v"
  have al: "align512 (record_size ?k ?v) = 512"
    using one by (simp add: align512_def record_size_def div_nat_eqI)
  define pad :: bytes where "pad = replicate (512 - record_size ?k ?v) 0"
  have enc: "encode_entry e = ?t # le_enc 4 ?nk @ le_enc 4 ?nv @ ?k @ ?v @ ?c @ pad"
    by (simp add: encode_entry_body al record_body_def pad_def)
  let ?h = "?t # le_enc 4 ?nk @ le_enc 4 ?nv"
  have ek: "encode_entry e = ?h @ ?k @ (?v @ ?c @ pad)" and ev: "encode_entry e = (?h @ ?k) @ ?v @ (?c @ pad)"
    and ec: "encode_entry e = (?h @ ?k @ ?v) @ ?c @ pad"
    by (simp_all add: enc)
  have len: "length (encode_entry e) = 512"
    by (simp add: encode_entry_def length_encode_record al)
  have crc: "le_dec ?c = unat (crc32 ?t ?k ?v)"
    using unsigned_less [of "crc32 ?t ?k ?v", where 'a = nat] by (intro le_dec_enc4) simp
  have fk: "?nk \<le> uint32_max" "?nv \<le> uint32_max"
    using fits by (auto simp: entry_fits_def)
  consider (t) "i = 0" | (k) j where "i = 9 + j" "j < ?nk" | (v) j where "i = 9 + ?nk + j" "j < ?nv"
    | (c) j where "i = 9 + ?nk + ?nv + j" "j < 4"
  proof -
    have "i = 0 \<or> 9 \<le> i \<and> i < 9 + ?nk \<or> 9 + ?nk \<le> i \<and> i < 9 + ?nk + ?nv
        \<or> 9 + ?nk + ?nv \<le> i \<and> i < 9 + ?nk + ?nv + 4"
      using i unfolding record_size_def by linarith
    then show thesis
      using t k [of "i - 9"] v [of "i - (9 + ?nk)"] c [of "i - (9 + ?nk + ?nv)"]
      by (elim disjE conjE) simp_all
  qed
  then show ?thesis
  proof cases
    case t
    have upd: "(encode_entry e)[i := b] = b # le_enc 4 ?nk @ le_enc 4 ?nv @ ?k @ ?v @ ?c @ pad"
      using t by (simp add: enc)
    have "b \<noteq> ?t" using b t by (simp add: enc)
    then have "crc32 ?t ?k ?v \<noteq> crc32 b ?k ?v" by (simp add: crc32_inject_type)
    then have "le_dec ?c \<noteq> unat (crc32 b ?k ?v)" by (simp only: crc word_unat_eq_iff not_False_eq_True)
    then show ?thesis
      using recover_from_bad_block [OF disjI2 fk length_le_enc _ upd] len by simp
  next
    case (k j)
    have upd: "(encode_entry e)[i := b]
        = ?t # le_enc 4 (length (?k[j := b])) @ le_enc 4 ?nv @ ?k[j := b] @ ?v @ ?c @ pad"
      using upd_mid [of i ?h j ?k] k by (simp add: ek)
    have "b \<noteq> ?k ! j" using b nth_mid [of i ?h j ?k] k by (simp add: ek)
    then have "crc32 ?t ?k ?v \<noteq> crc32 ?t (?k[j := b]) ?v" by (rule crc32_upd_key [OF k(2)])
    then have "le_dec ?c \<noteq> unat (crc32 ?t (?k[j := b]) ?v)"
      by (simp only: crc word_unat_eq_iff not_False_eq_True)
    then show ?thesis
      using recover_from_bad_block [OF disjI2 _ fk(2) length_le_enc _ upd] fk(1) len by simp
  next
    case (v j)
    have upd: "(encode_entry e)[i := b]
        = ?t # le_enc 4 ?nk @ le_enc 4 (length (?v[j := b])) @ ?k @ ?v[j := b] @ ?c @ pad"
      using upd_mid [of i "?h @ ?k" j ?v] v by (simp add: ev)
    have "b \<noteq> ?v ! j" using b nth_mid [of i "?h @ ?k" j ?v] v by (simp add: ev)
    then have "crc32 ?t ?k ?v \<noteq> crc32 ?t ?k (?v[j := b])" by (rule crc32_upd_value [OF v(2)])
    then have "le_dec ?c \<noteq> unat (crc32 ?t ?k (?v[j := b]))"
      by (simp only: crc word_unat_eq_iff not_False_eq_True)
    then show ?thesis
      using recover_from_bad_block [OF disjI2 fk(1) _ length_le_enc _ upd] fk(2) len by simp
  next
    case (c j)
    have upd: "(encode_entry e)[i := b]
        = ?t # le_enc 4 ?nk @ le_enc 4 ?nv @ ?k @ ?v @ ?c[j := b] @ pad"
      using upd_mid [of i "?h @ ?k @ ?v" j ?c] c by (simp add: ec)
    have "b \<noteq> ?c ! j" using b nth_mid [of i "?h @ ?k @ ?v" j ?c] c by (simp add: ec)
    then have "?c[j := b] \<noteq> ?c" using c(2) by (metis length_le_enc nth_list_update_eq)
    then have "le_dec (?c[j := b]) \<noteq> le_dec ?c" by (metis length_le_enc length_list_update le_enc_dec)
    then have "le_dec (?c[j := b]) \<noteq> unat (crc32 ?t ?k ?v)" by (simp only: crc not_False_eq_True)
    then show ?thesis
      using recover_from_bad_block [OF disjI2 fk _ _ upd] len by simp
  qed
qed

section \<open>Reading the whole file\<close>

text \<open>The \<open>read\<close> results hand over exactly the file: chunks in order, interruptions anywhere, end
  of file at the end, no error.\<close>

fun delivers :: "read_res list \<Rightarrow> bytes \<Rightarrow> bool" where
  "delivers [] f = (f = [])"
| "delivers (Eintr # rs) f = delivers rs f"
| "delivers (ReadError # rs) f = False"
| "delivers (Chunk c # rs) f =
     (if c = [] then f = [] else prefix c f \<and> delivers rs (drop (length c) f))"

lemma read_loop_delivers:
  "delivers rs f \<Longrightarrow> length buf + length f \<le> max_recovery_bytes \<Longrightarrow> read_loop rs buf = Inr (buf @ f)"
proof (induction rs f arbitrary: buf rule: delivers.induct)
  case (4 c rs f)
  show ?case
  proof (cases "c = []")
    case False
    with "4.prems" obtain f' where "f = c @ f'" by (auto simp: prefix_def)
    with False 4 show ?thesis by simp
  qed (use 4 in simp)
qed auto

lemma delivers_unique: "delivers rs f \<Longrightarrow> delivers rs f' \<Longrightarrow> f = f'"
proof (induction rs f arbitrary: f' rule: delivers.induct)
  case (4 c rs f)
  then show ?case
    by (cases "c = []") (auto simp: prefix_def)
qed auto

text \<open>A result is never computed from a partial read.\<close>

lemma read_loop_complete:
  "read_loop rs buf = Inr buf' \<Longrightarrow> length buf \<le> max_recovery_bytes \<Longrightarrow>
   \<exists>f. buf' = buf @ f \<and> delivers rs f \<and> length buf' \<le> max_recovery_bytes"
proof (induction rs buf rule: read_loop.induct)
  case (4 c rs buf)
  show ?case
  proof (cases "c = []")
    case False
    with "4.prems" have "read_loop rs (buf @ c) = Inr buf'" "length (buf @ c) \<le> max_recovery_bytes"
      by (auto split: if_split_asm)
    with 4 False obtain f where "buf' = (buf @ c) @ f" "delivers rs f" "length buf' \<le> max_recovery_bytes"
      by (metis not_less length_append)
    with False show ?thesis by (intro exI [of _ "c @ f"]) simp
  qed (use 4 in simp)
qed auto

lemma recover_delivers:
  "delivers reads log \<Longrightarrow> length log \<le> max_recovery_bytes \<Longrightarrow>
   recover (Some log) (Some (length log)) reads = Inr (recover_from log 0)"
  using read_loop_delivers [of reads log "[]"] by (simp add: recover_def)

section \<open>Properties\<close>

text \<open>C13. Recovery after a crash: a log in which every record either landed or is still a hole of
  zero bytes is read back as exactly the landed records, in submission order, however the
  \<open>read\<close> calls chunk it and whichever of them are interrupted.\<close>

theorem recover_landed_records:
  assumes "\<forall>s \<in> set ss. entry_fits (fst s)"
    and "delivers reads (concat (map slot_bytes ss))"
    and "length (concat (map slot_bytes ss)) \<le> max_recovery_bytes"
  shows "recover (Some (concat (map slot_bytes ss))) (Some (length (concat (map slot_bytes ss)))) reads
           = Inr (map fst (filter snd ss))"
  using recover_delivers [OF assms(2,3)] recover_from_slots [OF assms(1), of "[]"]
  by (simp add: recover_from_past)

text \<open>C23. Torn tail: cutting the log anywhere inside a record that fits one block recovers every
  earlier record, and the cut one exactly when its body survived.\<close>

theorem recover_torn_tail:
  assumes "\<forall>e' \<in> set es. entry_fits e'" "entry_fits e"
    and "record_size (we_key e) (we_value e) \<le> 512" "n \<le> 512"
  shows "recover_from (take (length (concat (map encode_entry es)) + n)
             (concat (map encode_entry (es @ e # es')))) 0
           = es @ (if record_size (we_key e) (we_value e) \<le> n then [e] else [])"
proof -
  have "align512 (record_size (we_key e) (we_value e)) = 512"
    using assms(3) by (simp add: align512_def record_size_def div_nat_eqI)
  then have "length (encode_entry e) = 512"
    by (simp add: encode_entry_def length_encode_record)
  then show ?thesis
    using recover_from_entries [OF assms(1), of "take n (encode_entry e)"]
      recover_from_torn [OF assms(2-4)] assms(4) by simp
qed


text \<open>C32. Recovery makes nothing up: whatever the bytes of the file are, every recovered entry's
  complete body, checksum included, stands at a 512-byte boundary of the file.\<close>

theorem recover_entries_in_log:
  assumes "recover (Some log) st reads = Inr es" "delivers reads log" "e \<in> set es"
  shows "\<exists>p. 512 dvd p \<and> take (record_size (we_key e) (we_value e)) (drop p log)
               = record_body (type_byte (we_type e)) (we_key e) (we_value e)"
proof -
  obtain buf where buf: "read_loop reads [] = Inr buf" "es = recover_from buf 0"
    using assms(1) by (auto simp: recover_def split: if_split_asm sum.splits)
  have "length ([] :: bytes) \<le> max_recovery_bytes" by simp
  with buf(1) obtain f where "buf = f" "delivers reads f" "length buf \<le> max_recovery_bytes"
    using read_loop_complete by fastforce
  then have "buf = log"
    using delivers_unique assms(2) by blast
  then show ?thesis
    using recover_from_sound [of e buf 0] assms(3) buf(2) by auto
qed

text \<open>C33. The checksum distinguishes any two records that differ in one byte of the type, of the key
  or of the value.\<close>

theorem crc32_detects_byte_change:
  "(crc32 t k v = crc32 t' k v \<longleftrightarrow> t = t')
   \<and> (crc32 t (xs @ b # ys) v = crc32 t (xs @ b' # ys) v \<longleftrightarrow> b = b')
   \<and> (crc32 t k (xs @ b # ys) = crc32 t k (xs @ b' # ys) \<longleftrightarrow> b = b')"
  by (simp add: crc32_inject_type crc32_inject_key crc32_inject_value)

text \<open>C36. Resynchronising inside a torn record: when a record longer than one block is torn before
  its checksum, recovery continues at the next 512-byte boundary inside that record's own value,
  and takes bytes of the value that have the form of a record for one. The log holds a single
  (torn) record \<open>e\<close>, yet \<open>e'\<close>, which no caller ever logged, is recovered.\<close>

theorem recover_resyncs_inside_value:
  assumes "entry_fits e" "entry_fits e'"
    and "we_value e = pad @ encode_entry e' @ post" "9 + length (we_key e) + length pad = 512"
  shows "recover_from (take (512 + length (encode_entry e')) (encode_entry e)) 0 = [e']"
proof -
  let ?n = "512 + length (encode_entry e')"
  let ?h = "type_byte (we_type e) # le_enc 4 (length (we_key e)) @ le_enc 4 (length (we_value e)) @ we_key e @ pad"
  have "we_value e @ xs = pad @ encode_entry e' @ post @ xs" for xs
    by (simp add: assms(3))
  then have "\<exists>xs. encode_entry e = ?h @ encode_entry e' @ xs"
    unfolding encode_entry_body [of e] record_body_def by (simp only: append.simps append_assoc) blast
  then obtain xs where "encode_entry e = (?h @ encode_entry e') @ xs" by auto
  moreover have "length (?h @ encode_entry e') = ?n" using assms(4) by simp
  ultimately have cut: "take ?n (encode_entry e) = ?h @ encode_entry e'"
    by (metis append_eq_conv_conj)
  have h: "length ?h = 512" using assms(4) by simp
  have "recover_step (take ?n (encode_entry e)) 0 = (None, 512)"
    using assms(3,4) by (intro recover_step_torn [OF assms(1)]) (simp_all add: record_size_def)
  then have "recover_from (take ?n (encode_entry e)) 0 = recover_from (?h @ encode_entry e') (length ?h)"
    unfolding cut h by (subst recover_from.simps) (simp add: cut h)
  also have "\<dots> = recover_from (encode_entry e') 0"
    by (rule recover_from_append) (simp only: h dvd_refl)
  also have "\<dots> = [e']"
    using recover_from_entry [OF assms(2), of "[]"] by (simp add: recover_from_past)
  finally show ?thesis .
qed

section \<open>The properties at concrete logs\<close>

definition ex_put :: wal_entry where
  "ex_put = \<lparr>we_type = PUT, we_key = [107], we_value = [49, 50]\<rparr>"

definition ex_del :: wal_entry where
  "ex_del = \<lparr>we_type = DEL, we_key = [107], we_value = []\<rparr>"

definition ex_nested :: wal_entry where
  "ex_nested = \<lparr>we_type = PUT, we_key = [107], we_value = replicate 502 0 @ encode_entry ex_put\<rparr>"

lemma ex_fits: "entry_fits ex_put" "entry_fits ex_del" "entry_fits ex_nested"
  by (simp_all add: entry_fits_def ex_put_def ex_del_def ex_nested_def encode_entry_def
      length_encode_record align512_def record_size_def)

lemma length_slot_bytes: "length (slot_bytes s) = length (encode_entry (fst s))"
  by (simp add: slot_bytes_def)

lemma ex_lengths: "length (encode_entry ex_put) = 512" "length (encode_entry ex_del) = 512"
  by (simp_all add: encode_entry_def length_encode_record align512_def record_size_def ex_put_def ex_del_def)

theorem recover_landed_records_witness:
  "recover (Some (concat (map slot_bytes [(ex_put, True), (ex_del, False), (ex_put, True)])))
     (Some (length (concat (map slot_bytes [(ex_put, True), (ex_del, False), (ex_put, True)]))))
     [Eintr, Chunk (concat (map slot_bytes [(ex_put, True), (ex_del, False), (ex_put, True)]))]
   = Inr [ex_put, ex_put]"
proof -
  let ?ss = "[(ex_put, True), (ex_del, False), (ex_put, True)]"
  have len: "length (concat (map slot_bytes ?ss)) = 1536"
    by (simp add: length_slot_bytes ex_lengths)
  then have "delivers [Eintr, Chunk (concat (map slot_bytes ?ss))] (concat (map slot_bytes ?ss))"
    by simp
  then show ?thesis
    using recover_landed_records [of ?ss "[Eintr, Chunk (concat (map slot_bytes ?ss))]"] len
    by (simp add: ex_fits max_recovery_bytes_def)
qed

theorem recover_torn_tail_witness:
  "recover_from (take (length (concat (map encode_entry [ex_put])) + 12)
     (concat (map encode_entry ([ex_put] @ ex_del # [])))) 0 = [ex_put]"
  using recover_torn_tail [of "[ex_put]" ex_del 12 "[]"] ex_fits
  by (simp add: ex_del_def record_size_def)


theorem recover_entries_in_log_witness:
  "\<exists>p. 512 dvd p \<and> take (record_size (we_key ex_put) (we_value ex_put)) (drop p (encode_entry ex_put))
     = record_body (type_byte (we_type ex_put)) (we_key ex_put) (we_value ex_put)"
proof (rule recover_entries_in_log)
  have d: "delivers [Chunk (encode_entry ex_put)] (encode_entry ex_put)"
    using ex_lengths(1) by auto
  then show "recover (Some (encode_entry ex_put)) (Some (length (encode_entry ex_put)))
      [Chunk (encode_entry ex_put)] = Inr [ex_put]"
    using recover_delivers [OF d] recover_from_entry [OF ex_fits(1), of "[]"]
    by (simp add: ex_lengths max_recovery_bytes_def recover_from_past)
  show "delivers [Chunk (encode_entry ex_put)] (encode_entry ex_put)" by (rule d)
qed simp

theorem recover_resyncs_inside_value_witness:
  "recover_from (take (512 + length (encode_entry ex_put)) (encode_entry ex_nested)) 0 = [ex_put]"
  using recover_resyncs_inside_value [of ex_nested ex_put "replicate 502 0" "[]"] ex_fits
  by (simp add: ex_nested_def)

end
