(* ===== verification/Bloom.thy ===== *)
theory Bloom
  imports Prelude
begin

text \<open>
  The block Bloom filter of src/sstable/block_bloom_filter.h: double hashing over the key's bytes
  in 64-bit arithmetic, one 512-bit block per key, and the byte image the SSTable stores.
  The lemmas show that a filter never denies a key that was inserted, that an insertion touches
  one block only, that the eight probes of a key are eight different bits, and that
  \<open>serialize\<close> and \<open>deserialize\<close> are inverse.

  The constructor computes the number of bits with floating-point logarithms; that expression is
  the parameter \<open>fp_bits\<close>, a function of the expected number of keys, about which nothing is
  assumed (the code clamps the resulting block count to at least one).
\<close>

type_synonym u64 = "64 word"
type_synonym block = "u64 list"

record bloom =
  bf_blocks :: "block list"
  num_blocks :: nat
  num_hashes :: nat

definition empty_block :: block where
  "empty_block = replicate 8 0"

definition mk_bloom :: "(nat \<Rightarrow> nat) \<Rightarrow> nat \<Rightarrow> bloom" where
  "mk_bloom fp_bits expected_keys =
     (let total_bits = fp_bits expected_keys;
          nb = (total_bits + 511) div 512;
          nb = (if nb = 0 then 1 else nb)
      in \<lparr>bf_blocks = replicate nb empty_block, num_blocks = nb, num_hashes = 8\<rparr>)"

section \<open>Hashing\<close>

definition rotl27 :: "u64 \<Rightarrow> u64" where
  "rotl27 h = push_bit 27 h OR drop_bit 37 h"

definition hash_byte :: "u64 \<times> u64 \<Rightarrow> byte \<Rightarrow> u64 \<times> u64" where
  "hash_byte h c =
     (let h1 = (fst h XOR ucast c) * 1099511628211;
          h2 = rotl27 ((snd h XOR ucast c) * 0x9E3779B97F4A7C15)
      in (h1, h2))"

definition hash_final :: "u64 \<Rightarrow> u64" where
  "hash_final h2 =
     (let h2 = h2 XOR drop_bit 33 h2;
          h2 = h2 * 0xff51afd7ed558ccd;
          h2 = h2 XOR drop_bit 29 h2
      in h2 OR 1)"

definition bloom_hash :: "bytes \<Rightarrow> u64 \<times> u64" where
  "bloom_hash key =
     (let h = foldl hash_byte (14695981039346656037, 1099511628211) key
      in (fst h, hash_final (snd h)))"

text \<open>The bit the \<open>i\<close>-th probe of a key looks at, inside its block.\<close>

definition bit_idx :: "u64 \<Rightarrow> u64 \<Rightarrow> nat \<Rightarrow> nat" where
  "bit_idx h1 h2 i = unat ((h1 + word_of_nat i * h2) mod 512)"

section \<open>Insertion and query\<close>

definition set_block_bit :: "block \<Rightarrow> nat \<Rightarrow> block" where
  "set_block_bit b j = b[j div 64 := b ! (j div 64) OR push_bit (j mod 64) 1]"

definition get_block_bit :: "block \<Rightarrow> nat \<Rightarrow> bool" where
  "get_block_bit b j \<longleftrightarrow> b ! (j div 64) AND push_bit (j mod 64) 1 \<noteq> 0"

fun insert_bits :: "u64 \<Rightarrow> u64 \<Rightarrow> nat list \<Rightarrow> block \<Rightarrow> block" where
  "insert_bits h1 h2 [] b = b"
| "insert_bits h1 h2 (i # is) b = insert_bits h1 h2 is (set_block_bit b (bit_idx h1 h2 i))"

definition bloom_insert :: "bytes \<Rightarrow> bloom \<Rightarrow> bloom" where
  "bloom_insert key bf =
     (let (h1, h2) = bloom_hash key;
          block_idx = unat h1 mod num_blocks bf
      in bf\<lparr>bf_blocks := (bf_blocks bf)[block_idx :=
               insert_bits h1 h2 [0..<num_hashes bf] (bf_blocks bf ! block_idx)]\<rparr>)"

fun all_bits_set :: "u64 \<Rightarrow> u64 \<Rightarrow> nat list \<Rightarrow> block \<Rightarrow> bool" where
  "all_bits_set h1 h2 [] b = True"
| "all_bits_set h1 h2 (i # is) b =
     (if \<not> get_block_bit b (bit_idx h1 h2 i) then False else all_bits_set h1 h2 is b)"

definition mayContain :: "bloom \<Rightarrow> bytes \<Rightarrow> bool" where
  "mayContain bf key =
     (let (h1, h2) = bloom_hash key;
          block_idx = unat h1 mod num_blocks bf
      in all_bits_set h1 h2 [0..<num_hashes bf] (bf_blocks bf ! block_idx))"

section \<open>Byte image\<close>

definition block_bytes :: "block \<Rightarrow> bytes" where
  "block_bytes b = concat (map (\<lambda>w. le_enc 8 (unat w)) b)"

definition serialize :: "bloom \<Rightarrow> bytes" where
  "serialize bf = concat (map block_bytes (bf_blocks bf))"

fun words_of_bytes :: "nat \<Rightarrow> bytes \<Rightarrow> u64 list" where
  "words_of_bytes 0 bs = []"
| "words_of_bytes (Suc n) bs = word_of_nat (le_dec (take 8 bs)) # words_of_bytes n (drop 8 bs)"

fun blocks_of_bytes :: "nat \<Rightarrow> bytes \<Rightarrow> block list" where
  "blocks_of_bytes 0 bs = []"
| "blocks_of_bytes (Suc n) bs = words_of_bytes 8 bs # blocks_of_bytes n (drop 64 bs)"

definition deserialize :: "nat \<Rightarrow> nat \<Rightarrow> bytes \<Rightarrow> bloom" where
  "deserialize nb nh data =
     (let nb = (if nb = 0 then 1 else nb);
          nh = (if nh = 0 then 1 else nh);
          blocks = (if length data \<ge> nb * 64 then blocks_of_bytes nb data
                    else replicate nb empty_block)
      in \<lparr>bf_blocks = blocks, num_blocks = nb, num_hashes = nh\<rparr>)"

section \<open>Well-formed filters\<close>

definition bloom_ok :: "bloom \<Rightarrow> bool" where
  "bloom_ok bf \<longleftrightarrow> 0 < num_blocks bf \<and> 0 < num_hashes bf \<and> length (bf_blocks bf) = num_blocks bf
     \<and> (\<forall>b \<in> set (bf_blocks bf). length b = 8)"

lemma bit_idx_less [simp]: "bit_idx h1 h2 i < 512"
proof -
  have "unat ((h1 + word_of_nat i * h2) mod 512) < unat (512 :: u64)"
    by (simp add: unat_mod)
  then show ?thesis by (simp add: bit_idx_def)
qed

lemma length_set_block_bit [simp]: "length (set_block_bit b j) = length b"
  by (simp add: set_block_bit_def)

lemma length_insert_bits [simp]: "length (insert_bits h1 h2 is b) = length b"
  by (induction "is" arbitrary: b) auto

lemma get_block_bit_iff: "get_block_bit b j \<longleftrightarrow> bit (b ! (j div 64)) (j mod 64)"
  by (simp add: get_block_bit_def push_bit_of_1 and_exp_eq_0_iff_not_bit)

lemma get_set_block_bit:
  assumes "length b = 8" "j < 512" "j' < 512"
  shows "get_block_bit (set_block_bit b j) j' \<longleftrightarrow> j' = j \<or> get_block_bit b j'"
proof -
  have "j div 64 < 8" "j' div 64 < 8" using assms by auto
  moreover have "j' = j \<longleftrightarrow> j' div 64 = j div 64 \<and> j' mod 64 = j mod 64"
    by (metis div_mult_mod_eq)
  moreover have "j mod 64 < 64" "j' mod 64 < 64" by simp_all
  ultimately show ?thesis
    using assms(1) by (auto simp: get_block_bit_iff set_block_bit_def nth_list_update bit_simps)
qed

lemma get_insert_bits:
  "length b = 8 \<Longrightarrow> j < 512 \<Longrightarrow>
   get_block_bit (insert_bits h1 h2 is b) j \<longleftrightarrow> j \<in> bit_idx h1 h2 ` set is \<or> get_block_bit b j"
  by (induction "is" arbitrary: b) (auto simp: get_set_block_bit)

lemma all_bits_set_iff: "all_bits_set h1 h2 is b \<longleftrightarrow> (\<forall>i \<in> set is. get_block_bit b (bit_idx h1 h2 i))"
  by (induction "is") auto

lemma bloom_ok_block: "bloom_ok bf \<Longrightarrow> unat h mod num_blocks bf < length (bf_blocks bf)"
  by (simp add: bloom_ok_def)

lemma bloom_ok_mk [simp]: "bloom_ok (mk_bloom fp_bits n)"
  by (auto simp: bloom_ok_def mk_bloom_def Let_def empty_block_def)

lemma bloom_ok_insert: "bloom_ok bf \<Longrightarrow> bloom_ok (bloom_insert k bf)"
  by (auto simp: bloom_ok_def bloom_insert_def Let_def case_prod_unfold
      dest!: set_update_subset_insert [THEN subsetD])

lemma mayContain_insert_self:
  assumes "bloom_ok bf"
  shows "mayContain (bloom_insert k bf) k"
  using assms bloom_ok_block [OF assms]
  by (auto simp: mayContain_def bloom_insert_def Let_def case_prod_unfold all_bits_set_iff bloom_ok_def
      get_insert_bits)

lemma mayContain_insert_mono:
  assumes "bloom_ok bf" "mayContain bf k'"
  shows "mayContain (bloom_insert k bf) k'"
  using assms bloom_ok_block [OF assms(1)]
  by (auto simp: mayContain_def bloom_insert_def Let_def case_prod_unfold all_bits_set_iff bloom_ok_def
      get_insert_bits nth_list_update)

section \<open>The contract a table relies on\<close>

text \<open>What \<open>SSTable::get\<close> needs of a filter: an inserted key is never denied, and no later
  insertion takes that back.\<close>

locale membership_filter =
  fixes ins :: "'k \<Rightarrow> 'f \<Rightarrow> 'f"
    and mem :: "'f \<Rightarrow> 'k \<Rightarrow> bool"
    and ok :: "'f \<Rightarrow> bool"
  assumes ok_ins: "ok f \<Longrightarrow> ok (ins k f)"
    and mem_ins_self: "ok f \<Longrightarrow> mem (ins k f) k"
    and mem_ins_mono: "ok f \<Longrightarrow> mem f k' \<Longrightarrow> mem (ins k f) k'"
begin

lemma ok_fold: "ok f \<Longrightarrow> ok (fold ins ks f)"
  by (induction ks arbitrary: f) (auto intro: ok_ins)

lemma mem_fold_mono: "ok f \<Longrightarrow> mem f k \<Longrightarrow> mem (fold ins ks f) k"
  by (induction ks arbitrary: f) (auto intro: ok_ins mem_ins_mono)

lemma mem_fold: "ok f \<Longrightarrow> k \<in> set ks \<Longrightarrow> mem (fold ins ks f) k"
proof (induction ks arbitrary: f)
  case (Cons x ks)
  show ?case
  proof (cases "k = x")
    case True
    then show ?thesis using Cons.prems by (simp add: mem_fold_mono ok_ins mem_ins_self)
  next
    case False
    then show ?thesis using Cons by (simp add: ok_ins)
  qed
qed simp

end

interpretation bloom: membership_filter bloom_insert mayContain bloom_ok
  by unfold_locales (auto intro: bloom_ok_insert mayContain_insert_self mayContain_insert_mono)

section \<open>Serialisation\<close>

lemma length_block_bytes: "length (block_bytes b) = 8 * length b"
  by (induction b) (auto simp: block_bytes_def)

lemma words_of_block_bytes: "length b = n \<Longrightarrow> words_of_bytes n (block_bytes b @ rest) = b"
proof (induction b arbitrary: n)
  case (Cons w b)
  have "unat w \<le> uint64_max" using unsigned_less [of w, where 'a = nat] by simp
  with Cons show ?case by (cases n) (auto simp: block_bytes_def)
qed simp

lemma blocks_of_serialized:
  "length bs = n \<Longrightarrow> \<forall>b \<in> set bs. length b = 8 \<Longrightarrow>
   blocks_of_bytes n (concat (map block_bytes bs) @ rest) = bs"
proof (induction bs arbitrary: n)
  case (Cons b bs)
  then have "words_of_bytes 8 (block_bytes b @ xs) = b" for xs
    by (intro words_of_block_bytes) simp
  with Cons show ?case by (cases n) (auto simp: length_block_bytes)
qed simp

lemma length_serialize: "bloom_ok bf \<Longrightarrow> length (serialize bf) = num_blocks bf * 64"
proof -
  have "\<forall>b \<in> set bs. length b = 8 \<Longrightarrow> length (concat (map block_bytes bs)) = length bs * 64" for bs
    by (induction bs) (auto simp: length_block_bytes)
  then show "bloom_ok bf \<Longrightarrow> ?thesis" by (simp add: serialize_def bloom_ok_def)
qed

lemma deserialize_serialize:
  assumes "bloom_ok bf"
  shows "deserialize (num_blocks bf) (num_hashes bf) (serialize bf) = bf"
  using assms length_serialize [OF assms] blocks_of_serialized [of "bf_blocks bf" _ "[]"]
  by (auto simp: deserialize_def bloom_ok_def serialize_def)

lemma length_words_of_bytes [simp]: "length (words_of_bytes n bs) = n"
  by (induction n arbitrary: bs) auto

lemma bloom_ok_deserialize [simp]: "bloom_ok (deserialize nb nh data)"
proof -
  have "length (blocks_of_bytes n bs) = n \<and> (\<forall>b \<in> set (blocks_of_bytes n bs). length b = 8)" for n bs
    by (induction n arbitrary: bs) auto
  then show ?thesis by (auto simp: bloom_ok_def deserialize_def Let_def empty_block_def)
qed

section \<open>Probes\<close>

lemma odd_hash_final: "odd (hash_final h)"
  by (simp add: hash_final_def Let_def even_or_iff)

lemma bit_idx_nat: "bit_idx h1 h2 i = (unat h1 + i * unat h2) mod 512"
proof -
  have "bit_idx h1 h2 i = (unat h1 + i * unat h2) mod 2 ^ 64 mod 512"
    by (simp add: bit_idx_def unat_mod unat_word_ariths unat_of_nat mod_simps)
  also have "\<dots> = (unat h1 + i * unat h2) mod 512"
    by (rule mod_mod_cancel) simp
  finally show ?thesis .
qed

lemma bit_idx_inject:
  assumes odd: "odd h2" and ij: "i < 512" "j < 512" and eq: "bit_idx h1 h2 i = bit_idx h1 h2 j"
  shows "i = j"
  using ij eq
proof (induction i j rule: linorder_wlog)
  case (le i j)
  have o: "odd (unat h2)" using odd by (simp add: bit_0 [symmetric] bit_unsigned_iff)
  have "(unat h1 + j * unat h2) mod 512 = (unat h1 + i * unat h2) mod 512"
    using le by (simp add: bit_idx_nat)
  then have "512 dvd (unat h1 + j * unat h2) - (unat h1 + i * unat h2)"
    using le by (intro mod_eq_dvd_iff_nat [THEN iffD1]) auto
  then have "512 dvd (j - i) * unat h2"
    by (simp add: diff_mult_distrib)
  moreover have "coprime (2 ^ 9) (unat h2)"
    using o by (simp only: coprime_power_left_iff coprime_left_2_iff_odd) simp
  ultimately have "512 dvd j - i"
    by (simp add: coprime_dvd_mult_left_iff)
  then have "j - i = 0" using le by (auto dest!: dvd_imp_le)
  with le show ?case by simp
qed simp

section \<open>Properties\<close>

text \<open>C24. No false negatives, across the disk: whatever block count the floating-point formula
  gives, the filter built by inserting a sequence of keys answers yes for each of them, and so does
  the filter read back from its stored bytes.\<close>

theorem bloom_no_false_negatives:
  "let bf = fold bloom_insert (xs @ k # ys) (mk_bloom fp_bits n) in
   mayContain bf k \<and> deserialize (num_blocks bf) (num_hashes bf) (serialize bf) = bf"
proof -
  let ?bf = "fold bloom_insert (xs @ k # ys) (mk_bloom fp_bits n)"
  have "bloom_ok ?bf" by (rule bloom.ok_fold) simp
  moreover have "mayContain ?bf k" by (rule bloom.mem_fold) simp_all
  ultimately show ?thesis by (simp add: deserialize_serialize)
qed

text \<open>C34. The probe step is odd, so the first 512 probe positions of a key are pairwise different:
  the eight bits of a key are eight bits, and every bit of the block can be reached.\<close>

theorem bloom_probes_distinct:
  "distinct (map (bit_idx (fst (bloom_hash key)) (snd (bloom_hash key))) [0..<512])"
proof -
  have "odd (snd (bloom_hash key))"
    by (simp add: bloom_hash_def Let_def odd_hash_final)
  then show ?thesis
    by (auto simp: distinct_map inj_on_def dest: bit_idx_inject)
qed

end
