(* ===== verification/FileSystem.thy ===== *)
theory FileSystem
  imports Prelude
begin

text \<open>
  What the engine uses of the C++ library and of the file system: a directory tree as a map from
  paths to contents, the operations the code performs on it as an explicit sequence (every prefix
  of the sequence is a state a process crash can leave behind), and \<open>std::ifstream\<close> with its
  position and its fail and end-of-file bits.
\<close>

section \<open>Files\<close>

type_synonym path = string
type_synonym fs = "path \<rightharpoonup> bytes"

text \<open>One file-system call each. \<open>AppendByte\<close> is the granularity at which a buffered stream reaches
  the file: a crash may cut it anywhere. \<open>Sync\<close> and \<open>SyncDir\<close> do not change what a process crash
  leaves (the page cache survives); they are kept so that the order of calls can be read off.\<close>

datatype fs_op =
    Truncate path
  | AppendByte path byte
  | Sync path
  | SyncDir path
  | Rename path path
  | Remove path

fun apply_op :: "fs_op \<Rightarrow> fs \<Rightarrow> fs" where
  "apply_op (Truncate p) fs = fs(p \<mapsto> [])"
| "apply_op (AppendByte p b) fs = (case fs p of None \<Rightarrow> fs | Some c \<Rightarrow> fs(p \<mapsto> c @ [b]))"
| "apply_op (Sync p) fs = fs"
| "apply_op (SyncDir p) fs = fs"
| "apply_op (Rename p q) fs = (case fs p of None \<Rightarrow> fs | Some c \<Rightarrow> (fs(p := None))(q \<mapsto> c))"
| "apply_op (Remove p) fs = fs(p := None)"

definition run_ops :: "fs_op list \<Rightarrow> fs \<Rightarrow> fs" where
  "run_ops ops fs = fold apply_op ops fs"

text \<open>The states a crash during \<open>ops\<close> can leave.\<close>

definition crash_states :: "fs_op list \<Rightarrow> fs \<Rightarrow> fs set" where
  "crash_states ops fs = {run_ops pre fs | pre. prefix pre ops}"

fun op_paths :: "fs_op \<Rightarrow> path set" where
  "op_paths (Truncate p) = {p}"
| "op_paths (AppendByte p b) = {p}"
| "op_paths (Sync p) = {}"
| "op_paths (SyncDir p) = {}"
| "op_paths (Rename p q) = {p, q}"
| "op_paths (Remove p) = {p}"

lemma run_ops_Nil [simp]: "run_ops [] fs = fs"
  by (simp add: run_ops_def)

lemma run_ops_Cons [simp]: "run_ops (x # xs) fs = run_ops xs (apply_op x fs)"
  by (simp add: run_ops_def)

lemma run_ops_append [simp]: "run_ops (xs @ ys) fs = run_ops ys (run_ops xs fs)"
  by (simp add: run_ops_def)

lemma apply_op_other: "p \<notin> op_paths x \<Longrightarrow> apply_op x fs p = fs p"
  by (cases x) (auto split: option.splits)

lemma run_ops_other: "\<forall>x \<in> set ops. p \<notin> op_paths x \<Longrightarrow> run_ops ops fs p = fs p"
  by (induction ops arbitrary: fs) (auto simp: apply_op_other)

lemma run_appends:
  "fs p = Some c \<Longrightarrow> run_ops (map (AppendByte p) bs) fs = fs(p \<mapsto> c @ bs)"
proof (induction bs arbitrary: fs c)
  case Nil
  then show ?case by (simp add: fun_upd_idem)
next
  case (Cons b bs)
  have "run_ops (map (AppendByte p) bs) (fs(p \<mapsto> c @ [b])) = (fs(p \<mapsto> c @ [b]))(p \<mapsto> (c @ [b]) @ bs)"
    by (rule Cons.IH) simp
  then show ?case using Cons.prems by simp
qed

section \<open>Input streams\<close>

record ifs =
  ifs_data :: bytes
  ifs_pos :: nat
  ifs_fail :: bool
  ifs_eof :: bool

definition ifs_open :: "bytes \<Rightarrow> ifs" where
  "ifs_open data = \<lparr>ifs_data = data, ifs_pos = 0, ifs_fail = False, ifs_eof = False\<rparr>"

text \<open>\<open>istream::read\<close>: the bytes stored into the caller's buffer. A stream that is not good stores
  nothing; a short read stores what there is and sets both bits.\<close>

definition ifs_read :: "nat \<Rightarrow> ifs \<Rightarrow> bytes \<times> ifs" where
  "ifs_read n s =
     (if ifs_fail s \<or> ifs_eof s then ([], s\<lparr>ifs_fail := True\<rparr>)
      else
        (let avail = drop (ifs_pos s) (ifs_data s) in
         if n \<le> length avail then (take n avail, s\<lparr>ifs_pos := ifs_pos s + n\<rparr>)
         else (avail, s\<lparr>ifs_pos := ifs_pos s + length avail, ifs_fail := True, ifs_eof := True\<rparr>)))"

text \<open>\<open>static_cast<uint64_t>(tellg())\<close>: the position, or \<open>pos_type(-1)\<close> on a stream that is not good.\<close>

definition ifs_tellg :: "ifs \<Rightarrow> nat \<times> ifs" where
  "ifs_tellg s =
     (if ifs_fail s \<or> ifs_eof s then (uint64_max, s\<lparr>ifs_fail := True\<rparr>) else (ifs_pos s, s))"

text \<open>\<open>seekg\<close> to an unsigned offset: what does not fit the signed \<open>streamoff\<close> turns negative and fails.\<close>

definition ifs_seekg :: "nat \<Rightarrow> ifs \<Rightarrow> ifs" where
  "ifs_seekg p s =
     (let s = s\<lparr>ifs_eof := False\<rparr> in
      if ifs_fail s then s else if p \<ge> 2 ^ 63 then s\<lparr>ifs_fail := True\<rparr> else s\<lparr>ifs_pos := p\<rparr>)"

text \<open>\<open>peek() != EOF\<close>.\<close>

definition ifs_peek :: "ifs \<Rightarrow> bool \<times> ifs" where
  "ifs_peek s =
     (if ifs_fail s \<or> ifs_eof s then (False, s\<lparr>ifs_fail := True\<rparr>)
      else if ifs_pos s < length (ifs_data s) then (True, s)
      else (False, s\<lparr>ifs_eof := True\<rparr>))"

definition ifs_good :: "ifs \<Rightarrow> bool" where
  "ifs_good s \<longleftrightarrow> \<not> ifs_fail s \<and> \<not> ifs_eof s"

text \<open>A good stream standing in front of known bytes.\<close>

definition at_bytes :: "ifs \<Rightarrow> bytes \<Rightarrow> bool" where
  "at_bytes s bs \<longleftrightarrow> ifs_good s \<and> drop (ifs_pos s) (ifs_data s) = bs"

definition skip_to :: "nat \<Rightarrow> ifs \<Rightarrow> ifs" where
  "skip_to n s = s\<lparr>ifs_pos := ifs_pos s + n\<rparr>"

lemma skip_to_sel [simp]:
  "ifs_data (skip_to n s) = ifs_data s" "ifs_pos (skip_to n s) = ifs_pos s + n"
  "ifs_fail (skip_to n s) = ifs_fail s" "ifs_eof (skip_to n s) = ifs_eof s"
  "ifs_good (skip_to n s) = ifs_good s"
  by (simp_all add: skip_to_def ifs_good_def)

lemma skip_to_skip_to [simp]: "skip_to m (skip_to n s) = skip_to (n + m) s"
  by (simp add: skip_to_def add.assoc)

lemma at_bytes_skip: "at_bytes s (xs @ ys) \<Longrightarrow> length xs = n \<Longrightarrow> at_bytes (skip_to n s) ys"
  unfolding at_bytes_def by (auto simp: add.commute drop_drop [symmetric] simp del: drop_drop)

lemma ifs_read_at:
  assumes "at_bytes s (xs @ ys)" "length xs = n"
  shows "ifs_read n s = (xs, skip_to n s)"
  using assms by (auto simp: ifs_read_def at_bytes_def ifs_good_def skip_to_def Let_def)

lemma ifs_tellg_good: "ifs_good s \<Longrightarrow> ifs_tellg s = (ifs_pos s, s)"
  by (simp add: ifs_tellg_def ifs_good_def)

lemma ifs_seekg_good:
  "ifs_good s \<Longrightarrow> p < 2 ^ 63 \<Longrightarrow> ifs_seekg p s = \<lparr>ifs_data = ifs_data s, ifs_pos = p, ifs_fail = False, ifs_eof = False\<rparr>"
  by (cases s) (simp add: ifs_seekg_def ifs_good_def)

lemma ifs_read_data [simp]: "ifs_data (snd (ifs_read n s)) = ifs_data s"
  by (simp add: ifs_read_def Let_def)

lemma ifs_read_progress: "ifs_good (snd (ifs_read n s)) \<Longrightarrow> ifs_good s \<and> ifs_pos (snd (ifs_read n s)) = ifs_pos s + n
    \<and> length (fst (ifs_read n s)) = n"
  by (auto simp: ifs_read_def ifs_good_def Let_def split: if_split_asm)

lemma ifs_read_pos_mono: "ifs_pos s \<le> ifs_pos (snd (ifs_read n s))"
  by (auto simp: ifs_read_def Let_def)

end
