(* ===== verification/SSTableFormat.thy ===== *)
theory SSTableFormat
  imports FileSystem Bloom
begin

text \<open>
  Writing a table (src/sstable/sstable_builder.cpp): the byte layout of entries, sparse index,
  Bloom section and footer, and \<open>SSTable::write\<close> with every failure of its file-system calls.
  A table file is

    data entries, index count, index entries, Bloom section, index offset, Bloom offset

  where the index holds the first key and the offset of every block of about
  \<open>TARGET_BLOCK_SIZE\<close> bytes. The lemmas give the closed form of the file for entries the format
  can hold and show that the name \<open>path\<close> only ever resolves to a complete table.
\<close>

datatype sst_error =
    NotSorted | CannotCreate | LengthError | IndexTooLong | WriteFailed | CloseFailed
  | ReopenFailed | FsyncFailed | CloseAfterFsyncFailed | PublishFailed | DirOpenFailed
  | DirFsyncFailed | DirCloseFailed
  | CannotOpen | FileTooSmall | BadFooter | IndexCountTooBig | StringTooLong | BloomTooBig
  | Undefined | BadDescriptor | PreadError | ShortPread

section \<open>The output stream\<close>

text \<open>Bytes handed to the stream so far, and the exception that ended the writing, if any.\<close>

type_synonym out = "bytes \<times> sst_error option"

fun out_seq :: "out \<Rightarrow> out \<Rightarrow> out" where
  "out_seq (a, Some err) b = (a, Some err)"
| "out_seq (a, None) b = (a @ fst b, snd b)"

definition writeUint32 :: "nat \<Rightarrow> out" where
  "writeUint32 v = (le_enc 4 v, None)"

definition writeUint64 :: "nat \<Rightarrow> out" where
  "writeUint64 v = (le_enc 8 v, None)"

definition writeString :: "bytes \<Rightarrow> out" where
  "writeString s =
     (if length s > uint32_max then ([], Some LengthError) else (le_enc 4 (length s) @ s, None))"

definition writeEntry :: "entry \<Rightarrow> out" where
  "writeEntry e =
     (let is_tombstone = (case snd e of Some _ \<Rightarrow> 0 | None \<Rightarrow> 1) in
      out_seq ([is_tombstone], None)
        (out_seq (writeString (fst e))
           (writeString (case snd e of Some v \<Rightarrow> v | None \<Rightarrow> []))))"

definition serializeBloom :: "bloom \<Rightarrow> out" where
  "serializeBloom bf =
     out_seq (writeUint64 (num_hashes bf))
       (out_seq (writeUint64 (num_blocks bf)) (serialize bf, None))"

section \<open>The table\<close>

definition target_block_size :: nat where
  "target_block_size = 4096"

definition entry_size :: "entry \<Rightarrow> nat" where
  "entry_size e = 1 + 4 + length (fst e) + 4 + (case snd e of Some v \<Rightarrow> length v | None \<Rightarrow> 0)"

text \<open>The loop over the entries: \<open>first\<close> is \<open>i == 0\<close>, \<open>cur\<close> is \<open>current_block_bytes\<close>, \<open>tellp\<close> the
  stream position. The result is the sparse index and what was written.\<close>

fun write_entries :: "bool \<Rightarrow> nat \<Rightarrow> nat \<Rightarrow> entry list \<Rightarrow> (bytes \<times> nat) list \<times> out" where
  "write_entries first cur tellp [] = ([], ([], None))"
| "write_entries first cur tellp (e # es) =
     (let new_block = (first \<or> cur \<ge> target_block_size);
          cur = (if new_block then 0 else cur);
          w = writeEntry e;
          rest = write_entries False (cur + entry_size e) (tellp + length (fst w)) es
      in (if new_block then (fst e, tellp) # fst rest else fst rest, out_seq w (snd rest)))"

fun write_index :: "(bytes \<times> nat) list \<Rightarrow> out" where
  "write_index [] = ([], None)"
| "write_index (i # is) = out_seq (writeString (fst i)) (out_seq (writeUint64 (snd i)) (write_index is))"

definition render_table :: "(nat \<Rightarrow> nat) \<Rightarrow> entry list \<Rightarrow> out" where
  "render_table fp_bits entries =
     (let bloom = fold bloom_insert (map fst entries) (mk_bloom fp_bits (max (length entries) 1));
          (index, data) = write_entries True 0 0 entries;
          index_offset = length (fst data);
          head = out_seq data
                   (if length index > uint32_max then ([], Some IndexTooLong)
                    else out_seq (writeUint32 (length index)) (write_index index));
          bloom_offset = length (fst head)
      in out_seq head
           (out_seq (serializeBloom bloom)
              (out_seq (writeUint64 index_offset) (writeUint64 bloom_offset))))"

fun sorted_unique :: "entry list \<Rightarrow> bool" where
  "sorted_unique (e1 # e2 # es) = (fst e1 < fst e2 \<and> sorted_unique (e2 # es))"
| "sorted_unique es = True"

text \<open>The calls of \<open>SSTable::write\<close> that can fail, in order. \<open>landed\<close> is how much of the output
  reached the file when the stream fails, \<open>discard\<close> whether \<open>discardPartial\<close> can remove it.\<close>

datatype wr_point =
    WOpen | WFlush | WClose | WReopen | WFsync | WCloseFd | WRename | WDirOpen | WDirFsync | WDirClose

record write_io =
  wr_ok :: "wr_point \<Rightarrow> bool"
  landed :: nat
  discard :: bool

definition tmp_path :: "path \<Rightarrow> path" where
  "tmp_path path = path @ ''.tmp''"

definition discardPartial :: "write_io \<Rightarrow> path \<Rightarrow> fs_op list" where
  "discardPartial io tmp = (if discard io then [Remove tmp] else [])"

definition fsyncParentDir :: "write_io \<Rightarrow> path \<Rightarrow> fs_op list \<times> sst_error option" where
  "fsyncParentDir io path =
     (if \<not> wr_ok io WDirOpen then ([], Some DirOpenFailed)
      else if \<not> wr_ok io WDirFsync then ([], Some DirFsyncFailed)
      else if \<not> wr_ok io WDirClose then ([SyncDir path], Some DirCloseFailed)
      else ([SyncDir path], None))"

definition sst_write :: "(nat \<Rightarrow> nat) \<Rightarrow> write_io \<Rightarrow> path \<Rightarrow> entry list \<Rightarrow> fs_op list \<times> sst_error option" where
  "sst_write fp_bits io path entries =
     (if \<not> sorted_unique entries then ([], Some NotSorted)
      else
        (let tmp = tmp_path path; ok = wr_ok io in
         if \<not> ok WOpen then ([], Some CannotCreate)
         else
           (let (bs, err) = render_table fp_bits entries;
                create = (\<lambda>bs. Truncate tmp # map (AppendByte tmp) bs);
                fail = (\<lambda>ops e. (ops @ discardPartial io tmp, Some e)) in
            case err of
              Some e \<Rightarrow> (create bs, Some e)
            | None \<Rightarrow>
                if \<not> ok WFlush then fail (create (take (landed io) bs)) WriteFailed
                else if \<not> ok WClose then fail (create (take (landed io) bs)) CloseFailed
                else if \<not> ok WReopen then fail (create bs) ReopenFailed
                else if \<not> ok WFsync then fail (create bs) FsyncFailed
                else if \<not> ok WCloseFd then fail (create bs @ [Sync tmp]) CloseAfterFsyncFailed
                else if \<not> ok WRename then fail (create bs @ [Sync tmp]) PublishFailed
                else
                  (let (ops, derr) = fsyncParentDir io path
                   in (create bs @ [Sync tmp, Rename tmp path] @ ops, derr)))))"

section \<open>Closed form of a table file\<close>

definition string_bytes :: "bytes \<Rightarrow> bytes" where
  "string_bytes s = le_enc 4 (length s) @ s"

definition entry_bytes :: "entry \<Rightarrow> bytes" where
  "entry_bytes e = (case snd e of Some _ \<Rightarrow> 0 | None \<Rightarrow> 1) # string_bytes (fst e)
     @ string_bytes (case snd e of Some v \<Rightarrow> v | None \<Rightarrow> [])"

definition data_bytes :: "entry list \<Rightarrow> bytes" where
  "data_bytes es = concat (map entry_bytes es)"

definition index_bytes :: "(bytes \<times> nat) list \<Rightarrow> bytes" where
  "index_bytes is = concat (map (\<lambda>i. string_bytes (fst i) @ le_enc 8 (snd i)) is)"

definition bloom_bytes :: "bloom \<Rightarrow> bytes" where
  "bloom_bytes bf = le_enc 8 (num_hashes bf) @ le_enc 8 (num_blocks bf) @ serialize bf"

text \<open>The entries the length fields can hold.\<close>

definition entry_ok :: "entry \<Rightarrow> bool" where
  "entry_ok e \<longleftrightarrow> length (fst e) \<le> uint32_max \<and> (case snd e of Some v \<Rightarrow> length v \<le> uint32_max | None \<Rightarrow> True)"

text \<open>The blocks the loop forms: \<open>split_blocks cur\<close> gives the entries that still join the block being
  filled and the blocks after it.\<close>

fun split_blocks :: "nat \<Rightarrow> entry list \<Rightarrow> entry list \<times> entry list list" where
  "split_blocks cur [] = ([], [])"
| "split_blocks cur (e # es) =
     (if cur \<ge> target_block_size
      then (case split_blocks (entry_size e) es of (l, bs) \<Rightarrow> ([], (e # l) # bs))
      else (case split_blocks (cur + entry_size e) es of (l, bs) \<Rightarrow> (e # l, bs)))"

fun blocks_of :: "entry list \<Rightarrow> entry list list" where
  "blocks_of [] = []"
| "blocks_of (e # es) = (case split_blocks (entry_size e) es of (l, bs) \<Rightarrow> (e # l) # bs)"

fun index_from :: "nat \<Rightarrow> entry list list \<Rightarrow> (bytes \<times> nat) list" where
  "index_from off [] = []"
| "index_from off (b # bs) = (fst (hd b), off) # index_from (off + length (data_bytes b)) bs"

definition table_index :: "entry list \<Rightarrow> (bytes \<times> nat) list" where
  "table_index es = index_from 0 (blocks_of es)"

definition table_bloom :: "(nat \<Rightarrow> nat) \<Rightarrow> entry list \<Rightarrow> bloom" where
  "table_bloom fp_bits es = fold bloom_insert (map fst es) (mk_bloom fp_bits (max (length es) 1))"

definition table_bytes :: "(nat \<Rightarrow> nat) \<Rightarrow> entry list \<Rightarrow> bytes" where
  "table_bytes fp_bits es =
     (let data = data_bytes es; index = table_index es; ib = index_bytes index
      in data @ le_enc 4 (length index) @ ib @ bloom_bytes (table_bloom fp_bits es)
           @ le_enc 8 (length data) @ le_enc 8 (length data + (4 + length ib)))"

lemma length_string_bytes [simp]: "length (string_bytes s) = 4 + length s"
  by (simp add: string_bytes_def)

lemma length_entry_bytes: "length (entry_bytes e) = entry_size e"
  by (simp add: entry_bytes_def entry_size_def split: option.splits)

lemma data_bytes_simps [simp]:
  "data_bytes [] = []" "data_bytes (e # es) = entry_bytes e @ data_bytes es"
  "data_bytes (xs @ ys) = data_bytes xs @ data_bytes ys"
  by (simp_all add: data_bytes_def)

lemma index_bytes_simps [simp]:
  "index_bytes [] = []" "index_bytes (i # is) = string_bytes (fst i) @ le_enc 8 (snd i) @ index_bytes is"
  by (simp_all add: index_bytes_def)

lemma writeString_ok: "length s \<le> uint32_max \<Longrightarrow> writeString s = (string_bytes s, None)"
  by (simp add: writeString_def string_bytes_def)

lemma writeEntry_ok: "entry_ok e \<Longrightarrow> writeEntry e = (entry_bytes e, None)"
  by (auto simp: writeEntry_def entry_ok_def entry_bytes_def writeString_ok split: option.splits)

lemma write_entries_ok:
  assumes "\<forall>e \<in> set es. entry_ok e"
  shows "write_entries False cur off es =
           (case split_blocks cur es of
              (l, bs) \<Rightarrow> (index_from (off + length (data_bytes l)) bs, (data_bytes es, None)))"
  using assms
proof (induction es arbitrary: cur off)
  case (Cons e es)
  then show ?case
    by (auto simp: writeEntry_ok length_entry_bytes Let_def add.assoc split: prod.splits)
qed simp

lemma write_entries_first:
  assumes "\<forall>e \<in> set es. entry_ok e"
  shows "write_entries True cur 0 es = (table_index es, (data_bytes es, None))"
  using assms
  by (cases es)
     (auto simp: write_entries_ok writeEntry_ok length_entry_bytes Let_def table_index_def split: prod.splits)

lemma split_blocks_concat: "split_blocks cur es = (l, bs) \<Longrightarrow> l @ concat bs = es"
  by (induction es arbitrary: cur l bs) (auto split: if_split_asm prod.splits)

lemma split_blocks_nonempty: "split_blocks cur es = (l, bs) \<Longrightarrow> [] \<notin> set bs"
  by (induction es arbitrary: cur l bs) (auto split: if_split_asm prod.splits)

lemma concat_blocks_of: "concat (blocks_of es) = es"
  by (cases es) (auto dest: split_blocks_concat split: prod.splits)

lemma blocks_of_nonempty: "[] \<notin> set (blocks_of es)"
  by (cases es) (auto dest: split_blocks_nonempty [OF sym] split: prod.splits)

lemma blocks_of_eq_Nil [simp]: "blocks_of es = [] \<longleftrightarrow> es = []"
  by (cases es) (auto split: prod.splits)

lemma length_index_from [simp]: "length (index_from off bs) = length bs"
  by (induction bs arbitrary: off) auto

lemma length_blocks: "[] \<notin> set bs \<Longrightarrow> length bs \<le> length (concat bs)"
proof (induction bs)
  case (Cons b bs)
  then have "1 \<le> length b" by (cases b) auto
  with Cons show ?case by simp
qed simp

lemma length_table_index: "length (table_index es) \<le> length es"
  using length_blocks [OF blocks_of_nonempty, of es] by (simp add: table_index_def concat_blocks_of)

lemma index_from_keys: "[] \<notin> set bs \<Longrightarrow> fst ` set (index_from off bs) \<subseteq> fst ` set (concat bs)"
proof (induction bs arbitrary: off)
  case (Cons b bs)
  then have "fst (hd b) \<in> fst ` set b" by (cases b) auto
  with Cons show ?case by (auto simp: image_Un)
qed simp

lemma write_index_ok:
  "\<forall>i \<in> set is. length (fst i) \<le> uint32_max \<Longrightarrow> write_index is = (index_bytes is, None)"
  by (induction "is") (auto simp: writeString_ok writeUint64_def)

lemma render_table_ok:
  assumes ok: "\<forall>e \<in> set es. entry_ok e" and len: "length es \<le> uint32_max"
  shows "render_table fp_bits es = (table_bytes fp_bits es, None)"
proof -
  have "\<forall>i \<in> set (table_index es). length (fst i) \<le> uint32_max"
    using index_from_keys [OF blocks_of_nonempty, of 0 es] ok
    by (fastforce simp: table_index_def concat_blocks_of entry_ok_def)
  moreover have "length (table_index es) \<le> uint32_max"
    using length_table_index [of es] len by linarith
  ultimately show ?thesis
    using ok by (simp add: render_table_def write_entries_first write_index_ok writeUint32_def
        writeUint64_def serializeBloom_def table_bytes_def bloom_bytes_def table_bloom_def Let_def)
qed

section \<open>Publishing is atomic\<close>

lemma sorted_unique_iff: "sorted_unique es \<longleftrightarrow> ssorted es"
proof (induction es rule: sorted_unique.induct)
  case (1 e1 e2 es)
  then show ?case by (auto intro: less_trans)
qed auto

lemma tmp_path_neq [simp]: "tmp_path p \<noteq> p" "p \<noteq> tmp_path p"
  by (simp_all add: tmp_path_def)

lemma run_create:
  "run_ops (Truncate tmp # map (AppendByte tmp) bs) fs = fs(tmp \<mapsto> bs)"
  using run_appends [of "fs(tmp \<mapsto> [])" tmp "[]" bs] by simp

text \<open>Everything before the rename touches the temporary only, so a crash shows the old state of
  \<open>path\<close> or the complete new one.\<close>

lemma crash_before_or_after_rename:
  assumes only_tmp: "\<forall>x \<in> set A. op_paths x \<subseteq> {tmp}" and full: "run_ops A fs tmp = Some bs"
    and quiet: "\<forall>x \<in> set D. op_paths x = {}" and pre: "prefix pre (A @ Rename tmp path # D)"
    and neq: "tmp \<noteq> path"
  shows "run_ops pre fs path = fs path \<or> run_ops pre fs path = Some bs"
proof (cases "prefix pre A")
  case True
  then have "\<forall>x \<in> set pre. path \<notin> op_paths x"
    using only_tmp neq by (auto dest: set_mono_prefix)
  then show ?thesis by (simp add: run_ops_other)
next
  case False
  with pre obtain ys where "pre = A @ Rename tmp path # ys" "prefix ys D"
    by (auto simp: prefix_append prefix_Cons)
  moreover from this have "\<forall>x \<in> set ys. path \<notin> op_paths x"
    using quiet by (auto dest: set_mono_prefix)
  ultimately show ?thesis
    using full by (simp add: run_ops_other)
qed

lemma set_create: "x \<in> set (Truncate tmp # map (AppendByte tmp) bs) \<Longrightarrow> op_paths x = {tmp}"
  by auto

lemma fsyncParentDir_quiet: "x \<in> set (fst (fsyncParentDir io path)) \<Longrightarrow> op_paths x = {}"
  by (auto simp: fsyncParentDir_def split: if_split_asm)

text \<open>Every run of \<open>SSTable::write\<close> either never gets to the rename, or is the full sequence.\<close>

lemma sst_write_cases:
  assumes "sst_write fp_bits io path es = (ops, err)"
  obtains
    (unpublished) e where "err = Some e" "\<forall>x \<in> set ops. op_paths x \<subseteq> {tmp_path path}"
  | (published) bs where "render_table fp_bits es = (bs, None)" "ssorted es"
      "ops = (Truncate (tmp_path path) # map (AppendByte (tmp_path path)) bs @ [Sync (tmp_path path)])
               @ Rename (tmp_path path) path # fst (fsyncParentDir io path)"
      "err = snd (fsyncParentDir io path)"
proof (cases "sorted_unique es \<and> snd (render_table fp_bits es) = None \<and> (\<forall>w \<in> {WOpen, WFlush, WClose, WReopen, WFsync, WCloseFd, WRename}. wr_ok io w)")
  case True
  then show ?thesis
    using assms published [of "fst (render_table fp_bits es)"]
    by (cases "render_table fp_bits es")
       (auto simp: sst_write_def Let_def sorted_unique_iff split: prod.splits)
next
  case False
  have "(\<exists>e. err = Some e) \<and> (\<forall>x \<in> set ops. op_paths x \<subseteq> {tmp_path path})"
    using assms False
    by (auto simp: sst_write_def Let_def discardPartial_def split: prod.splits option.splits if_split_asm)
  then show ?thesis using unpublished by blast
qed

lemma sst_write_success_ops:
  assumes "sst_write fp_bits io path es = (ops, None)"
  shows "ssorted es" "\<exists>bs. render_table fp_bits es = (bs, None)
           \<and> run_ops ops fs = (fs(tmp_path path := None))(path \<mapsto> bs)"
proof -
  obtain bs where p: "render_table fp_bits es = (bs, None)" "ssorted es"
      "ops = (Truncate (tmp_path path) # map (AppendByte (tmp_path path)) bs @ [Sync (tmp_path path)])
               @ Rename (tmp_path path) path # fst (fsyncParentDir io path)"
    using assms by (rule sst_write_cases) auto
  have "run_ops (fst (fsyncParentDir io path)) f = f" for f
    by (simp add: fsyncParentDir_def)
  then have "run_ops ops fs = (fs(tmp_path path := None))(path \<mapsto> bs)"
    using run_create [of "tmp_path path" bs fs] by (simp add: p(3) fun_upd_twist)
  with p show "ssorted es" "\<exists>bs. render_table fp_bits es = (bs, None)
           \<and> run_ops ops fs = (fs(tmp_path path := None))(path \<mapsto> bs)"
    by auto
qed

lemma sst_write_crash:
  assumes "sst_write fp_bits io path es = (ops, err)" "fs' \<in> crash_states ops fs"
  shows "(fs' path = fs path \<or> (\<exists>bs. render_table fp_bits es = (bs, None) \<and> fs' path = Some bs))
         \<and> (\<forall>p. p \<noteq> path \<and> p \<noteq> tmp_path path \<longrightarrow> fs' p = fs p)"
proof -
  obtain pre where fs': "fs' = run_ops pre fs" and pre: "prefix pre ops"
    using assms(2) by (auto simp: crash_states_def)
  have sub: "set pre \<subseteq> set ops" using pre by (rule set_mono_prefix)
  show ?thesis
    using assms(1)
  proof (cases rule: sst_write_cases)
    case (unpublished e)
    then have "p \<noteq> tmp_path path \<Longrightarrow> fs' p = fs p" for p
      unfolding fs' using sub by (intro run_ops_other) auto
    then show ?thesis by simp
  next
    case (published bs)
    let ?A = "Truncate (tmp_path path) # map (AppendByte (tmp_path path)) bs @ [Sync (tmp_path path)]"
    have "\<forall>x \<in> set ops. op_paths x \<subseteq> {tmp_path path, path}"
      unfolding published(3) using fsyncParentDir_quiet by auto
    then have "p \<noteq> path \<Longrightarrow> p \<noteq> tmp_path path \<Longrightarrow> fs' p = fs p" for p
      unfolding fs' using sub by (intro run_ops_other) auto
    moreover have "fs' path = fs path \<or> fs' path = Some bs"
      unfolding fs'
    proof (rule crash_before_or_after_rename)
      show "run_ops ?A fs (tmp_path path) = Some bs"
        using run_create [of "tmp_path path" bs fs] by simp
      show "prefix pre (?A @ Rename (tmp_path path) path # fst (fsyncParentDir io path))"
        using pre published(3) by simp
    qed (use fsyncParentDir_quiet in auto)
    ultimately show ?thesis using published(1) by auto
  qed
qed

section \<open>Properties\<close>

text \<open>C19. Publishing a table is atomic: whichever call of \<open>SSTable::write\<close> fails and wherever a crash
  interrupts it, the table's name shows what it showed before or the complete table, and no file but
  the table and its temporary is touched.\<close>

theorem sst_write_atomic:
  assumes "sst_write fp_bits io path es = (ops, err)" "fs' \<in> crash_states ops fs"
  shows "(fs' path = fs path \<or> (\<exists>bs. render_table fp_bits es = (bs, None) \<and> fs' path = Some bs))
         \<and> (\<forall>p. p \<noteq> path \<and> p \<noteq> tmp_path path \<longrightarrow> fs' p = fs p)"
  by (rule sst_write_crash [OF assms])

text \<open>A call that returns normally has published exactly the file of the layout, given sorted
  entries whose keys and values fit the length fields, and left no temporary behind.\<close>

theorem sst_write_publishes:
  assumes "\<forall>e \<in> set es. entry_ok e" "length es \<le> uint32_max" "ssorted es" "\<forall>w. wr_ok io w"
  shows "\<exists>ops. sst_write fp_bits io path es = (ops, None)
           \<and> run_ops ops fs = (fs(tmp_path path := None))(path \<mapsto> table_bytes fp_bits es)"
proof -
  have r: "render_table fp_bits es = (table_bytes fp_bits es, None)"
    by (rule render_table_ok [OF assms(1,2)])
  obtain ops err where w: "sst_write fp_bits io path es = (ops, err)" by fastforce
  then have "err = None"
    using assms(3,4) by (auto simp: sst_write_def r sorted_unique_iff fsyncParentDir_def Let_def split: prod.splits)
  then show ?thesis using w r sst_write_success_ops(2) [of fp_bits io path es ops fs] by auto
qed

definition ex_entries :: "entry list" where
  "ex_entries = [([97], Some [49]), ([98], None), ([99, 100], Some [])]"

definition ex_io :: write_io where
  "ex_io = \<lparr>wr_ok = (\<lambda>_. True), landed = 0, discard = True\<rparr>"

lemma ex_entries_ok: "\<forall>e \<in> set ex_entries. entry_ok e" "length ex_entries \<le> uint32_max" "ssorted ex_entries"
  by (simp_all add: ex_entries_def entry_ok_def)

theorem sst_write_atomic_witness:
  "\<exists>ops err fs'. sst_write (\<lambda>n. 10 * n) (ex_io\<lparr>wr_ok := \<lambda>w. w \<noteq> WDirFsync\<rparr>) ''t.sst'' ex_entries = (ops, err)
     \<and> fs' \<in> crash_states ops Map.empty
     \<and> (fs' ''t.sst'' = None \<or> (\<exists>bs. render_table (\<lambda>n. 10 * n) ex_entries = (bs, None) \<and> fs' ''t.sst'' = Some bs))"
proof -
  obtain ops err where w: "sst_write (\<lambda>n. 10 * n) (ex_io\<lparr>wr_ok := \<lambda>w. w \<noteq> WDirFsync\<rparr>) ''t.sst'' ex_entries = (ops, err)"
    by fastforce
  have c: "run_ops ops Map.empty \<in> crash_states ops Map.empty"
    by (auto simp: crash_states_def)
  show ?thesis
    using sst_write_atomic [OF w c] w c by blast
qed

theorem sst_write_publishes_witness:
  "\<exists>ops. sst_write (\<lambda>n. 10 * n) ex_io ''t.sst'' ex_entries = (ops, None)
     \<and> run_ops ops Map.empty = (Map.empty(tmp_path ''t.sst'' := None))(''t.sst'' \<mapsto> table_bytes (\<lambda>n. 10 * n) ex_entries)"
  by (rule sst_write_publishes) (simp_all add: ex_entries_ok ex_io_def)

end
