(* ===== verification/BlockCache.thy ===== *)
theory BlockCache
  imports FileSystem "HOL-Library.AList"
begin

text \<open>
  The LRU block cache of src/sstable/lru_block_cache.h: a list of nodes, most recently used first,
  and a hash map from the key (path, block offset) to a list iterator. A list iterator is a stable
  handle on a node, so nodes carry an identity and the map stores identities; the hash map's own
  order is not observable, so it is an association list.

  The size the cache charges for a block depends on object sizes and on vector and string
  capacities, which the C++ library chooses: they are arguments of \<open>calculateBlockBytes\<close>, and the
  operations take the resulting charge as the function \<open>sz\<close>.

  The lemmas show that list and map always describe the same nodes, that the byte count is the
  sum over the nodes (so the unsigned subtractions never wrap), that no operation leaves the cache over
  either limit, and that the cache only ever answers with what was last stored.
\<close>

type_synonym cache_key = "path \<times> nat"

record cache_node =
  cn_id :: nat
  cn_key :: cache_key
  cn_value :: "entry list"
  cn_bytes :: nat

record block_cache =
  bc_capacity :: nat
  bc_max_bytes :: nat
  bc_current :: nat
  bc_list :: "cache_node list"
  bc_map :: "(cache_key \<times> nat) list"
  bc_next :: nat

definition mk_cache :: "nat \<Rightarrow> nat \<Rightarrow> block_cache" where
  "mk_cache capacity_blocks max_bytes =
     \<lparr>bc_capacity = capacity_blocks, bc_max_bytes = max_bytes, bc_current = 0, bc_list = [],
      bc_map = [], bc_next = 0\<rparr>"

definition globalInstance :: block_cache where
  "globalInstance = mk_cache 1024 (4 * 1024 * 1024)"

definition calculateBlockBytes ::
    "nat \<Rightarrow> nat \<Rightarrow> (entry list \<Rightarrow> nat) \<Rightarrow> (bytes \<Rightarrow> nat) \<Rightarrow> entry list \<Rightarrow> nat" where
  "calculateBlockBytes sizeof_vector sizeof_entry vec_capacity str_capacity entries =
     fold (\<lambda>e bytes. bytes + str_capacity (fst e)
             + (case snd e of Some v \<Rightarrow> str_capacity v | None \<Rightarrow> 0))
       entries (sizeof_vector + vec_capacity entries * sizeof_entry)"

text \<open>\<open>lru_list_.splice(begin, lru_list_, it)\<close>.\<close>

definition splice_front :: "nat \<Rightarrow> cache_node list \<Rightarrow> cache_node list" where
  "splice_front i ns =
     (case find (\<lambda>n. cn_id n = i) ns of
        None \<Rightarrow> ns
      | Some n \<Rightarrow> n # filter (\<lambda>n. cn_id n \<noteq> i) ns)"

definition cache_get :: "path \<Rightarrow> nat \<Rightarrow> block_cache \<Rightarrow> entry list option \<times> block_cache" where
  "cache_get path block_offset c =
     (case map_of (bc_map c) (path, block_offset) of
        None \<Rightarrow> (None, c)
      | Some i \<Rightarrow>
          (let c = c\<lparr>bc_list := splice_front i (bc_list c)\<rparr>
           in (map_option cn_value (find (\<lambda>n. cn_id n = i) (bc_list c)), c)))"

function evictIfNeeded :: "block_cache \<Rightarrow> block_cache" where
  "evictIfNeeded c =
     (if bc_list c \<noteq> [] \<and> (length (bc_map c) > bc_capacity c \<or> bc_current c > bc_max_bytes c)
      then
        (let l = last (bc_list c)
         in evictIfNeeded (c\<lparr>bc_current := bc_current c - cn_bytes l,
                             bc_map := AList.delete (cn_key l) (bc_map c),
                             bc_list := butlast (bc_list c)\<rparr>))
      else c)"
  by pat_completeness auto
termination
  by (relation "measure (\<lambda>c. length (bc_list c))") auto

declare evictIfNeeded.simps [simp del]

definition cache_put :: "(entry list \<Rightarrow> nat) \<Rightarrow> path \<Rightarrow> nat \<Rightarrow> entry list \<Rightarrow> block_cache \<Rightarrow> block_cache" where
  "cache_put sz path block_offset entries c =
     (let key = (path, block_offset); new_bytes = sz entries in
      case map_of (bc_map c) key of
        Some i \<Rightarrow>
          (let old = (case find (\<lambda>n. cn_id n = i) (bc_list c) of Some n \<Rightarrow> cn_bytes n | None \<Rightarrow> 0);
               nodes = map (\<lambda>n. if cn_id n = i then n\<lparr>cn_value := entries, cn_bytes := new_bytes\<rparr> else n)
                         (bc_list c)
           in evictIfNeeded (c\<lparr>bc_current := bc_current c - old + new_bytes,
                               bc_list := splice_front i nodes\<rparr>))
      | None \<Rightarrow>
          (let n = \<lparr>cn_id = bc_next c, cn_key = key, cn_value = entries, cn_bytes = new_bytes\<rparr>
           in evictIfNeeded (c\<lparr>bc_list := n # bc_list c,
                               bc_map := AList.update key (bc_next c) (bc_map c),
                               bc_current := bc_current c + new_bytes,
                               bc_next := Suc (bc_next c)\<rparr>)))"

fun invalidate_loop :: "path \<Rightarrow> cache_node list \<Rightarrow> nat \<Rightarrow> (cache_key \<times> nat) list
    \<Rightarrow> cache_node list \<times> nat \<times> (cache_key \<times> nat) list" where
  "invalidate_loop path [] cur m = ([], cur, m)"
| "invalidate_loop path (n # ns) cur m =
     (if fst (cn_key n) = path
      then invalidate_loop path ns (cur - cn_bytes n) (AList.delete (cn_key n) m)
      else (case invalidate_loop path ns cur m of (ns, cur, m) \<Rightarrow> (n # ns, cur, m)))"

definition invalidatePath :: "path \<Rightarrow> block_cache \<Rightarrow> block_cache" where
  "invalidatePath path c =
     (case invalidate_loop path (bc_list c) (bc_current c) (bc_map c) of
        (ns, cur, m) \<Rightarrow> c\<lparr>bc_current := cur, bc_map := m, bc_list := ns\<rparr>)"

definition cache_clear :: "block_cache \<Rightarrow> block_cache" where
  "cache_clear c = c\<lparr>bc_map := [], bc_list := [], bc_current := 0\<rparr>"

definition currentBytes :: "block_cache \<Rightarrow> nat" where
  "currentBytes c = bc_current c"

section \<open>Invariant\<close>

definition node_refs :: "cache_node list \<Rightarrow> (cache_key \<times> nat) set" where
  "node_refs ns = (\<lambda>n. (cn_key n, cn_id n)) ` set ns"

definition total_bytes :: "cache_node list \<Rightarrow> nat" where
  "total_bytes ns = sum_list (map cn_bytes ns)"

definition cache_ok :: "block_cache \<Rightarrow> bool" where
  "cache_ok c \<longleftrightarrow> distinct (map cn_key (bc_list c)) \<and> distinct (map cn_id (bc_list c))
     \<and> distinct (map fst (bc_map c)) \<and> set (bc_map c) = node_refs (bc_list c)
     \<and> bc_current c = total_bytes (bc_list c) \<and> (\<forall>n \<in> set (bc_list c). cn_id n < bc_next c)"

text \<open>What the cache currently answers for a key.\<close>

definition cache_view :: "block_cache \<Rightarrow> cache_key \<rightharpoonup> entry list" where
  "cache_view c = map_of (map (\<lambda>n. (cn_key n, cn_value n)) (bc_list c))"

lemma cache_ok_mk [simp]: "cache_ok (mk_cache cap mx)"
  by (simp add: cache_ok_def mk_cache_def node_refs_def total_bytes_def)

lemma cache_view_mk [simp]: "cache_view (mk_cache cap mx) = Map.empty"
  by (simp add: cache_view_def mk_cache_def)

lemma map_length:
  assumes "cache_ok c"
  shows "length (bc_map c) = length (bc_list c)"
proof -
  have "length (bc_map c) = card (set (bc_map c))"
    using assms by (intro distinct_card [symmetric]) (auto simp: cache_ok_def distinct_map)
  also have "\<dots> = card (set (map (\<lambda>n. (cn_key n, cn_id n)) (bc_list c)))"
    using assms by (simp add: cache_ok_def node_refs_def)
  also have "\<dots> = length (map (\<lambda>n. (cn_key n, cn_id n)) (bc_list c))"
    using assms by (intro distinct_card) (auto simp: cache_ok_def distinct_map inj_on_def)
  finally show ?thesis by simp
qed

lemma map_of_node:
  assumes "cache_ok c"
  shows "map_of (bc_map c) k = Some i \<longleftrightarrow> (\<exists>n \<in> set (bc_list c). cn_key n = k \<and> cn_id n = i)"
  using assms by (auto simp: cache_ok_def node_refs_def)

lemma find_id:
  "distinct (map cn_id ns) \<Longrightarrow> n \<in> set ns \<Longrightarrow> find (\<lambda>m. cn_id m = cn_id n) ns = Some n"
  by (induction ns) (auto simp: image_iff)

lemma view_iff:
  assumes "cache_ok c"
  shows "cache_view c k = Some v \<longleftrightarrow> (\<exists>n \<in> set (bc_list c). cn_key n = k \<and> cn_value n = v)"
proof -
  have "distinct (map fst (map (\<lambda>n. (cn_key n, cn_value n)) (bc_list c)))"
    using assms by (simp add: cache_ok_def comp_def)
  then show ?thesis
    unfolding cache_view_def by (subst map_of_eq_Some_iff) auto
qed

text \<open>Two caches with the same nodes, in whatever order, give the same answers.\<close>

lemma view_eqI:
  assumes "cache_ok c" "cache_ok d"
    and "\<And>n. n \<in> set (bc_list c) \<longleftrightarrow> n \<in> set (bc_list d)"
  shows "cache_view c = cache_view d"
proof
  fix k
  show "cache_view c k = cache_view d k"
    using assms view_iff [OF assms(1), of k] view_iff [OF assms(2), of k]
    by (cases "cache_view c k"; cases "cache_view d k") (auto, metis+)
qed

lemma delete_set: "set (AList.delete k m) = {p \<in> set m. fst p \<noteq> k}"
  by (auto simp: AList.delete_eq)

text \<open>Unlinking one node and its map entry, the step shared by eviction and invalidation.\<close>

lemma cache_ok_unlink:
  assumes "cache_ok c" "bc_list c = xs @ l # ys"
  shows "cache_ok (c\<lparr>bc_current := bc_current c - cn_bytes l,
                     bc_map := AList.delete (cn_key l) (bc_map c), bc_list := xs @ ys\<rparr>)"
  using assms unfolding cache_ok_def node_refs_def total_bytes_def
  by (auto simp: delete_set AList.distinct_delete image_iff)

text \<open>Eviction keeps the most recently used nodes: the longest prefix of the list within both limits.\<close>

definition fits :: "block_cache \<Rightarrow> nat \<Rightarrow> bool" where
  "fits c k \<longleftrightarrow> k \<le> bc_capacity c \<and> total_bytes (take k (bc_list c)) \<le> bc_max_bytes c"

lemma evict_spec:
  assumes "cache_ok c"
  shows "cache_ok (evictIfNeeded c) \<and> (\<exists>k \<le> length (bc_list c). bc_list (evictIfNeeded c) = take k (bc_list c)
           \<and> fits c k \<and> (\<forall>j \<le> length (bc_list c). fits c j \<longrightarrow> j \<le> k))
         \<and> bc_capacity (evictIfNeeded c) = bc_capacity c \<and> bc_max_bytes (evictIfNeeded c) = bc_max_bytes c
         \<and> bc_next (evictIfNeeded c) = bc_next c"
  using assms
proof (induction c rule: evictIfNeeded.induct)
  case (1 c)
  show ?case
  proof (cases "bc_list c \<noteq> [] \<and> (length (bc_map c) > bc_capacity c \<or> bc_current c > bc_max_bytes c)")
    case False
    then have "fits c (length (bc_list c))"
      using 1(2) map_length [OF 1(2)] by (auto simp: fits_def cache_ok_def total_bytes_def)
    moreover have "evictIfNeeded c = c"
      using False by (subst evictIfNeeded.simps) (simp only: if_False)
    ultimately show ?thesis using 1(2) by auto
  next
    case True
    define l where "l = last (bc_list c)"
    define c' where "c' = c\<lparr>bc_current := bc_current c - cn_bytes l,
                             bc_map := AList.delete (cn_key l) (bc_map c), bc_list := butlast (bc_list c)\<rparr>"
    have split: "bc_list c = butlast (bc_list c) @ l # []" using True by (simp add: l_def)
    have ok: "cache_ok c'" using cache_ok_unlink [OF 1(2) split] by (simp add: c'_def)
    have ev: "evictIfNeeded c = evictIfNeeded c'"
      using True by (subst evictIfNeeded.simps) (simp add: c'_def l_def Let_def)
    note IH = 1(1) [OF True l_def, folded c'_def, OF ok]
    note rest = IH [THEN conjunct1] IH [THEN conjunct2, THEN conjunct2]
    from IH [THEN conjunct2, THEN conjunct1]
    obtain k where k: "k \<le> length (bc_list c')" "bc_list (evictIfNeeded c') = take k (bc_list c')" "fits c' k"
        and mx: "\<And>j. j \<le> length (bc_list c') \<Longrightarrow> fits c' j \<Longrightarrow> j \<le> k"
      by auto
    have len: "length (bc_list c) = Suc (length (bc_list c'))"
      using True by (cases "bc_list c") (auto simp: c'_def)
    have tk: "take j (bc_list c') = take j (bc_list c)" if "j \<le> length (bc_list c')" for j
    proof -
      have "j < length (bc_list c)" using that len by linarith
      then show ?thesis by (simp add: c'_def take_butlast)
    qed
    have ft: "fits c' j \<longleftrightarrow> fits c j" if "j \<le> length (bc_list c')" for j
      using tk [OF that] by (simp add: fits_def) (simp add: c'_def)
    have "\<not> fits c (length (bc_list c))"
      using True 1(2) map_length [OF 1(2)] by (auto simp: fits_def cache_ok_def total_bytes_def)
    then have mx': "\<forall>j \<le> length (bc_list c). fits c j \<longrightarrow> j \<le> k"
      using mx ft len by (auto simp: le_Suc_eq)
    have "k \<le> length (bc_list c)" "bc_list (evictIfNeeded c) = take k (bc_list c)" "fits c k"
      using k ev tk ft len by auto
    then have "\<exists>k \<le> length (bc_list c). bc_list (evictIfNeeded c) = take k (bc_list c)
           \<and> fits c k \<and> (\<forall>j \<le> length (bc_list c). fits c j \<longrightarrow> j \<le> k)"
      using mx' by blast
    moreover have "bc_capacity c' = bc_capacity c" "bc_max_bytes c' = bc_max_bytes c" "bc_next c' = bc_next c"
      by (simp_all add: c'_def)
    ultimately show ?thesis using rest unfolding ev by simp
  qed
qed

section \<open>Operations\<close>

lemma splice_front_split:
  assumes "distinct (map cn_id ns)" "n \<in> set ns"
  obtains xs ys where "ns = xs @ n # ys" "splice_front (cn_id n) ns = n # xs @ ys"
proof -
  from assms(2) obtain xs ys where ns: "ns = xs @ n # ys" by (auto dest: split_list)
  with assms(1) have "filter (\<lambda>m. cn_id m \<noteq> cn_id n) ns = xs @ ys"
    by (auto simp: image_iff intro!: arg_cong2 [of _ _ _ _ "(@)"] filter_True)
  with ns that show ?thesis
    using find_id [OF assms] by (simp add: splice_front_def)
qed

lemma cache_ok_to_front:
  "cache_ok c \<Longrightarrow> bc_list c = xs @ n # ys \<Longrightarrow> cache_ok (c\<lparr>bc_list := n # xs @ ys\<rparr>)"
  unfolding cache_ok_def node_refs_def total_bytes_def by auto

lemma cache_get_spec:
  assumes "cache_ok c"
  shows "fst (cache_get p off c) = cache_view c (p, off)" (is ?hit)
    and "cache_ok (snd (cache_get p off c))" (is ?ok)
    and "cache_view (snd (cache_get p off c)) = cache_view c" (is ?same)
proof -
  have "?hit \<and> ?ok \<and> ?same"
  proof (cases "map_of (bc_map c) (p, off)")
    case None
    then have "(p, off) \<notin> cn_key ` set (bc_list c)"
      using map_of_node [OF assms, of "(p, off)"] by (metis image_iff option.distinct(1))
    then have "cache_view c (p, off) = None"
      by (simp add: cache_view_def map_of_eq_None_iff image_image)
    with None assms show ?thesis by (simp add: cache_get_def)
  next
    case (Some i)
    then obtain n where n: "n \<in> set (bc_list c)" "cn_key n = (p, off)" "cn_id n = i"
      using map_of_node [OF assms] by auto
    have d: "distinct (map cn_id (bc_list c))" using assms by (simp add: cache_ok_def)
    obtain xs ys where xy: "bc_list c = xs @ n # ys" "splice_front i (bc_list c) = n # xs @ ys"
      using splice_front_split [OF d n(1)] n(3) by auto
    have ok: "cache_ok (c\<lparr>bc_list := n # xs @ ys\<rparr>)"
      using cache_ok_to_front [OF assms xy(1)] .
    have "cache_view (c\<lparr>bc_list := n # xs @ ys\<rparr>) = cache_view c"
      using view_eqI [OF ok assms] xy(1) by auto
    moreover have "cache_view c (p, off) = Some (cn_value n)"
      using view_iff [OF assms] n by auto
    ultimately show ?thesis
      using Some xy n(3) ok by (simp add: cache_get_def)
  qed
  then show ?hit ?ok ?same by auto
qed

lemma update_new: "map_of m k = None \<Longrightarrow> AList.update k v m = m @ [(k, v)]"
  by (induction m) (auto split: if_split_asm)

text \<open>What \<open>put\<close> has done before it evicts: the block stands first and is what the cache answers.\<close>

lemma cache_put_stores:
  assumes "cache_ok c"
  obtains d where "cache_put sz p off entries c = evictIfNeeded d" "cache_ok d"
    "cache_view d = (cache_view c)((p, off) \<mapsto> entries)"
    "bc_capacity d = bc_capacity c" "bc_max_bytes d = bc_max_bytes c"
    "\<exists>n ns. bc_list d = n # ns \<and> cn_key n = (p, off) \<and> cn_bytes n = sz entries
       \<and> (\<exists>m. ns = filter (\<lambda>n. cn_id n \<noteq> m) (bc_list c))"
proof (cases "map_of (bc_map c) (p, off)")
  case None
  define d where "d = c\<lparr>bc_list := \<lparr>cn_id = bc_next c, cn_key = (p, off), cn_value = entries, cn_bytes = sz entries\<rparr> # bc_list c,
       bc_map := AList.update (p, off) (bc_next c) (bc_map c),
       bc_current := bc_current c + sz entries, bc_next := Suc (bc_next c)\<rparr>"
  have new: "(p, off) \<notin> cn_key ` set (bc_list c)"
    using None map_of_node [OF assms, of "(p, off)"] by (metis image_iff option.distinct(1))
  have "set (AList.update (p, off) (bc_next c) (bc_map c)) = insert ((p, off), bc_next c) (set (bc_map c))"
    using None by (simp add: update_new)
  then have "cache_ok d"
    using assms new unfolding cache_ok_def d_def node_refs_def total_bytes_def
    by (auto simp: distinct_update image_iff)
  moreover have "cache_view d = (cache_view c)((p, off) \<mapsto> entries)"
    by (simp add: cache_view_def d_def)
  moreover have "bc_list c = filter (\<lambda>n. cn_id n \<noteq> bc_next c) (bc_list c)"
    using assms by (auto simp: cache_ok_def intro!: filter_True [symmetric])
  ultimately show ?thesis
    using None that [of d] by (auto simp: cache_put_def d_def Let_def)
next
  case (Some i)
  then obtain n where n: "n \<in> set (bc_list c)" "cn_key n = (p, off)" "cn_id n = i"
    using map_of_node [OF assms] by auto
  have dist: "distinct (map cn_id (bc_list c))" using assms by (simp add: cache_ok_def)
  from n(1) obtain xs ys where xy: "bc_list c = xs @ n # ys" by (auto dest: split_list)
  have others: "\<forall>m \<in> set xs \<union> set ys. cn_id m \<noteq> i" using dist xy n(3) by (auto simp: image_iff)
  define n' where "n' = n\<lparr>cn_value := entries, cn_bytes := sz entries\<rparr>"
  have nodes: "map (\<lambda>n. if cn_id n = i then n\<lparr>cn_value := entries, cn_bytes := sz entries\<rparr> else n) (bc_list c)
      = xs @ n' # ys"
    using xy others n(3) by (auto simp: n'_def map_idI)
  have sp: "splice_front i (xs @ n' # ys) = n' # xs @ ys"
  proof -
    have "find (\<lambda>m. cn_id m = i) (xs @ n' # ys) = Some n'"
      using others n(3) by (induction xs) (auto simp: n'_def)
    then show ?thesis
      using others n(3) by (simp add: splice_front_def n'_def filter_id_conv [THEN iffD2])
  qed
  define d where "d = c\<lparr>bc_current := bc_current c - cn_bytes n + sz entries, bc_list := n' # xs @ ys\<rparr>"
  have put: "cache_put sz p off entries c = evictIfNeeded d"
    using Some find_id [OF dist n(1)] n(3) by (simp add: cache_put_def nodes sp d_def)
  have ok: "cache_ok d"
    using assms xy n unfolding cache_ok_def d_def node_refs_def total_bytes_def n'_def by auto
  have "cache_view d = (cache_view c)((p, off) \<mapsto> entries)"
  proof
    fix k
    show "cache_view d k = ((cache_view c)((p, off) \<mapsto> entries)) k"
      using xy n by (simp add: cache_view_def d_def n'_def map_add_def split: option.splits)
  qed
  moreover have "xs @ ys = filter (\<lambda>n. cn_id n \<noteq> i) (bc_list c)"
    using xy others n(3) by (simp add: filter_id_conv [THEN iffD2])
  ultimately show ?thesis
    using put ok n that [of d] by (auto simp: d_def n'_def)
qed

lemma view_take:
  assumes "cache_ok c" "cache_ok d" "bc_list d = take k (bc_list c)"
  shows "cache_view d \<subseteq>\<^sub>m cache_view c"
proof -
  have "cache_view c x = Some y" if "cache_view d x = Some y" for x y
    using that assms by (auto simp: view_iff dest: in_set_takeD)
  then show ?thesis by (auto simp: map_le_def dom_def)
qed

lemma cache_put_spec:
  assumes "cache_ok c" and c'_def: "c' = cache_put sz p off entries c"
  shows "cache_ok c'" "cache_view c' \<subseteq>\<^sub>m (cache_view c)((p, off) \<mapsto> entries)"
    and "length (bc_list c') \<le> bc_capacity c" "bc_current c' \<le> bc_max_bytes c"
    and "1 \<le> bc_capacity c \<Longrightarrow> sz entries \<le> bc_max_bytes c \<Longrightarrow> cache_view c' (p, off) = Some entries"
    and "bc_capacity c' = bc_capacity c" "bc_max_bytes c' = bc_max_bytes c"
proof -
  obtain d n ns where d: "c' = evictIfNeeded d" "cache_ok d"
      "cache_view d = (cache_view c)((p, off) \<mapsto> entries)"
      "bc_capacity d = bc_capacity c" "bc_max_bytes d = bc_max_bytes c"
      and n: "bc_list d = n # ns" "cn_key n = (p, off)" "cn_bytes n = sz entries"
    using cache_put_stores [OF assms(1), of sz p off entries] unfolding c'_def by (metis (no_types, lifting))
  note ev = evict_spec [OF d(2), folded d(1)]
  then obtain k where k: "k \<le> length (bc_list d)" "bc_list c' = take k (bc_list d)" "fits d k"
      "\<And>j. j \<le> length (bc_list d) \<Longrightarrow> fits d j \<Longrightarrow> j \<le> k"
    by auto
  show ok: "cache_ok c'" and "bc_capacity c' = bc_capacity c" "bc_max_bytes c' = bc_max_bytes c"
    using ev d by auto
  show "cache_view c' \<subseteq>\<^sub>m (cache_view c)((p, off) \<mapsto> entries)"
    using view_take [OF d(2) ok k(2)] d(3) by simp
  show "length (bc_list c') \<le> bc_capacity c" "bc_current c' \<le> bc_max_bytes c"
    using k d ok by (auto simp: fits_def cache_ok_def)
  assume "1 \<le> bc_capacity c" "sz entries \<le> bc_max_bytes c"
  then have "1 \<le> k" using k(4) [of 1] n d by (simp add: fits_def total_bytes_def)
  then have "n \<in> set (bc_list c')" using k(2) n(1) by (cases k) auto
  then have "cache_view c' (p, off) \<noteq> None"
    using n(2) by (auto simp: cache_view_def map_of_eq_None_iff image_image image_iff) metis
  then show "cache_view c' (p, off) = Some entries"
    using view_take [OF d(2) ok k(2)] d(3) by (force simp: map_le_def dom_def)
qed

lemma invalidate_loop_spec:
  assumes "cache_ok (c\<lparr>bc_current := cur, bc_map := m, bc_list := pre @ ns\<rparr>)"
    and "invalidate_loop p ns cur m = (ns', cur', m')"
  shows "ns' = filter (\<lambda>n. fst (cn_key n) \<noteq> p) ns
     \<and> cache_ok (c\<lparr>bc_current := cur', bc_map := m', bc_list := pre @ ns'\<rparr>)"
  using assms
proof (induction p ns cur m arbitrary: pre ns' cur' m' rule: invalidate_loop.induct)
  case (2 p n ns cur m)
  show ?case
  proof (cases "fst (cn_key n) = p")
    case True
    have "cache_ok (c\<lparr>bc_current := cur - cn_bytes n, bc_map := AList.delete (cn_key n) m, bc_list := pre @ ns\<rparr>)"
      using cache_ok_unlink [OF 2(3), of pre n ns] by simp
    with 2(1) [OF True, of pre ns' cur' m'] 2(4) True show ?thesis by auto
  next
    case False
    then obtain ns1 where "invalidate_loop p ns cur m = (ns1, cur', m')" "ns' = n # ns1"
      using 2(4) by (auto split: prod.splits)
    with 2(2) [OF False, of "pre @ [n]"] 2(3) False show ?thesis by auto
  qed
qed simp

lemma invalidatePath_spec:
  assumes "cache_ok c"
  shows "cache_ok (invalidatePath p c)"
    and "cache_view (invalidatePath p c) = (\<lambda>k. if fst k = p then None else cache_view c k)"
proof -
  obtain ns cur m where l: "invalidate_loop p (bc_list c) (bc_current c) (bc_map c) = (ns, cur, m)"
    by (cases "invalidate_loop p (bc_list c) (bc_current c) (bc_map c)") auto
  have "cache_ok (c\<lparr>bc_current := bc_current c, bc_map := bc_map c, bc_list := [] @ bc_list c\<rparr>)"
    using assms by simp
  note sp = invalidate_loop_spec [OF this l]
  have okc: "cache_ok (c\<lparr>bc_current := cur, bc_map := m, bc_list := ns\<rparr>)"
    using sp [THEN conjunct2] by simp
  show ok: "cache_ok (invalidatePath p c)"
    using okc by (simp add: invalidatePath_def l)
  have "bc_list (invalidatePath p c) = filter (\<lambda>n. fst (cn_key n) \<noteq> p) (bc_list c)"
    using sp assms by (simp add: invalidatePath_def l)
  then have mem: "set (bc_list (invalidatePath p c)) = {n \<in> set (bc_list c). fst (cn_key n) \<noteq> p}"
    by simp
  show "cache_view (invalidatePath p c) = (\<lambda>k. if fst k = p then None else cache_view c k)"
  proof (rule map_Some_ext)
    fix k v
    show "cache_view (invalidatePath p c) k = Some v \<longleftrightarrow> (if fst k = p then None else cache_view c k) = Some v"
      unfolding view_iff [OF ok] mem by (cases "fst k = p") (auto simp: view_iff [OF assms])
  qed
qed

lemma cache_clear_spec [simp]: "cache_ok (cache_clear c)" "cache_view (cache_clear c) = Map.empty"
  by (simp_all add: cache_clear_def cache_ok_def node_refs_def total_bytes_def cache_view_def)

section \<open>The contract of a read cache\<close>

text \<open>What a reader of blocks relies on: a hit returns what the cache holds for the key, and storing a
  block adds no other answer. A cache is coherent with a source of blocks when every answer is the
  source's, and reading through the cache then agrees with reading the source.\<close>

locale read_cache =
  fixes ok :: "'c \<Rightarrow> bool" and view :: "'c \<Rightarrow> path \<times> nat \<rightharpoonup> entry list"
    and get :: "path \<Rightarrow> nat \<Rightarrow> 'c \<Rightarrow> entry list option \<times> 'c"
    and put :: "path \<Rightarrow> nat \<Rightarrow> entry list \<Rightarrow> 'c \<Rightarrow> 'c"
    and forget :: "path \<Rightarrow> 'c \<Rightarrow> 'c"
  assumes get_hit: "ok c \<Longrightarrow> fst (get p off c) = view c (p, off)"
    and get_ok: "ok c \<Longrightarrow> ok (snd (get p off c))"
    and get_view: "ok c \<Longrightarrow> view (snd (get p off c)) = view c"
    and put_ok: "ok c \<Longrightarrow> ok (put p off es c)"
    and put_view: "ok c \<Longrightarrow> view (put p off es c) \<subseteq>\<^sub>m (view c)((p, off) \<mapsto> es)"
    and forget_ok: "ok c \<Longrightarrow> ok (forget p c)"
    and forget_view: "ok c \<Longrightarrow> view (forget p c) k = (if fst k = p then None else view c k)"
begin

definition coherent :: "(path \<times> nat \<rightharpoonup> entry list) \<Rightarrow> 'c \<Rightarrow> bool" where
  "coherent src c \<longleftrightarrow> ok c \<and> view c \<subseteq>\<^sub>m src"

lemma coherent_hit: "coherent src c \<Longrightarrow> fst (get p off c) = Some es \<Longrightarrow> src (p, off) = Some es"
  by (auto simp: coherent_def get_hit map_le_def dom_def)

lemma coherent_get: "coherent src c \<Longrightarrow> coherent src (snd (get p off c))"
  by (simp add: coherent_def get_ok get_view)

lemma coherent_put:
  assumes "coherent src c" "src (p, off) = Some es"
  shows "coherent src (put p off es c)"
proof -
  have "(view c)((p, off) \<mapsto> es) \<subseteq>\<^sub>m src"
    using assms by (auto simp: coherent_def map_le_def)
  then show ?thesis
    using assms by (auto simp: coherent_def put_ok intro: map_le_trans [OF put_view])
qed

text \<open>After \<open>forget p\<close> the file \<open>p\<close> may change.\<close>

lemma coherent_forget:
  assumes "coherent src c" "\<And>k. fst k \<noteq> p \<Longrightarrow> src' k = src k"
  shows "coherent src' (forget p c)"
  using assms by (auto simp: coherent_def forget_ok map_le_def dom_def forget_view)

end

interpretation lru: read_cache cache_ok cache_view cache_get "cache_put sz" invalidatePath for sz
proof (unfold_locales, goal_cases)
  case 4
  then show ?case by (rule cache_put_spec [OF _ refl])
next
  case 5
  then show ?case by (rule cache_put_spec [OF _ refl])
qed (simp_all only: cache_get_spec invalidatePath_spec)

abbreviation cache_coherent :: "(path \<times> nat \<rightharpoonup> entry list) \<Rightarrow> block_cache \<Rightarrow> bool" where
  "cache_coherent \<equiv> lru.coherent"

section \<open>Properties\<close>

text \<open>C26. From any well-formed cache, \<open>put\<close> leaves a well-formed cache within both limits (at most
  \<open>capacity_\<close> blocks, at most \<open>max_bytes_\<close> bytes), which answers with nothing but the block
  just stored and blocks that were there before; a block that fits at all is found by the next \<open>get\<close>.\<close>

theorem cache_put_bounded:
  assumes "cache_ok c"
  shows "cache_ok (cache_put sz p off es c)
    \<and> length (bc_list (cache_put sz p off es c)) \<le> bc_capacity c
    \<and> currentBytes (cache_put sz p off es c) \<le> bc_max_bytes c
    \<and> (\<forall>q o'. fst (cache_get q o' (cache_put sz p off es c))
          \<in> {None, if (q, o') = (p, off) then Some es else fst (cache_get q o' c)})
    \<and> (1 \<le> bc_capacity c \<and> sz es \<le> bc_max_bytes c \<longrightarrow>
          fst (cache_get p off (cache_put sz p off es c)) = Some es)"
proof -
  note sp = cache_put_spec [OF assms refl, where sz = sz and p = p and off = off and entries = es]
  have "fst (cache_get q o' (cache_put sz p off es c))
          \<in> {None, if (q, o') = (p, off) then Some es else fst (cache_get q o' c)}" for q o'
    using map_le_Some [OF sp(2), of "(q, o')"] cache_get_spec(1) [OF sp(1), of q o']
      cache_get_spec(1) [OF assms, of q o']
    by (cases "cache_view (cache_put sz p off es c) (q, o')") (auto split: if_split_asm)
  then show ?thesis
    using sp cache_get_spec(1) [OF sp(1)] by (simp add: currentBytes_def)
qed

theorem cache_put_bounded_witness:
  "cache_ok globalInstance
   \<and> fst (cache_get ''t.sst'' 0 (cache_put length ''t.sst'' 0 [([1], None)] globalInstance)) = Some [([1], None)]"
proof -
  have "cache_ok globalInstance" by (simp add: globalInstance_def)
  moreover from cache_put_bounded [OF this, of length "''t.sst''" 0 "[([1], None)]"]
  have "fst (cache_get ''t.sst'' 0 (cache_put length ''t.sst'' 0 [([1], None)] globalInstance)) = Some [([1], None)]"
    by (simp add: globalInstance_def mk_cache_def)
  ultimately show ?thesis by simp
qed

text \<open>C27. Eviction is least-recently-used: it keeps the longest prefix of the recency list that
  satisfies both limits, and nothing else.\<close>

theorem evict_keeps_longest_prefix:
  assumes "cache_ok c"
  shows "\<exists>k \<le> length (bc_list c). bc_list (evictIfNeeded c) = take k (bc_list c) \<and> fits c k
           \<and> (\<forall>j \<le> length (bc_list c). fits c j \<longrightarrow> j \<le> k)"
  using evict_spec [OF assms] by simp

definition ex_cache :: block_cache where
  "ex_cache = \<lparr>bc_capacity = 1, bc_max_bytes = 10, bc_current = 5,
     bc_list = [\<lparr>cn_id = 1, cn_key = (''b'', 0), cn_value = [], cn_bytes = 3\<rparr>,
                \<lparr>cn_id = 0, cn_key = (''a'', 0), cn_value = [], cn_bytes = 2\<rparr>],
     bc_map = [((''a'', 0), 0), ((''b'', 0), 1)], bc_next = 2\<rparr>"

theorem evict_keeps_longest_prefix_witness:
  "cache_ok ex_cache \<and> (\<exists>k \<le> length (bc_list ex_cache).
     bc_list (evictIfNeeded ex_cache) = take k (bc_list ex_cache) \<and> fits ex_cache k)"
proof -
  have "cache_ok ex_cache"
    by (auto simp: cache_ok_def ex_cache_def node_refs_def total_bytes_def)
  with evict_keeps_longest_prefix [OF this] show ?thesis by blast
qed

text \<open>C28. \<open>invalidatePath\<close> forgets every block of its file and no other block.\<close>

theorem invalidatePath_exact:
  assumes "cache_ok c"
  shows "cache_ok (invalidatePath p c)
    \<and> fst (cache_get q off (invalidatePath p c)) = (if q = p then None else fst (cache_get q off c))"
  using invalidatePath_spec [OF assms, of p] cache_get_spec(1) assms by simp

theorem invalidatePath_exact_witness:
  "fst (cache_get ''a'' 0 (invalidatePath ''a'' ex_cache)) = None
   \<and> fst (cache_get ''b'' 0 (invalidatePath ''a'' ex_cache)) = fst (cache_get ''b'' 0 ex_cache)"
proof -
  have "cache_ok ex_cache"
    by (auto simp: cache_ok_def ex_cache_def node_refs_def total_bytes_def)
  from invalidatePath_exact [OF this, of "''a''" "''a''" 0] invalidatePath_exact [OF this, of "''a''" "''b''" 0]
  show ?thesis by simp
qed

end
