(* ===== verification/SSTable.thy ===== *)
theory SSTable
  imports SSTableFormat BlockCache
begin

text \<open>
  Reading a table (src/sstable/sstable_reader.cpp): opening it with every check on the untrusted
  footer, index and Bloom section, point lookups through the block cache, the full read, and the
  iterator the merges and scans use. An exception is \<open>Inl\<close>; a read of a variable the code leaves
  uninitialised is the error \<open>Undefined\<close>.

  A table keeps the file behind its descriptor (table files are never written in place), while
  iterators and \<open>readAll\<close> open the path again.

  The lemmas show that a table written by \<open>SSTable::write\<close> opens, that lookups agree with the
  entries through any coherent cache, and that the iterators enumerate the entries.
\<close>

section \<open>Reading fields\<close>

definition readUint32 :: "ifs \<Rightarrow> nat \<times> ifs" where
  "readUint32 s = (case ifs_read 4 s of (v, s) \<Rightarrow> (le_dec v, s))"

definition readUint64 :: "ifs \<Rightarrow> nat \<times> ifs" where
  "readUint64 s = (case ifs_read 8 s of (v, s) \<Rightarrow> (le_dec v, s))"

definition pad_to :: "nat \<Rightarrow> bytes \<Rightarrow> bytes" where
  "pad_to n bs = bs @ replicate (n - length bs) 0"

definition readString :: "nat \<Rightarrow> ifs \<Rightarrow> sst_error + (bytes \<times> ifs)" where
  "readString max_len s =
     (case readUint32 s of (len, s) \<Rightarrow>
      if len > max_len then Inl StringTooLong
      else (case ifs_read len s of (v, s) \<Rightarrow> Inr (pad_to len v, s)))"

definition readEntry :: "nat \<Rightarrow> ifs \<Rightarrow> sst_error + (entry \<times> ifs)" where
  "readEntry max_len s =
     (case ifs_read 1 s of (is_tombstone, s) \<Rightarrow>
      (case readString max_len s of
         Inl e \<Rightarrow> Inl e
       | Inr (key, s) \<Rightarrow>
           (case readString max_len s of
              Inl e \<Rightarrow> Inl e
            | Inr (val, s) \<Rightarrow>
                (case is_tombstone of
                   [] \<Rightarrow> Inl Undefined
                 | b # _ \<Rightarrow> Inr ((key, if b \<noteq> 0 then None else Some val), s)))))"

definition deserializeBloom :: "ifs \<Rightarrow> sst_error + (bloom \<times> ifs)" where
  "deserializeBloom s =
     (case ifs_read 8 s of (nh, s) \<Rightarrow>
      (case ifs_read 8 s of (nb, s) \<Rightarrow>
       if length nb < 8 then Inl Undefined
       else
         (case ifs_tellg s of (here, s) \<Rightarrow>
          (case ifs_tellg (ifs_seekg (length (ifs_data s)) s) of (file_size, s) \<Rightarrow>
           let s = ifs_seekg here s;
               num_blocks = le_dec nb;
               available = (if file_size \<ge> (here + 16) mod 2 ^ 64 then file_size - here - 16 else 0)
           in if num_blocks > available div 64 then Inl BloomTooBig
              else (case ifs_read (num_blocks * 64) s of (data, s) \<Rightarrow>
                    Inr (deserialize num_blocks (le_dec nh) (pad_to (num_blocks * 64) data), s))))))"

fun read_index :: "nat \<Rightarrow> nat \<Rightarrow> ifs \<Rightarrow> sst_error + ((bytes \<times> nat) list \<times> ifs)" where
  "read_index 0 max_len s = Inr ([], s)"
| "read_index (Suc n) max_len s =
     (case readString max_len s of
        Inl e \<Rightarrow> Inl e
      | Inr (key, s) \<Rightarrow>
          (case readUint64 s of (offset, s) \<Rightarrow>
           (case read_index n max_len s of
              Inl e \<Rightarrow> Inl e
            | Inr (is, s) \<Rightarrow> Inr ((key, offset) # is, s))))"

section \<open>Progress of the stream\<close>

text \<open>How much a stream can still deliver: the measure of the read loops.\<close>

definition stream_left :: "ifs \<Rightarrow> nat" where
  "stream_left s = (if ifs_good s then Suc (length (ifs_data s) - ifs_pos s) else 0)"

lemma ifs_read_left:
  "stream_left (snd (ifs_read n s)) \<le> stream_left s"
  "ifs_good s \<Longrightarrow> 0 < n \<Longrightarrow> stream_left (snd (ifs_read n s)) < stream_left s"
  by (auto simp: ifs_read_def stream_left_def ifs_good_def Let_def)

lemma readString_left:
  assumes "readString m s = Inr (v, s')"
  shows "stream_left s' \<le> stream_left s"
proof -
  obtain bs s1 where r: "ifs_read 4 s = (bs, s1)" by fastforce
  obtain d s2 where r2: "ifs_read (le_dec bs) s1 = (d, s2)" by fastforce
  have "s' = s2" using assms by (auto simp: readString_def readUint32_def r r2 split: if_split_asm)
  then show ?thesis
    using ifs_read_left(1) [of 4 s] ifs_read_left(1) [of "le_dec bs" s1] by (simp add: r r2)
qed

lemma readEntry_left:
  assumes "readEntry m s = Inr (e, s')"
  shows "ifs_good s" "stream_left s' < stream_left s"
proof -
  obtain t s1 where r: "ifs_read 1 s = (t, s1)" by fastforce
  then obtain v1 s2 v2 where *: "readString m s1 = Inr (v1, s2)" "readString m s2 = Inr (v2, s')" "t \<noteq> []"
    using assms by (auto simp: readEntry_def split: sum.splits list.splits)
  then show good: "ifs_good s" using r by (auto simp: ifs_read_def ifs_good_def split: if_split_asm)
  have "stream_left s1 < stream_left s" using ifs_read_left(2) [OF good, of 1] r by simp
  then show "stream_left s' < stream_left s" using *(1,2) [THEN readString_left] by simp
qed

lemma ifs_tellg_left: "stream_left (snd (ifs_tellg s)) \<le> stream_left s"
  by (simp add: ifs_tellg_def stream_left_def ifs_good_def)

lemma tellg_good: "fst (ifs_tellg s) < n \<Longrightarrow> n \<le> uint64_max \<Longrightarrow> ifs_good s \<and> ifs_tellg s = (ifs_pos s, s)"
  by (auto simp: ifs_tellg_def ifs_good_def split: if_split_asm)

section \<open>Opening\<close>

text \<open>The loop that finds the largest key: the last entry read before \<open>index_offset\<close>.\<close>

function last_entry :: "nat \<Rightarrow> nat \<Rightarrow> entry \<Rightarrow> ifs \<Rightarrow> sst_error + entry" where
  "last_entry index_offset max_len e s =
     (case ifs_tellg s of (pos, s) \<Rightarrow>
      if pos < index_offset
      then (case readEntry max_len s of
              Inl err \<Rightarrow> Inl err
            | Inr (e, s) \<Rightarrow> last_entry index_offset max_len e s)
      else Inr e)"
  by pat_completeness auto
termination
proof (relation "measure (\<lambda>(_, _, _, s). stream_left s)", goal_cases)
  case (2 index_offset max_len e s pos s1 x e' s2)
  then show ?case using readEntry_left(2) [of max_len s1 e' s2] ifs_tellg_left [of s] by (cases "ifs_tellg s") auto
qed simp

declare last_entry.simps [simp del]

text \<open>\<open>sst_fd\<close> is the file behind \<open>fd_\<close>, \<open>None\<close> for \<open>fd_ = -1\<close>; \<open>sst_bloom\<close> is \<open>None\<close> once moved from.\<close>

record sstable =
  sst_path :: path
  sst_fd :: "bytes option"
  sst_index :: "(bytes \<times> nat) list"
  sst_bloom :: "bloom option"
  smallestKey :: bytes
  largestKey :: bytes
  sst_file_size :: nat
  indexOffset :: nat

text \<open>\<open>fd_ok\<close> and \<open>in_ok\<close>: whether the two ways the constructor opens the file succeed.\<close>

definition sst_open :: "bool \<Rightarrow> bool \<Rightarrow> fs \<Rightarrow> path \<Rightarrow> sst_error + sstable" where
  "sst_open fd_ok in_ok fs path =
     (case fs path of
        None \<Rightarrow> Inl CannotOpen
      | Some data \<Rightarrow>
          if \<not> fd_ok then Inl CannotOpen
          else if \<not> in_ok then Inl CannotOpen
          else
            (let file_size = length data in
             if file_size < 16 then Inl FileTooSmall
             else
               (case readUint64 (ifs_seekg (file_size - 16) (ifs_open data)) of (index_offset, s) \<Rightarrow>
                (case readUint64 s of (bloom_offset, s) \<Rightarrow>
                 if index_offset > file_size \<or> bloom_offset > file_size \<or> index_offset > bloom_offset
                 then Inl BadFooter
                 else
                   (case readUint32 (ifs_seekg index_offset s) of (index_count, s) \<Rightarrow>
                    let index_region = bloom_offset - index_offset;
                        available = (if index_region \<ge> 4 then index_region - 4 else 0)
                    in if index_count > available div 12 then Inl IndexCountTooBig
                       else
                         (case read_index index_count file_size s of
                            Inl e \<Rightarrow> Inl e
                          | Inr (index, s) \<Rightarrow>
                              let s = ifs_seekg bloom_offset s in
                              (case deserializeBloom s of
                                 Inl e \<Rightarrow> Inl e
                               | Inr (bloom, s) \<Rightarrow>
                                   let t = \<lparr>sst_path = path, sst_fd = Some data, sst_index = index,
                                            sst_bloom = Some bloom, smallestKey = [], largestKey = [],
                                            sst_file_size = file_size, indexOffset = index_offset\<rparr>
                                   in if index = [] then Inr t
                                      else (case last_entry index_offset file_size ([], None)
                                                   (ifs_seekg (snd (last index)) s) of
                                              Inl e \<Rightarrow> Inl e
                                            | Inr e \<Rightarrow> Inr (t\<lparr>smallestKey := fst (hd index),
                                                             largestKey := fst e\<rparr>)))))))))"

section \<open>Point lookup\<close>

function parseBlockEntries :: "bytes \<Rightarrow> entry list" where
  "parseBlockEntries d =
     (if length d < 9 then []
      else
        (let is_tombstone = hd d;
             key_len = le_dec (take 4 (drop 1 d));
             d = drop 5 d
         in if key_len + 4 > length d then []
            else
              (let key = take key_len d;
                   d = drop key_len d;
                   val_len = le_dec (take 4 d);
                   d = drop 4 d
               in if val_len > length d then []
                  else (key, if is_tombstone \<noteq> 0 then None else Some (take val_len d))
                         # parseBlockEntries (drop val_len d))))"
  by pat_completeness auto
termination
  by (relation "measure length") auto

declare parseBlockEntries.simps [simp del]

text \<open>The binary search of \<open>get\<close> and \<open>findBlock\<close>: the last index entry not above the key.\<close>

function search_index :: "(bytes \<times> nat) list \<Rightarrow> bytes \<Rightarrow> nat \<Rightarrow> nat \<Rightarrow> nat" where
  "search_index index key lo hi =
     (if lo < hi then
        (let mid = lo + (hi - lo + 1) div 2 in
         if fst (index ! mid) \<le> key then search_index index key mid hi
         else search_index index key lo (mid - 1))
      else lo)"
  by pat_completeness auto
termination
  by (relation "measure (\<lambda>(_, _, lo, hi). hi - lo)") auto

declare search_index.simps [simp del]

fun scan_entries :: "bytes \<Rightarrow> entry list \<Rightarrow> bytes option option" where
  "scan_entries key [] = None"
| "scan_entries key (e # es) =
     (if fst e = key then Some (snd e) else if fst e > key then None else scan_entries key es)"

text \<open>\<open>pread\<close> of \<open>len\<close> bytes at an offset: \<open>None\<close> is an error, a short list a short read. The function is
  the operating system's, so it is a parameter; \<open>pread_ok\<close> says it delivers bytes of the file.\<close>

type_synonym pread_fn = "nat \<Rightarrow> nat \<Rightarrow> bytes \<Rightarrow> bytes option"

definition pread_ok :: "pread_fn \<Rightarrow> bool" where
  "pread_ok pread \<longleftrightarrow>
     (\<forall>len off data bs. pread len off data = Some bs \<longrightarrow> prefix bs (take len (drop off data)))"

definition pread_full :: pread_fn where
  "pread_full len off data = Some (take len (drop off data))"

definition sst_get :: "(entry list \<Rightarrow> nat) \<Rightarrow> pread_fn \<Rightarrow> sstable \<Rightarrow> bytes \<Rightarrow> block_cache
    \<Rightarrow> (sst_error + bytes option option) \<times> block_cache" where
  "sst_get sz pread t key c =
     (case sst_bloom t of
        None \<Rightarrow> (Inl Undefined, c)
      | Some bloom \<Rightarrow>
          if \<not> mayContain bloom key then (Inr None, c)
          else if sst_index t = [] then (Inr None, c)
          else
            (let lo = search_index (sst_index t) key 0 (length (sst_index t) - 1);
                 block_start = snd (sst_index t ! lo);
                 block_end = (if lo + 1 < length (sst_index t) then snd (sst_index t ! (lo + 1))
                              else indexOffset t)
             in case cache_get (sst_path t) block_start c of
                  (Some es, c) \<Rightarrow> (Inr (scan_entries key es), c)
                | (None, c) \<Rightarrow>
                    (case sst_fd t of
                       None \<Rightarrow> (Inl BadDescriptor, c)
                     | Some data \<Rightarrow>
                         if block_end \<le> block_start then (Inr None, c)
                         else
                           (let block_len = block_end - block_start in
                            case pread block_len block_start data of
                              None \<Rightarrow> (Inl PreadError, c)
                            | Some buf \<Rightarrow>
                                if length buf < block_len then (Inl ShortPread, c)
                                else
                                  (let entries = parseBlockEntries buf
                                   in (Inr (scan_entries key entries),
                                       cache_put sz (sst_path t) block_start entries c))))))"

definition findBlock :: "sstable \<Rightarrow> bytes \<Rightarrow> nat" where
  "findBlock t key =
     (if sst_index t = [] then 0
      else snd (sst_index t ! search_index (sst_index t) key 0 (length (sst_index t) - 1)))"

section \<open>Full read and iterators\<close>

function read_entries :: "nat \<Rightarrow> nat \<Rightarrow> ifs \<Rightarrow> sst_error + entry list" where
  "read_entries idx_off max_len s =
     (case ifs_tellg s of (pos, s) \<Rightarrow>
      if pos < idx_off
      then (case ifs_peek s of (has_byte, s) \<Rightarrow>
            if has_byte
            then (case readEntry max_len s of
                    Inl e \<Rightarrow> Inl e
                  | Inr (e, s) \<Rightarrow>
                      (case read_entries idx_off max_len s of
                         Inl err \<Rightarrow> Inl err
                       | Inr es \<Rightarrow> Inr (e # es)))
            else Inr [])
      else Inr [])"
  by pat_completeness auto
termination
proof (relation "measure (\<lambda>(_, _, s). stream_left s)", goal_cases)
  case (2 idx_off max_len s pos s1 b s2 x e s3)
  have "stream_left s2 \<le> stream_left s1"
    using 2(3) by (auto simp: ifs_peek_def stream_left_def ifs_good_def split: if_split_asm)
  then show ?case
    using 2 readEntry_left(2) [of max_len s2 e s3] ifs_tellg_left [of s] by (cases "ifs_tellg s") auto
qed simp

declare read_entries.simps [simp del]

definition readAll :: "fs \<Rightarrow> sstable \<Rightarrow> sst_error + entry list" where
  "readAll fs t =
     (case fs (sst_path t) of
        None \<Rightarrow> Inr []
      | Some data \<Rightarrow>
          (case readUint64 ((if length data < 16 then (\<lambda>s. s\<lparr>ifs_fail := True\<rparr>)
                             else ifs_seekg (length data - 16)) (ifs_open data)) of (idx_off, s) \<Rightarrow>
           read_entries idx_off (sst_file_size t) (ifs_seekg 0 s)))"

record sst_iter =
  it_in :: "ifs option"
  it_end :: nat
  it_current :: "entry option"

definition sst_advance :: "sst_iter \<Rightarrow> sst_iter" where
  "sst_advance it =
     (case it_in it of
        None \<Rightarrow> it\<lparr>it_current := None\<rparr>
      | Some s \<Rightarrow>
          (case ifs_tellg s of (pos, s) \<Rightarrow>
           if pos < it_end it
           then (case ifs_peek s of (has_byte, s) \<Rightarrow>
                 if has_byte
                 then
                   (let (t, s) = ifs_read 1 s;
                        is_tombstone = (case t of [] \<Rightarrow> 0 | b # _ \<Rightarrow> b);
                        (key_len, s) = readUint32 s;
                        (key, s) = ifs_read key_len s;
                        (val_len, s) = readUint32 s;
                        (val, s) = ifs_read val_len s
                    in it\<lparr>it_in := Some s,
                          it_current := Some (pad_to key_len key,
                             if is_tombstone \<noteq> 0 then None else Some (pad_to val_len val))\<rparr>)
                 else it\<lparr>it_in := Some s, it_current := None\<rparr>)
           else it\<lparr>it_in := Some s, it_current := None\<rparr>))"

definition mk_sst_iter :: "fs \<Rightarrow> path \<Rightarrow> nat \<Rightarrow> nat \<Rightarrow> sst_iter" where
  "mk_sst_iter fs path data_end_offset start_offset =
     (let s = map_option ifs_open (fs path);
          s = (if start_offset > 0 then map_option (ifs_seekg start_offset) s else s)
      in sst_advance \<lparr>it_in = s, it_end = data_end_offset, it_current = None\<rparr>)"

definition it_hasNext :: "sst_iter \<Rightarrow> bool" where
  "it_hasNext it \<longleftrightarrow> it_current it \<noteq> None"

text \<open>\<open>peek\<close> and \<open>next\<close> dereference \<open>current_\<close>; \<open>None\<close> is the undefined case of an exhausted iterator.\<close>

definition it_peek :: "sst_iter \<Rightarrow> entry option" where
  "it_peek it = it_current it"

definition it_next :: "sst_iter \<Rightarrow> (entry \<times> sst_iter) option" where
  "it_next it = map_option (\<lambda>e. (e, sst_advance it)) (it_current it)"

definition iter_left :: "sst_iter \<Rightarrow> nat" where
  "iter_left it = (case it_current it of None \<Rightarrow> 0
     | Some _ \<Rightarrow> Suc (case it_in it of None \<Rightarrow> 0 | Some s \<Rightarrow> stream_left s))"

lemma sst_advance_left: "it_current it = Some e \<Longrightarrow> iter_left (sst_advance it) < iter_left it"
proof (cases "it_in it")
  case (Some s)
  assume cur: "it_current it = Some e"
  obtain pos s1 where t: "ifs_tellg s = (pos, s1)" by fastforce
  obtain b s2 where p: "ifs_peek s1 = (b, s2)" by fastforce
  show ?thesis
  proof (cases "pos < it_end it \<and> b")
    case True
    then have s2: "s2 = s" "ifs_good s" "ifs_pos s < length (ifs_data s)"
      using t p by (auto simp: ifs_tellg_def ifs_peek_def ifs_good_def split: if_split_asm)
    define s3 where "s3 = snd (ifs_read 1 s)"
    define s4 where "s4 = snd (readUint32 s3)"
    define s5 where "s5 = snd (ifs_read (fst (readUint32 s3)) s4)"
    define s6 where "s6 = snd (readUint32 s5)"
    define s7 where "s7 = snd (ifs_read (fst (readUint32 s5)) s6)"
    have "stream_left s3 < stream_left s"
      unfolding s3_def by (rule ifs_read_left(2) [OF s2(2)]) simp
    moreover have "stream_left s4 \<le> stream_left s3" "stream_left s5 \<le> stream_left s4"
        "stream_left s6 \<le> stream_left s5" "stream_left s7 \<le> stream_left s6"
      unfolding s4_def s5_def s6_def s7_def
      by (simp_all add: readUint32_def case_prod_unfold ifs_read_left)
    moreover have "it_in (sst_advance it) = Some s7"
      using Some True t p s2(1)
      by (simp add: sst_advance_def Let_def case_prod_unfold s3_def s4_def s5_def s6_def s7_def)
    ultimately show ?thesis using cur Some by (auto simp: iter_left_def split: option.splits)
  next
    case False
    then have "it_current (sst_advance it) = None"
      using Some t p by (auto simp: sst_advance_def)
    then show ?thesis using cur by (simp add: iter_left_def)
  qed
qed (simp add: iter_left_def sst_advance_def)

text \<open>\<open>while (it->hasNext() && it->peek().key < start_key) it->next();\<close>\<close>

function skip_below :: "bytes \<Rightarrow> sst_iter \<Rightarrow> sst_iter" where
  "skip_below start_key it =
     (case it_next it of
        None \<Rightarrow> it
      | Some (e, it') \<Rightarrow> if fst e < start_key then skip_below start_key it' else it)"
  by pat_completeness auto
termination
  by (relation "measure (\<lambda>(_, it). iter_left it)") (auto simp: it_next_def dest: sst_advance_left)

declare skip_below.simps [simp del]

definition createIterator :: "fs \<Rightarrow> sstable \<Rightarrow> sst_iter" where
  "createIterator fs t = mk_sst_iter fs (sst_path t) (indexOffset t) 0"

definition createIterator_from :: "fs \<Rightarrow> sstable \<Rightarrow> bytes \<Rightarrow> sst_iter" where
  "createIterator_from fs t start_key =
     skip_below start_key (mk_sst_iter fs (sst_path t) (indexOffset t) (findBlock t start_key))"

text \<open>Everything an iterator still delivers.\<close>

function it_entries :: "sst_iter \<Rightarrow> entry list" where
  "it_entries it = (case it_next it of None \<Rightarrow> [] | Some (e, it') \<Rightarrow> e # it_entries it')"
  by pat_completeness auto
termination
  by (relation "measure iter_left") (auto simp: it_next_def dest: sst_advance_left)

declare it_entries.simps [simp del]

section \<open>Moving and destroying\<close>

text \<open>The new table and the moved-from one. \<open>file_size_\<close> is in neither list, so a constructed table has the
  default 0 and an assigned one keeps its own.\<close>

definition moved_from :: "sstable \<Rightarrow> sstable" where
  "moved_from t = t\<lparr>sst_path := [], sst_fd := None, sst_index := [], sst_bloom := None,
                     smallestKey := [], largestKey := []\<rparr>"

definition sst_move :: "sstable \<Rightarrow> sstable \<times> sstable" where
  "sst_move other = (other\<lparr>sst_file_size := 0\<rparr>, moved_from other)"

definition sst_move_assign :: "sstable \<Rightarrow> sstable \<Rightarrow> sstable \<times> sstable" where
  "sst_move_assign this other = (other\<lparr>sst_file_size := sst_file_size this\<rparr>, moved_from other)"

definition sst_destroy :: "sstable \<Rightarrow> block_cache \<Rightarrow> block_cache" where
  "sst_destroy t c = invalidatePath (sst_path t) c"

section \<open>Fields read back\<close>

lemma readUint32_at:
  "at_bytes s (le_enc 4 n @ r) \<Longrightarrow> n \<le> uint32_max \<Longrightarrow> readUint32 s = (n, skip_to 4 s)"
  by (simp add: readUint32_def ifs_read_at)

lemma readUint64_at:
  "at_bytes s (le_enc 8 n @ r) \<Longrightarrow> n \<le> uint64_max \<Longrightarrow> readUint64 s = (n, skip_to 8 s)"
  by (simp add: readUint64_def ifs_read_at)

lemma pad_to_full [simp]: "length bs = n \<Longrightarrow> pad_to n bs = bs"
  by (simp add: pad_to_def)

lemma readString_at:
  assumes "at_bytes s (string_bytes v @ r)" "length v \<le> uint32_max" "length v \<le> m"
  shows "readString m s = Inr (v, skip_to (4 + length v) s)"
proof -
  have a: "at_bytes s (le_enc 4 (length v) @ v @ r)" using assms(1) by (simp add: string_bytes_def)
  have "at_bytes (skip_to 4 s) (v @ r)" using at_bytes_skip [OF a] by simp
  then show ?thesis
    using assms(2,3) by (simp add: readString_def readUint32_at [OF a] ifs_read_at)
qed

definition value_bytes :: "bytes option \<Rightarrow> bytes" where
  "value_bytes v = (case v of Some v \<Rightarrow> v | None \<Rightarrow> [])"

lemma entry_ok_lengths:
  "entry_ok e \<Longrightarrow> length (fst e) \<le> uint32_max \<and> length (value_bytes (snd e)) \<le> uint32_max"
  by (auto simp: entry_ok_def value_bytes_def split: option.splits)

lemma entry_bytes_eq:
  "entry_bytes e = (if snd e = None then 1 else 0) # string_bytes (fst e) @ string_bytes (value_bytes (snd e))"
  by (simp add: entry_bytes_def value_bytes_def split: option.splits)

lemma entry_size_eq: "entry_size e = 1 + (4 + length (fst e)) + (4 + length (value_bytes (snd e)))"
  by (simp add: entry_size_def value_bytes_def split: option.splits)

lemma readEntry_at:
  assumes at: "at_bytes s (entry_bytes e @ r)" and ok: "entry_ok e"
    and m: "length (fst e) \<le> m" "length (value_bytes (snd e)) \<le> m"
  shows "readEntry m s = Inr (e, skip_to (entry_size e) s)"
proof -
  let ?t = "if snd e = None then 1 else 0 :: byte"
  have a: "at_bytes s ([?t] @ string_bytes (fst e) @ string_bytes (value_bytes (snd e)) @ r)"
    using at by (simp add: entry_bytes_eq)
  have b: "at_bytes (skip_to 1 s) (string_bytes (fst e) @ string_bytes (value_bytes (snd e)) @ r)"
    by (rule at_bytes_skip [OF a]) simp
  have c: "at_bytes (skip_to (1 + (4 + length (fst e))) s) (string_bytes (value_bytes (snd e)) @ r)"
    using at_bytes_skip [OF b, of "4 + length (fst e)"] by simp
  have rd: "ifs_read 1 s = ([?t], skip_to 1 s)" by (rule ifs_read_at [OF a]) simp
  note lens = entry_ok_lengths [OF ok]
  show ?thesis
    unfolding readEntry_def rd
    using readString_at [OF b] readString_at [OF c] lens m
    by (cases e) (auto simp: entry_size_eq value_bytes_def split: option.splits)
qed

lemma read_index_at:
  assumes "at_bytes s (index_bytes is @ r)"
    and "\<forall>i \<in> set is. length (fst i) \<le> uint32_max \<and> length (fst i) \<le> m \<and> snd i \<le> uint64_max"
  shows "read_index (length is) m s = Inr (is, skip_to (length (index_bytes is)) s)"
  using assms
proof (induction "is" arbitrary: s)
  case Nil
  then show ?case by (simp add: skip_to_def)
next
  case (Cons i "is")
  have a: "at_bytes s (string_bytes (fst i) @ le_enc 8 (snd i) @ index_bytes is @ r)"
    using Cons.prems(1) by simp
  have b: "at_bytes (skip_to (4 + length (fst i)) s) (le_enc 8 (snd i) @ index_bytes is @ r)"
    by (rule at_bytes_skip [OF a]) simp
  have c: "at_bytes (skip_to (4 + length (fst i) + 8) s) (index_bytes is @ r)"
    using at_bytes_skip [OF b, of 8] by simp
  show ?case
    using Cons.prems(2) Cons.IH [OF c] readString_at [OF a] readUint64_at [OF b]
    by (simp add: add.assoc)
qed

lemma deserializeBloom_at:
  assumes at: "at_bytes s (bloom_bytes bf @ foot)" and foot: "length foot = 16" and ok: "bloom_ok bf"
    and fits: "num_hashes bf \<le> uint64_max" "length (ifs_data s) < 2 ^ 63"
  shows "\<exists>s'. deserializeBloom s = Inr (bf, s') \<and> ifs_good s' \<and> ifs_data s' = ifs_data s"
proof -
  have len: "length (bloom_bytes bf) = 16 + num_blocks bf * 64"
    by (simp add: bloom_bytes_def length_serialize [OF ok])
  have a: "at_bytes s (le_enc 8 (num_hashes bf) @ le_enc 8 (num_blocks bf) @ serialize bf @ foot)"
    using at by (simp add: bloom_bytes_def)
  have b: "at_bytes (skip_to 8 s) (le_enc 8 (num_blocks bf) @ serialize bf @ foot)"
    by (rule at_bytes_skip [OF a]) simp
  have c: "at_bytes (skip_to 16 s) (serialize bf @ foot)"
    using at_bytes_skip [OF b, of 8] by simp
  have good: "ifs_good s" and drop_eq: "drop (ifs_pos s) (ifs_data s) = bloom_bytes bf @ foot"
    using at by (auto simp: at_bytes_def)
  have size: "length (ifs_data s) = ifs_pos s + (32 + num_blocks bf * 64)"
    using arg_cong [OF drop_eq, of length] len foot by simp
  have small: "ifs_pos s + 32 < 2 ^ 63" and nb: "num_blocks bf \<le> uint64_max"
    using fits(2) size by auto
  have "le_dec (le_enc 8 (num_blocks bf)) = num_blocks bf" "le_dec (le_enc 8 (num_hashes bf)) = num_hashes bf"
    using nb fits(1) by simp_all
  moreover have "ifs_read (num_blocks bf * 64) (skip_to 16 s) = (serialize bf, skip_to (num_blocks bf * 64) (skip_to 16 s))"
    by (rule ifs_read_at [OF c]) (simp add: length_serialize [OF ok])
  moreover have "ifs_seekg (ifs_pos s + 16) (ifs_seekg (length (ifs_data s)) (skip_to 16 s)) = skip_to 16 s"
    using good small fits(2) by (simp add: ifs_seekg_def skip_to_def ifs_good_def Let_def)
  moreover have "ifs_tellg (ifs_seekg (length (ifs_data s)) (skip_to 16 s))
      = (length (ifs_data s), ifs_seekg (length (ifs_data s)) (skip_to 16 s))"
    using good fits(2) by (simp add: ifs_seekg_def ifs_tellg_def skip_to_def ifs_good_def Let_def)
  moreover have "(ifs_pos s + 16 + 16) mod 2 ^ 64 = ifs_pos s + 32"
    using small by (intro trans [OF mod_less]) auto
  ultimately show ?thesis
    using good size ok
    by (simp add: deserializeBloom_def ifs_read_at [OF a] ifs_read_at [OF b] ifs_tellg_good
        length_serialize deserialize_serialize Let_def)
qed

text \<open>Entries whose strings a read with bound \<open>m\<close> accepts.\<close>

definition entries_ok :: "nat \<Rightarrow> entry list \<Rightarrow> bool" where
  "entries_ok m es \<longleftrightarrow>
     (\<forall>e \<in> set es. entry_ok e \<and> length (fst e) \<le> m \<and> length (value_bytes (snd e)) \<le> m)"

lemma entries_ok_Cons [simp]:
  "entries_ok m (e # es) \<longleftrightarrow>
     entry_ok e \<and> length (fst e) \<le> m \<and> length (value_bytes (snd e)) \<le> m \<and> entries_ok m es"
  by (auto simp: entries_ok_def)

lemma at_entry_skip:
  "at_bytes s (entry_bytes e @ r) \<Longrightarrow> at_bytes (skip_to (entry_size e) s) r"
  by (erule at_bytes_skip) (simp add: length_entry_bytes)

lemma last_entry_at:
  assumes "at_bytes s (data_bytes es @ r)" "entries_ok m es"
    and "ifs_pos s + length (data_bytes es) = idx_off"
  shows "last_entry idx_off m e0 s = Inr (last (e0 # es))"
  using assms
proof (induction es arbitrary: s e0)
  case Nil
  then show ?case by (subst last_entry.simps) (simp add: at_bytes_def ifs_tellg_good)
next
  case (Cons e es)
  have at: "at_bytes s (entry_bytes e @ data_bytes es @ r)" using Cons.prems(1) by simp
  have pos: "ifs_pos s < idx_off" using Cons.prems(3) by (simp add: length_entry_bytes entry_size_def)
  have "last_entry idx_off m e0 s = last_entry idx_off m e (skip_to (entry_size e) s)"
    using Cons.prems(2) pos at
    by (subst last_entry.simps) (simp add: at_bytes_def ifs_tellg_good readEntry_at [OF at])
  also have "\<dots> = Inr (last (e # es))"
    using Cons.prems(2,3) by (intro Cons.IH at_entry_skip [OF at]) (auto simp: length_entry_bytes)
  finally show ?case by simp
qed

lemma ifs_peek_at: "at_bytes s bs \<Longrightarrow> bs \<noteq> [] \<Longrightarrow> ifs_peek s = (True, s)"
  by (auto simp: at_bytes_def ifs_peek_def ifs_good_def)

lemma read_entries_at:
  assumes "at_bytes s (data_bytes es @ r)" "entries_ok m es"
    and "ifs_pos s + length (data_bytes es) = idx_off"
  shows "read_entries idx_off m s = Inr es"
  using assms
proof (induction es arbitrary: s)
  case Nil
  then show ?case by (subst read_entries.simps) (simp add: at_bytes_def ifs_tellg_good)
next
  case (Cons e es)
  have at: "at_bytes s (entry_bytes e @ data_bytes es @ r)" using Cons.prems(1) by simp
  have pos: "ifs_pos s < idx_off" using Cons.prems(3) by (simp add: length_entry_bytes entry_size_def)
  have "read_entries idx_off m (skip_to (entry_size e) s) = Inr es"
    using Cons.prems(2,3) by (intro Cons.IH at_entry_skip [OF at]) (auto simp: length_entry_bytes)
  moreover have "ifs_good s" "ifs_peek s = (True, s)"
    using at ifs_peek_at [OF at] by (auto simp: at_bytes_def entry_bytes_eq)
  ultimately show ?case
    using Cons.prems(2) pos by (subst read_entries.simps) (simp add: ifs_tellg_good readEntry_at [OF at])
qed

section \<open>Iterators enumerate the entries\<close>

text \<open>The iterator stands at the first of the entries \<open>es\<close> that end the data region.\<close>

definition iter_at :: "sst_iter \<Rightarrow> entry list \<Rightarrow> bool" where
  "iter_at it es \<longleftrightarrow>
     (case es of
        [] \<Rightarrow> it_current it = None
      | e # es' \<Rightarrow> it_current it = Some e \<and>
          (\<exists>s r. it_in it = Some s \<and> at_bytes s (data_bytes es' @ r)
                 \<and> ifs_pos s + length (data_bytes es') = it_end it))"

lemma advance_at:
  assumes "it_in it = Some s" "at_bytes s (data_bytes es @ r)"
    and "ifs_pos s + length (data_bytes es) = it_end it" "\<forall>e \<in> set es. entry_ok e"
  shows "iter_at (sst_advance it) es \<and> it_end (sst_advance it) = it_end it"
proof (cases es)
  case Nil
  then show ?thesis
    using assms by (simp add: iter_at_def sst_advance_def at_bytes_def ifs_tellg_good)
next
  case (Cons e es')
  let ?v = "value_bytes (snd e)" and ?t = "if snd e = None then 1 else 0 :: byte"
  have at: "at_bytes s (entry_bytes e @ data_bytes es' @ r)" using assms(2) Cons by simp
  have a: "at_bytes s ([?t] @ le_enc 4 (length (fst e)) @ fst e @ le_enc 4 (length ?v) @ ?v @ data_bytes es' @ r)"
    using at by (simp add: entry_bytes_eq string_bytes_def)
  note b = at_bytes_skip [OF a, of 1, simplified]
  note c = at_bytes_skip [OF b, of 4, simplified]
  note d = at_bytes_skip [OF c refl, simplified]
  note f = at_bytes_skip [OF d, of 4, simplified]
  have lens: "length (fst e) \<le> uint32_max" "length ?v \<le> uint32_max"
    using entry_ok_lengths assms(4) Cons by auto
  have pos: "ifs_pos s < it_end it" using assms(3) Cons by (simp add: length_entry_bytes entry_size_def)
  have good: "ifs_good s" using at by (simp add: at_bytes_def)
  have rd: "ifs_read 1 s = ([?t], skip_to 1 s)" by (rule ifs_read_at [OF a]) simp
  have "sst_advance it = it\<lparr>it_in := Some (skip_to (entry_size e) s), it_current := Some e\<rparr>"
    using rd ifs_peek_at [OF a] pos good lens readUint32_at [OF b] ifs_read_at [OF c refl]
      readUint32_at [OF d] ifs_read_at [OF f refl]
    by (cases e) (auto simp: sst_advance_def assms(1) ifs_tellg_good entry_size_eq value_bytes_def
        split: option.splits)
  then show ?thesis
    using at_entry_skip [OF at] assms(3) Cons
    by (auto simp: iter_at_def length_entry_bytes intro!: exI [of _ r])
qed

lemma it_next_at:
  assumes "iter_at it (e # es)" "\<forall>e \<in> set es. entry_ok e"
  shows "\<exists>it'. it_next it = Some (e, it') \<and> iter_at it' es \<and> it_end it' = it_end it"
proof -
  obtain s r where "it_in it = Some s" "at_bytes s (data_bytes es @ r)" "it_current it = Some e"
      "ifs_pos s + length (data_bytes es) = it_end it"
    using assms(1) by (auto simp: iter_at_def)
  with advance_at [of it s es r] assms(2) show ?thesis by (auto simp: it_next_def)
qed

lemma it_entries_at: "iter_at it es \<Longrightarrow> \<forall>e \<in> set es. entry_ok e \<Longrightarrow> it_entries it = es"
proof (induction es arbitrary: it)
  case Nil
  then show ?case by (subst it_entries.simps) (simp add: it_next_def iter_at_def)
next
  case (Cons e es)
  then obtain it' where "it_next it = Some (e, it')" "iter_at it' es"
    using it_next_at [of it e es] by auto
  with Cons show ?case by (subst it_entries.simps) auto
qed

lemma skip_below_at:
  assumes "iter_at it es" "\<forall>e \<in> set es. entry_ok e"
  shows "iter_at (skip_below k it) (dropWhile (\<lambda>e. fst e < k) es)"
  using assms
proof (induction es arbitrary: it)
  case Nil
  then show ?case by (subst skip_below.simps) (simp add: it_next_def iter_at_def)
next
  case (Cons e es)
  then obtain it' where n: "it_next it = Some (e, it')" "iter_at it' es"
    using it_next_at [of it e es] by auto
  with Cons.IH [OF n(2)] Cons.prems show ?case by (subst skip_below.simps) auto
qed

section \<open>Blocks and the sparse index\<close>

lemma index_from_nth:
  "i < length bs \<Longrightarrow>
   index_from off bs ! i = (fst (hd (bs ! i)), off + length (data_bytes (concat (take i bs))))"
  by (induction bs arbitrary: off i) (auto simp: nth_Cons' take_Cons' gr0_conv_Suc)

lemma concat_take_nth:
  "i < length bs \<Longrightarrow> concat bs = concat (take i bs) @ bs ! i @ concat (drop (Suc i) bs)"
  by (metis append.assoc concat_append concat.simps(2) id_take_nth_drop)

lemma parse_data_bytes: "\<forall>e \<in> set es. entry_ok e \<Longrightarrow> parseBlockEntries (data_bytes es) = es"
proof (induction es)
  case Nil
  show ?case by (subst parseBlockEntries.simps) simp
next
  case (Cons e es)
  let ?v = "value_bytes (snd e)" and ?t = "if snd e = None then 1 else 0 :: byte"
  have eq: "data_bytes (e # es) = ?t # le_enc 4 (length (fst e)) @ fst e @ le_enc 4 (length ?v) @ ?v @ data_bytes es"
    by (simp add: entry_bytes_eq string_bytes_def)
  have d: "drop 5 (?t # le_enc 4 (length (fst e)) @ r) = r" "take 4 (drop 1 (?t # le_enc 4 (length (fst e)) @ r)) = le_enc 4 (length (fst e))" for r
    by simp_all
  have lens: "length (fst e) \<le> uint32_max" "length ?v \<le> uint32_max"
    using entry_ok_lengths Cons.prems by auto
  have "parseBlockEntries (data_bytes es) = es" using Cons by simp
  then show ?case
    unfolding eq using lens
    by (subst parseBlockEntries.simps) (cases e, auto simp: d value_bytes_def Let_def split: option.splits)
qed

lemma scan_entries_map_of: "ssorted es \<Longrightarrow> scan_entries key es = map_of es key"
proof (induction es)
  case (Cons e es)
  have "map_of es key = None" if "key < fst e"
    using that Cons.prems by (intro map_of_eq_None_lt) (auto intro: less_trans)
  with Cons show ?case by auto
qed simp

lemma search_index_spec:
  assumes "lo \<le> hi" "hi < length index" "sorted_wrt (<) (map fst index)"
  shows "lo \<le> search_index index key lo hi \<and> search_index index key lo hi \<le> hi
    \<and> (search_index index key lo hi = lo \<or> fst (index ! search_index index key lo hi) \<le> key)
    \<and> (\<forall>j. search_index index key lo hi < j \<and> j \<le> hi \<longrightarrow> key < fst (index ! j))"
  using assms
proof (induction index key lo hi rule: search_index.induct)
  case (1 index key lo hi)
  define mid where "mid = lo + (hi - lo + 1) div 2"
  show ?case
  proof (cases "lo < hi")
    case False
    then have "search_index index key lo hi = lo" by (subst search_index.simps) simp
    with False 1(3) show ?thesis by auto
  next
    case True
    then have mid: "lo < mid" "mid \<le> hi" by (auto simp: mid_def)
    show ?thesis
    proof (cases "fst (index ! mid) \<le> key")
      case le: True
      have eq: "search_index index key lo hi = search_index index key mid hi"
        using True le by (subst search_index.simps) (simp add: mid_def)
      show ?thesis
        using 1(1) [OF True mid_def le] mid 1(4,5) le unfolding eq by auto
    next
      case gt: False
      have eq: "search_index index key lo hi = search_index index key lo (mid - 1)"
        using True gt by (subst search_index.simps) (simp add: mid_def)
      have above: "key < fst (index ! j)" if "mid \<le> j" "j \<le> hi" for j
      proof (cases "j = mid")
        case False
        then have "fst (index ! mid) < fst (index ! j)"
          using that 1(4,5) by (simp add: sorted_wrt_iff_nth_less)
        with gt show ?thesis by simp
      qed (use gt in simp)
      have "lo \<le> mid - 1" "mid - 1 < length index" "mid - 1 \<le> hi" using mid 1(4) by linarith+
      note IH = 1(2) [OF True mid_def gt this(1,2) 1(5)] this(3)
      have "key < fst (index ! j)" if "search_index index key lo (mid - 1) < j" "j \<le> hi" for j
      proof (cases "mid \<le> j")
        case False
        then have "j \<le> mid - 1" by linarith
        with IH that show ?thesis by auto
      qed (use above that in blast)
      then show ?thesis
        using IH unfolding eq by (meson order_trans)
    qed
  qed
qed

lemma index_keys: "map fst (index_from off bs) = map (\<lambda>b. fst (hd b)) bs"
  by (induction bs arbitrary: off) auto

lemma hd_keys_sorted:
  "ssorted (concat bs) \<Longrightarrow> [] \<notin> set bs \<Longrightarrow> sorted_wrt (<) (map (\<lambda>b. fst (hd b)) bs)"
proof (induction bs)
  case (Cons b bs)
  have "fst (hd b) < fst (hd b')" if "b' \<in> set bs" for b'
  proof -
    have "b' \<noteq> []" "b \<noteq> []" using that Cons.prems(2) by auto
    then have "hd b \<in> set b" "hd b' \<in> set b'" by simp_all
    then show ?thesis using Cons.prems(1) that by (auto simp: sorted_wrt_append)
  qed
  with Cons show ?case by (simp add: sorted_wrt_append)
qed simp

lemma index_sorted: "ssorted es \<Longrightarrow> sorted_wrt (<) (map fst (table_index es))"
  unfolding table_index_def index_keys
  by (rule hd_keys_sorted) (simp_all add: concat_blocks_of blocks_of_nonempty)

lemma map_of_middle:
  fixes key :: "'k::linorder"
  assumes s: "ssorted (P @ B @ Q)" and low: "P = [] \<or> (\<exists>e \<in> set B. fst e \<le> key)"
    and high: "\<And>e. e \<in> set Q \<Longrightarrow> key < fst e"
  shows "map_of (P @ B @ Q) key = map_of B key"
proof -
  have "map_of P key = None"
  proof (cases "P = []")
    case False
    with low obtain e where "e \<in> set B" "fst e \<le> key" by blast
    moreover have "\<forall>x \<in> set (keys P). \<forall>y \<in> set B. x < fst y"
      using s by (simp add: sorted_wrt_append)
    ultimately have "x < key" if "x \<in> set (keys P)" for x
      using that by (blast intro: less_le_trans)
    then show ?thesis by (rule map_of_eq_None_gt)
  qed simp
  moreover have "map_of Q key = None"
    using high by (intro map_of_eq_None_lt) auto
  ultimately show ?thesis by (auto simp: map_add_def split: option.splits)
qed

text \<open>The block the search picks is the only one that can hold the key.\<close>

lemma block_lookup:
  assumes sorted: "ssorted (concat bs)" and ne: "[] \<notin> set bs" and r: "r < length bs"
    and low: "r = 0 \<or> fst (hd (bs ! r)) \<le> key"
    and high: "\<And>j. r < j \<Longrightarrow> j < length bs \<Longrightarrow> key < fst (hd (bs ! j))"
  shows "map_of (concat bs) key = map_of (bs ! r) key"
proof -
  have split: "concat bs = concat (take r bs) @ bs ! r @ concat (drop (Suc r) bs)"
    by (rule concat_take_nth [OF r])
  have hd_in: "hd (bs ! j) \<in> set (bs ! j)" if "j < length bs" for j
    using ne that by (metis hd_in_set nth_mem)
  show ?thesis
    unfolding split
  proof (rule map_of_middle)
    show "ssorted (concat (take r bs) @ bs ! r @ concat (drop (Suc r) bs))"
      using sorted unfolding split .
    show "concat (take r bs) = [] \<or> (\<exists>e \<in> set (bs ! r). fst e \<le> key)"
      using low hd_in [OF r] by (metis concat.simps(1) take_0)
    fix e assume "e \<in> set (concat (drop (Suc r) bs))"
    then obtain b where b: "b \<in> set (drop (Suc r) bs)" "e \<in> set b" by auto
    then obtain j where j: "j < length bs - Suc r" "b = bs ! (Suc r + j)"
      by (auto simp: in_set_conv_nth)
    have "ssorted b"
      using sorted j concat_take_nth [of "Suc r + j" bs] by (simp add: sorted_wrt_append)
    then have "fst (hd b) \<le> fst e" using b(2) by (cases b) (auto intro: less_imp_le)
    moreover have "key < fst (hd b)" using high [of "Suc r + j"] j by simp
    ultimately show "key < fst e" by simp
  qed
qed

section \<open>Opening a written table\<close>

definition table_ok :: "(nat \<Rightarrow> nat) \<Rightarrow> entry list \<Rightarrow> bool" where
  "table_ok fp_bits es \<longleftrightarrow> ssorted es \<and> (\<forall>e \<in> set es. entry_ok e) \<and> length es \<le> uint32_max
     \<and> length (table_bytes fp_bits es) < 2 ^ 63"

definition table_of :: "(nat \<Rightarrow> nat) \<Rightarrow> path \<Rightarrow> entry list \<Rightarrow> sstable" where
  "table_of fp_bits path es =
     \<lparr>sst_path = path, sst_fd = Some (table_bytes fp_bits es), sst_index = table_index es,
      sst_bloom = Some (table_bloom fp_bits es),
      smallestKey = (if es = [] then [] else fst (hd es)),
      largestKey = (if es = [] then [] else fst (last es)),
      sst_file_size = length (table_bytes fp_bits es), indexOffset = length (data_bytes es)\<rparr>"

lemma table_of_sel [simp]:
  "sst_path (table_of fp path es) = path" "sst_fd (table_of fp path es) = Some (table_bytes fp es)"
  "sst_index (table_of fp path es) = table_index es" "sst_bloom (table_of fp path es) = Some (table_bloom fp es)"
  "sst_file_size (table_of fp path es) = length (table_bytes fp es)"
  "indexOffset (table_of fp path es) = length (data_bytes es)"
  by (simp_all add: table_of_def)

lemma bloom_ok_table [simp]: "bloom_ok (table_bloom fp_bits es)"
  by (simp add: table_bloom_def bloom.ok_fold)

lemma num_hashes_table: "num_hashes (table_bloom fp_bits es) = 8"
proof -
  have "num_hashes (fold bloom_insert ks bf) = num_hashes bf" for ks bf
    by (induction ks arbitrary: bf) (auto simp: bloom_insert_def Let_def case_prod_unfold)
  then show ?thesis by (simp add: table_bloom_def mk_bloom_def Let_def)
qed

lemma entry_size_le_data: "e \<in> set es \<Longrightarrow> entry_size e \<le> length (data_bytes es)"
  by (induction es) (auto simp: length_entry_bytes)

lemma entries_ok_table: "table_ok fp_bits es \<Longrightarrow> entries_ok (length (table_bytes fp_bits es)) es"
  using entry_size_le_data [of _ es]
  by (force simp: entries_ok_def table_ok_def table_bytes_def Let_def entry_size_eq)

lemma index_key_in: "i \<in> set (table_index es) \<Longrightarrow> \<exists>e \<in> set es. fst i = fst e"
  using index_from_keys [OF blocks_of_nonempty, of 0 es] by (auto simp: table_index_def concat_blocks_of)

lemma index_offset_le:
  assumes "i \<in> set (table_index es)"
  shows "snd i < length (data_bytes es)"
proof -
  obtain n where n: "n < length (blocks_of es)" "i = index_from 0 (blocks_of es) ! n"
    using assms by (auto simp: table_index_def in_set_conv_nth)
  have "blocks_of es ! n \<noteq> []" using n(1) blocks_of_nonempty [of es] by (metis nth_mem)
  then have "0 < length (data_bytes (blocks_of es ! n))"
    by (cases "blocks_of es ! n") (auto simp: length_entry_bytes entry_size_def)
  moreover have "data_bytes es = data_bytes (concat (take n (blocks_of es))) @ data_bytes (blocks_of es ! n)
      @ data_bytes (concat (drop (Suc n) (blocks_of es)))"
    using concat_take_nth [OF n(1)] by (metis concat_blocks_of data_bytes_simps(3))
  ultimately show ?thesis using n by (simp add: index_from_nth)
qed

lemma table_bytes_layout:
  "table_bytes fp es = data_bytes es @ le_enc 4 (length (table_index es)) @ index_bytes (table_index es)
     @ bloom_bytes (table_bloom fp es) @ le_enc 8 (length (data_bytes es))
     @ le_enc 8 (length (data_bytes es) + (4 + length (index_bytes (table_index es))))"
  by (simp add: table_bytes_def Let_def)

definition stream_over :: "bytes \<Rightarrow> ifs \<Rightarrow> bool" where
  "stream_over T s \<longleftrightarrow> ifs_good s \<and> ifs_data s = T"

lemma stream_over_open [simp]: "stream_over T (ifs_open T)"
  by (simp add: stream_over_def ifs_open_def ifs_good_def)

lemma stream_over_skip [simp]: "stream_over T (skip_to n s) = stream_over T s"
  by (simp add: stream_over_def)

lemma seek_at:
  assumes "stream_over T s" "T = A @ B" "length A = n" "n < 2 ^ 63"
  shows "at_bytes (ifs_seekg n s) B" "stream_over T (ifs_seekg n s)" "ifs_pos (ifs_seekg n s) = n"
  using assms by (simp_all add: ifs_seekg_good at_bytes_def ifs_good_def stream_over_def)

lemma index_bytes_length: "12 * length is \<le> length (index_bytes is)"
  by (induction "is") auto

text \<open>The block the last index entry points at starts the tail of the data region the constructor
  scans for the largest key.\<close>

lemma last_block:
  assumes "es \<noteq> []"
  obtains xs b where "es = xs @ b" "b \<noteq> []" "snd (last (table_index es)) = length (data_bytes xs)"
proof -
  let ?bs = "blocks_of es" and ?n = "length (blocks_of es) - 1"
  have n: "?n < length ?bs" using assms by (simp add: Suc_le_eq)
  have ne: "table_index es \<noteq> []" using assms by (cases es) (auto simp: table_index_def split: prod.splits)
  have "last (table_index es) = index_from 0 ?bs ! ?n"
    using ne by (simp add: last_conv_nth table_index_def)
  then have "snd (last (table_index es)) = length (data_bytes (concat (take ?n ?bs)))"
    using n by (simp add: index_from_nth)
  moreover have "es = concat (take ?n ?bs) @ ?bs ! ?n"
    using concat_take_nth [OF n] n by (simp add: concat_blocks_of)
  moreover have "?bs ! ?n \<noteq> []" using n blocks_of_nonempty [of es] by (metis nth_mem)
  ultimately show thesis using that by metis
qed

abbreviation bloom_offset :: "entry list \<Rightarrow> nat" where
  "bloom_offset es \<equiv> length (data_bytes es) + (4 + length (index_bytes (table_index es)))"

lemma table_ok_bounds:
  assumes "table_ok fp es"
  shows "length (data_bytes es) < 2 ^ 63" "bloom_offset es < 2 ^ 63" "length (table_bytes fp es) - 16 < 2 ^ 63"
    and "length (data_bytes es) \<le> uint64_max" "bloom_offset es \<le> uint64_max"
    and "length (table_index es) \<le> uint32_max" "bloom_offset es + length (bloom_bytes (table_bloom fp es)) + 16 = length (table_bytes fp es)"
proof -
  have small: "length (table_bytes fp es) < 2 ^ 63" using assms by (simp add: table_ok_def)
  show len: "bloom_offset es + length (bloom_bytes (table_bloom fp es)) + 16 = length (table_bytes fp es)"
    by (simp add: table_bytes_layout)
  show *: "length (data_bytes es) < 2 ^ 63" "bloom_offset es < 2 ^ 63" "length (table_bytes fp es) - 16 < 2 ^ 63"
    using small len by linarith+
  then show "length (data_bytes es) \<le> uint64_max" "bloom_offset es \<le> uint64_max" by simp_all
  show "length (table_index es) \<le> uint32_max"
    using assms length_table_index [of es] by (simp add: table_ok_def)
qed

lemma open_footer:
  assumes ok: "table_ok fp es"
  defines "T \<equiv> table_bytes fp es"
  shows "\<exists>s1 s. readUint64 (ifs_seekg (length T - 16) (ifs_open T)) = (length (data_bytes es), s1)
           \<and> readUint64 s1 = (bloom_offset es, s) \<and> stream_over T s"
proof -
  note b = table_ok_bounds [OF ok, folded T_def]
  let ?foot = "le_enc 8 (length (data_bytes es)) @ le_enc 8 (bloom_offset es)"
  have T: "T = (data_bytes es @ le_enc 4 (length (table_index es)) @ index_bytes (table_index es)
      @ bloom_bytes (table_bloom fp es)) @ ?foot"
    by (simp add: T_def table_bytes_layout)
  have at: "at_bytes (ifs_seekg (length T - 16) (ifs_open T)) ?foot" "stream_over T (ifs_seekg (length T - 16) (ifs_open T))"
    using seek_at [OF stream_over_open T _ b(3)] T by simp_all
  have at2: "at_bytes (skip_to 8 (ifs_seekg (length T - 16) (ifs_open T))) (le_enc 8 (bloom_offset es) @ [])"
    using at_bytes_skip [OF at(1), of 8] by simp
  show ?thesis
    using readUint64_at [OF at(1) b(4)] readUint64_at [OF at2 b(5)] at(2) by simp
qed

lemma open_index:
  assumes ok: "table_ok fp es" and s: "stream_over T s" and T_def: "T = table_bytes fp es"
  shows "\<exists>s1 s2. readUint32 (ifs_seekg (length (data_bytes es)) s) = (length (table_index es), s1)
     \<and> read_index (length (table_index es)) (length T) s1 = Inr (table_index es, s2) \<and> stream_over T s2"
proof -
  let ?r = "bloom_bytes (table_bloom fp es) @ le_enc 8 (length (data_bytes es)) @ le_enc 8 (bloom_offset es)"
  note b = table_ok_bounds [OF ok]
  have T: "T = data_bytes es @ le_enc 4 (length (table_index es)) @ index_bytes (table_index es) @ ?r"
    by (simp add: T_def table_bytes_layout)
  note at = seek_at [OF s T refl b(1)]
  have at2: "at_bytes (skip_to 4 (ifs_seekg (length (data_bytes es)) s)) (index_bytes (table_index es) @ ?r)"
    using at_bytes_skip [OF at(1), of 4] by simp
  have "length (fst i) \<le> uint32_max \<and> length (fst i) \<le> length T \<and> snd i \<le> uint64_max"
    if "i \<in> set (table_index es)" for i
    using index_key_in [OF that] index_offset_le [OF that] entries_ok_table [OF ok] b(4)
    by (auto simp: entries_ok_def entry_ok_def T_def)
  then show ?thesis
    using readUint32_at [OF at(1) b(6)] read_index_at [OF at2] at(2) by simp
qed

lemma open_bloom:
  assumes ok: "table_ok fp es" and s: "stream_over T s" and T_def: "T = table_bytes fp es"
  shows "\<exists>s2. deserializeBloom (ifs_seekg (bloom_offset es) s) = Inr (table_bloom fp es, s2) \<and> stream_over T s2"
proof -
  let ?foot = "le_enc 8 (length (data_bytes es)) @ le_enc 8 (bloom_offset es)"
  note b = table_ok_bounds [OF ok]
  have T: "T = (data_bytes es @ le_enc 4 (length (table_index es)) @ index_bytes (table_index es))
      @ bloom_bytes (table_bloom fp es) @ ?foot"
    by (simp add: T_def table_bytes_layout)
  note at = seek_at [OF s T _ b(2), simplified]
  have "length T < 2 ^ 63" using ok by (simp add: table_ok_def T_def)
  then show ?thesis
    using deserializeBloom_at [OF at(1)] at(2) by (auto simp: num_hashes_table stream_over_def)
qed

lemma open_largest:
  assumes ok: "table_ok fp es" and s: "stream_over T s" and T_def: "T = table_bytes fp es" and ne: "es \<noteq> []"
  shows "last_entry (length (data_bytes es)) (length T) e0 (ifs_seekg (snd (last (table_index es))) s) = Inr (last es)"
proof -
  obtain xs b where xb: "es = xs @ b" "b \<noteq> []" "snd (last (table_index es)) = length (data_bytes xs)"
    by (rule last_block [OF ne])
  define r where "r = le_enc 4 (length (table_index es)) @ index_bytes (table_index es)
     @ bloom_bytes (table_bloom fp es) @ le_enc 8 (length (data_bytes es)) @ le_enc 8 (bloom_offset es)"
  have T: "T = data_bytes xs @ data_bytes b @ r"
    unfolding T_def table_bytes_layout r_def by (simp add: xb(1))
  have "length (data_bytes xs) < 2 ^ 63" using table_ok_bounds(1) [OF ok] xb(1) by simp
  note at = seek_at [OF s T refl this]
  have "entries_ok (length T) b" using entries_ok_table [OF ok] by (simp add: entries_ok_def xb(1) T_def)
  then show ?thesis
    using last_entry_at [OF at(1), of _ "length (data_bytes es)" e0] at(3) xb by simp
qed

lemma sst_open_table:
  assumes fs: "fs path = Some (table_bytes fp es)" and ok: "table_ok fp es"
  shows "sst_open True True fs path = Inr (table_of fp path es)"
proof -
  let ?T = "table_bytes fp es"
  note b = table_ok_bounds [OF ok]
  obtain s1 s where f: "readUint64 (ifs_seekg (length ?T - 16) (ifs_open ?T)) = (length (data_bytes es), s1)"
      "readUint64 s1 = (bloom_offset es, s)" "stream_over ?T s"
    using open_footer [OF ok] by auto
  obtain s2 s3 where i: "readUint32 (ifs_seekg (length (data_bytes es)) s) = (length (table_index es), s2)"
      "read_index (length (table_index es)) (length ?T) s2 = Inr (table_index es, s3)" "stream_over ?T s3"
    using open_index [OF ok f(3) refl] by auto
  obtain s4 where bl: "deserializeBloom (ifs_seekg (bloom_offset es) s3) = Inr (table_bloom fp es, s4)" "stream_over ?T s4"
    using open_bloom [OF ok i(3) refl] by auto
  have checks: "\<not> length ?T < 16" "\<not> length (data_bytes es) > length ?T" "\<not> bloom_offset es > length ?T"
      "\<not> length (data_bytes es) > bloom_offset es"
    using b(7) by linarith+
  have room: "\<not> length (table_index es) > (bloom_offset es - length (data_bytes es) - 4) div 12"
    using index_bytes_length [of "table_index es"] by simp
  have empty: "table_index es = [] \<longleftrightarrow> es = []"
    by (metis blocks_of_eq_Nil length_index_from length_0_conv table_index_def)
  have first: "es \<noteq> [] \<Longrightarrow> fst (hd (table_index es)) = fst (hd es)"
    by (cases es) (auto simp: table_index_def split: prod.splits)
  show ?thesis
    using open_largest [OF ok bl(2) refl] checks room
    by (simp add: sst_open_def fs f i bl Let_def table_of_def empty first)
qed

section \<open>Lookups\<close>

text \<open>The blocks a table's file holds, by offset: what a cache may answer for it.\<close>

definition table_blocks :: "entry list \<Rightarrow> nat \<rightharpoonup> entry list" where
  "table_blocks es = map_of (zip (map snd (table_index es)) (blocks_of es))"

lemma data_bytes_pos: "b \<noteq> [] \<Longrightarrow> 0 < length (data_bytes b)"
  by (cases b) (auto simp: length_entry_bytes entry_size_def)

lemma index_offsets_sorted:
  "[] \<notin> set bs \<Longrightarrow> sorted_wrt (<) (map snd (index_from off bs)) \<and> (\<forall>i \<in> set (index_from off bs). off \<le> snd i)"
proof (induction bs arbitrary: off)
  case (Cons b bs)
  have pos: "0 < length (data_bytes b)" and ne: "[] \<notin> set bs"
    using Cons.prems by (auto intro!: data_bytes_pos simp del: length_greater_0_conv)
  note IH = Cons.IH [OF ne, of "off + length (data_bytes b)"]
  then have "off < snd i" if "i \<in> set (index_from (off + length (data_bytes b)) bs)" for i
    using bspec [OF conjunct2 [OF IH] that] pos by linarith
  with IH show ?case by (auto intro: less_imp_le)
qed simp

lemma table_blocks_nth:
  assumes "i < length (blocks_of es)"
  shows "table_blocks es (snd (table_index es ! i)) = Some (blocks_of es ! i)"
proof -
  have "distinct (map snd (table_index es))"
    using index_offsets_sorted [OF blocks_of_nonempty, of 0 es] by (auto simp: table_index_def strict_sorted_iff)
  moreover have "length (table_index es) = length (blocks_of es)" by (simp add: table_index_def)
  ultimately show ?thesis
    using assms map_of_zip_nth [of "map snd (table_index es)" "blocks_of es" i] by (simp add: table_blocks_def)
qed

text \<open>The bytes between two index offsets are exactly one block.\<close>

lemma block_region:
  assumes "i < length (blocks_of es)"
  defines "start \<equiv> snd (table_index es ! i)"
    and "stop \<equiv> (if i + 1 < length (table_index es) then snd (table_index es ! (i + 1)) else length (data_bytes es))"
  shows "stop - start = length (data_bytes (blocks_of es ! i))" "start < stop"
    and "take (stop - start) (drop start (table_bytes fp es)) = data_bytes (blocks_of es ! i)"
proof -
  let ?bs = "blocks_of es"
  let ?P = "concat (take i ?bs)" and ?Q = "concat (drop (Suc i) ?bs)"
  have es: "es = ?P @ ?bs ! i @ ?Q" using concat_take_nth [OF assms(1)] by (simp add: concat_blocks_of)
  have start: "start = length (data_bytes ?P)"
    using assms(1) by (simp add: start_def table_index_def index_from_nth)
  have stop: "stop = length (data_bytes ?P) + length (data_bytes (?bs ! i))"
  proof (cases "i + 1 < length ?bs")
    case True
    then show ?thesis
      using assms(1) by (simp add: stop_def table_index_def index_from_nth take_Suc_conv_app_nth)
  next
    case False
    then have "?Q = []" by simp
    then show ?thesis using False es by (simp add: stop_def table_index_def) (metis append_Nil2 data_bytes_simps(3) length_append)
  qed
  show 1: "stop - start = length (data_bytes (?bs ! i))" by (simp add: start stop)
  have "?bs ! i \<noteq> []" using assms(1) blocks_of_nonempty [of es] by (metis nth_mem)
  then show "start < stop" using data_bytes_pos by (simp add: start stop)
  have "\<exists>r. table_bytes fp es = data_bytes ?P @ data_bytes (?bs ! i) @ r"
    unfolding table_bytes_layout by (subst (1) es) simp
  then show "take (stop - start) (drop start (table_bytes fp es)) = data_bytes (?bs ! i)"
    by (auto simp: start stop)
qed

lemma prefix_full: "prefix xs ys \<Longrightarrow> length ys \<le> length xs \<Longrightarrow> xs = ys"
  by (auto simp: prefix_def)

definition get_result :: "entry list \<Rightarrow> bytes \<Rightarrow> sst_error + bytes option option \<Rightarrow> bool" where
  "get_result es key r \<longleftrightarrow> r = Inr (map_of es key) \<or> r = Inl PreadError \<or> r = Inl ShortPread"

text \<open>The index search leads to the block that decides the lookup.\<close>

lemma lookup_block:
  assumes sorted: "ssorted es" and ne: "es \<noteq> []"
    and lo_def: "lo = search_index (table_index es) key 0 (length (table_index es) - 1)"
  shows "lo < length (blocks_of es)" "map_of es key = scan_entries key (blocks_of es ! lo)"
proof -
  let ?bs = "blocks_of es" and ?I = "table_index es"
  have len: "length ?I = length ?bs" by (simp add: table_index_def)
  have pos: "0 < length ?bs" using ne by simp
  have spec: "lo \<le> length ?bs - 1" "lo = 0 \<or> fst (?I ! lo) \<le> key"
      "\<And>j. lo < j \<Longrightarrow> j \<le> length ?bs - 1 \<Longrightarrow> key < fst (?I ! j)"
    using search_index_spec [of 0 "length ?I - 1" ?I key, folded lo_def, OF _ _ index_sorted [OF sorted]] pos len
    by auto
  show lo: "lo < length ?bs" using spec(1) pos by linarith
  have key_of: "fst (?I ! j) = fst (hd (?bs ! j))" if "j < length ?bs" for j
    using that by (simp add: table_index_def index_from_nth)
  have "map_of (concat ?bs) key = map_of (?bs ! lo) key"
  proof (rule block_lookup [OF _ blocks_of_nonempty lo])
    show "ssorted (concat ?bs)" using sorted by (simp add: concat_blocks_of)
    show "lo = 0 \<or> fst (hd (?bs ! lo)) \<le> key" using spec(2) key_of [OF lo] by simp
    show "key < fst (hd (?bs ! j))" if "lo < j" "j < length ?bs" for j
      using spec(3) [of j] that key_of by simp
  qed
  moreover have "ssorted (concat (take lo ?bs) @ ?bs ! lo @ concat (drop (Suc lo) ?bs))"
    using sorted by (subst concat_take_nth [OF lo, symmetric]) (simp add: concat_blocks_of)
  then have "ssorted (?bs ! lo)" by (simp add: sorted_wrt_append)
  ultimately show "map_of es key = scan_entries key (?bs ! lo)"
    by (simp add: scan_entries_map_of concat_blocks_of)
qed

lemma bloom_negative:
  "\<not> mayContain (table_bloom fp es) key \<Longrightarrow> map_of es key = None"
  using bloom.mem_fold [OF bloom_ok_mk, of key "map fst es"]
  by (auto simp: table_bloom_def map_of_eq_None_iff)

lemma sst_get_table:
  assumes ok: "table_ok fp es" and coh: "cache_coherent src c"
    and src: "\<And>off. src (path, off) = table_blocks es off" and pread: "pread_ok pread"
    and get: "sst_get sz pread (table_of fp path es) key c = (r, c')"
  shows "get_result es key r \<and> cache_coherent src c' \<and> (pread = pread_full \<longrightarrow> r = Inr (map_of es key))"
proof (cases "mayContain (table_bloom fp es) key \<and> es \<noteq> []")
  case False
  then have "map_of es key = None" using bloom_negative by auto
  moreover have "r = Inr None \<and> c' = c"
    using get False by (auto simp: sst_get_def table_of_def table_index_def split: if_split_asm)
  ultimately show ?thesis using coh by (simp add: get_result_def)
next
  case True
  let ?bs = "blocks_of es" and ?I = "table_index es"
  have sorted: "ssorted es" and entries: "\<forall>e \<in> set es. entry_ok e" using ok by (auto simp: table_ok_def)
  define lo where "lo = search_index ?I key 0 (length ?I - 1)"
  define start where "start = snd (?I ! lo)"
  define stop where "stop = (if lo + 1 < length ?I then snd (?I ! (lo + 1)) else length (data_bytes es))"
  have I_ne: "?I \<noteq> []" using True by (metis blocks_of_eq_Nil length_index_from length_0_conv table_index_def)
  have lo_less: "lo < length ?bs" and result: "map_of es key = scan_entries key (?bs ! lo)"
    using lookup_block [OF sorted _ lo_def] True by auto
  note region = block_region [OF lo_less, folded start_def stop_def]
  have src_lo: "src (path, start) = Some (?bs ! lo)"
    using src table_blocks_nth [OF lo_less] by (simp add: start_def)
  have "\<forall>e \<in> set (?bs ! lo). entry_ok e"
    using entries lo_less by (metis UN_I concat_blocks_of nth_mem set_concat)
  note parse = parse_data_bytes [OF this]
  obtain hit c1 where hit: "cache_get path start c = (hit, c1)" by fastforce
  have coh1: "cache_coherent src c1" using lru.coherent_get [OF coh, of path start] hit by simp
  have get': "sst_get sz pread (table_of fp path es) key c =
      (case hit of Some es \<Rightarrow> (Inr (scan_entries key es), c1)
       | None \<Rightarrow> (case pread (stop - start) start (table_bytes fp es) of
            None \<Rightarrow> (Inl PreadError, c1)
          | Some buf \<Rightarrow> if length buf < stop - start then (Inl ShortPread, c1)
              else (Inr (scan_entries key (parseBlockEntries buf)),
                    cache_put sz path start (parseBlockEntries buf) c1)))"
    unfolding sst_get_def table_of_sel Let_def lo_def [symmetric] start_def [symmetric] stop_def [symmetric] hit
    using True I_ne region(2) by (simp split: option.splits)
  show ?thesis
  proof (cases hit)
    case (Some b)
    then have "b = ?bs ! lo" using lru.coherent_hit [OF coh, of path start b] hit src_lo by simp
    then show ?thesis using get get' Some coh1 result by (auto simp: get_result_def)
  next
    case None
    have full: "buf = data_bytes (?bs ! lo)"
      if "pread (stop - start) start (table_bytes fp es) = Some buf" "\<not> length buf < stop - start" for buf
      using pread that region(1,3) unfolding pread_ok_def by (metis not_less prefix_full)
    have put: "cache_coherent src (cache_put sz path start (?bs ! lo) c1)"
      by (rule lru.coherent_put [OF coh1 src_lo])
    show ?thesis
      using get get' None coh1 put result full parse region(1,3)
      by (auto simp: get_result_def pread_full_def split: option.splits if_split_asm)
  qed
qed

section \<open>Scans\<close>

lemma dropWhile_sorted: "ssorted es \<Longrightarrow> dropWhile (\<lambda>e. fst e < k) es = filter (\<lambda>e. k \<le> fst e) es"
proof (induction es)
  case (Cons e es)
  then show ?case by (auto simp: not_less intro!: filter_True [symmetric] intro: order_trans less_imp_le)
qed simp

lemma mk_iter_at:
  assumes ok: "table_ok fp es" and fs: "fs path = Some (table_bytes fp es)" and split: "es = xs @ ys"
  shows "iter_at (mk_sst_iter fs path (length (data_bytes es)) (length (data_bytes xs))) ys"
proof -
  define r where "r = le_enc 4 (length (table_index es)) @ index_bytes (table_index es)
     @ bloom_bytes (table_bloom fp es) @ le_enc 8 (length (data_bytes es)) @ le_enc 8 (bloom_offset es)"
  have T: "table_bytes fp es = data_bytes xs @ data_bytes ys @ r"
    unfolding table_bytes_layout r_def by (simp add: split)
  have "length (data_bytes xs) < 2 ^ 63" using table_ok_bounds(1) [OF ok] split by simp
  note at = seek_at [OF stream_over_open T refl this]
  let ?s = "if length (data_bytes xs) > 0 then ifs_seekg (length (data_bytes xs)) (ifs_open (table_bytes fp es))
            else ifs_open (table_bytes fp es)"
  have at': "at_bytes ?s (data_bytes ys @ r) \<and> ifs_pos ?s = length (data_bytes xs)"
  proof (cases "length (data_bytes xs) > 0")
    case False
    then have "data_bytes xs = []" by simp
    then show ?thesis using T by (simp add: ifs_open_def at_bytes_def ifs_good_def)
  qed (use at in simp)
  have "mk_sst_iter fs path (length (data_bytes es)) (length (data_bytes xs))
      = sst_advance \<lparr>it_in = Some ?s, it_end = length (data_bytes es), it_current = None\<rparr>"
    by (simp add: mk_sst_iter_def fs)
  moreover have "iter_at (sst_advance \<lparr>it_in = Some ?s, it_end = length (data_bytes es), it_current = None\<rparr>) ys"
    using at' ok split by (intro conjunct1 [OF advance_at]) (auto simp: table_ok_def)
  ultimately show ?thesis by simp
qed

text \<open>The block \<open>findBlock\<close> picks starts at or before the first entry not below the key.\<close>

lemma findBlock_split:
  assumes sorted: "ssorted es"
  obtains xs ys where "es = xs @ ys" "findBlock (table_of fp path es) k = length (data_bytes xs)"
    "\<And>e. e \<in> set xs \<Longrightarrow> fst e < k"
proof (cases "es = []")
  case True
  then show thesis using that [of "[]" es] by (simp add: findBlock_def table_index_def)
next
  case False
  let ?bs = "blocks_of es" and ?I = "table_index es"
  define lo where "lo = search_index ?I k 0 (length ?I - 1)"
  have lo: "lo < length ?bs" by (rule lookup_block(1) [OF sorted False lo_def])
  have I_ne: "?I \<noteq> []" using False by (metis blocks_of_eq_Nil length_index_from length_0_conv table_index_def)
  let ?xs = "concat (take lo ?bs)" and ?ys = "?bs ! lo @ concat (drop (Suc lo) ?bs)"
  have es: "es = ?xs @ ?ys" using concat_take_nth [OF lo] by (simp add: concat_blocks_of)
  have "findBlock (table_of fp path es) k = length (data_bytes ?xs)"
    unfolding findBlock_def table_of_sel lo_def [symmetric]
    using I_ne lo by (simp add: table_index_def index_from_nth)
  moreover have "fst e < k" if e: "e \<in> set ?xs" for e
  proof -
    have "lo \<noteq> 0" using e by (cases "lo = 0") auto
    then have le: "fst (?I ! lo) \<le> k"
      using search_index_spec [of 0 "length ?I - 1" ?I k, folded lo_def, OF _ _ index_sorted [OF sorted]] I_ne by auto
    have "?bs ! lo \<noteq> []" using lo blocks_of_nonempty [of es] by (metis nth_mem)
    then have hd: "hd (?bs ! lo) \<in> set ?ys" by simp
    have "ssorted (?xs @ ?ys)" using sorted by (subst es [symmetric])
    then have "fst e < fst (hd (?bs ! lo))" using e hd by (rule ssorted_appendD)
    also have "\<dots> \<le> k" using le lo by (simp add: table_index_def index_from_nth)
    finally show ?thesis .
  qed
  ultimately show thesis using that es by blast
qed

lemma createIterator_from_at:
  assumes ok: "table_ok fp es" and fs: "fs path = Some (table_bytes fp es)"
  shows "iter_at (createIterator_from fs (table_of fp path es) k) (filter (\<lambda>e. k \<le> fst e) es)"
proof -
  have sorted: "ssorted es" and e_ok: "\<forall>e \<in> set es. entry_ok e" using ok by (auto simp: table_ok_def)
  obtain xs ys where xy: "es = xs @ ys" "findBlock (table_of fp path es) k = length (data_bytes xs)"
      "\<And>e. e \<in> set xs \<Longrightarrow> fst e < k"
    by (rule findBlock_split [OF sorted, of fp path k]) blast
  have "filter (\<lambda>e. k \<le> fst e) xs = []" using xy(3) by (auto simp: filter_empty_conv not_le)
  moreover have "ssorted ys" using sorted xy(1) by (simp add: sorted_wrt_append)
  ultimately have "filter (\<lambda>e. k \<le> fst e) es = dropWhile (\<lambda>e. fst e < k) ys"
    by (simp add: xy(1) dropWhile_sorted)
  moreover have "iter_at (mk_sst_iter fs path (length (data_bytes es)) (length (data_bytes xs))) ys"
    by (rule mk_iter_at) (use ok fs xy(1) in simp_all)
  moreover have "\<forall>e \<in> set ys. entry_ok e" using e_ok xy(1) by simp
  ultimately show ?thesis
    unfolding createIterator_from_def xy(2) table_of_sel using skip_below_at by simp
qed

lemma createIterator_at:
  "table_ok fp es \<Longrightarrow> fs path = Some (table_bytes fp es) \<Longrightarrow> iter_at (createIterator fs (table_of fp path es)) es"
  using mk_iter_at [of fp es fs path "[]" es] by (simp add: createIterator_def)

lemma footer_stream:
  assumes ok: "table_ok fp es" and T_def: "T = table_bytes fp es"
  shows "\<exists>s1. readUint64 (ifs_seekg (length T - 16) (ifs_open T)) = (length (data_bytes es), s1) \<and> stream_over T s1"
proof -
  obtain s1 s where f: "readUint64 (ifs_seekg (length T - 16) (ifs_open T)) = (length (data_bytes es), s1)"
      "readUint64 s1 = (bloom_offset es, s)" "stream_over T s"
    using open_footer [OF ok] T_def by auto
  have "s = snd (ifs_read 8 s1)" using f(2) by (auto simp: readUint64_def split: prod.splits)
  then show ?thesis
    using f(1,3) ifs_read_progress [of 8 s1] by (auto simp: stream_over_def)
qed

lemma readAll_table:
  assumes ok: "table_ok fp es" and fs: "fs path = Some (table_bytes fp es)"
  shows "readAll fs (table_of fp path es) = Inr es"
proof -
  let ?T = "table_bytes fp es"
  obtain s1 where f: "readUint64 (ifs_seekg (length ?T - 16) (ifs_open ?T)) = (length (data_bytes es), s1)"
      "stream_over ?T s1"
    using footer_stream [OF ok refl] by auto
  from seek_at [OF f(2), of "[]" ?T 0] have at: "at_bytes (ifs_seekg 0 s1) ?T" "ifs_pos (ifs_seekg 0 s1) = 0"
    by simp_all
  have "16 \<le> length ?T" using table_ok_bounds(7) [OF ok] by linarith
  then show ?thesis
    using fs f(1) at read_entries_at [of "ifs_seekg 0 s1" es _ "length ?T" "length (data_bytes es)"] entries_ok_table [OF ok]
    by (simp add: readAll_def table_bytes_layout)
qed

section \<open>Untrusted files\<close>

lemma ifs_read_length: "length (fst (ifs_read n s)) \<le> n"
  by (simp add: ifs_read_def Let_def)

lemma readString_bounds:
  assumes "readString m s = Inr (v, s')"
  shows "length v \<le> m \<and> ifs_data s' = ifs_data s"
proof -
  obtain bs s1 where r: "ifs_read 4 s = (bs, s1)" by fastforce
  obtain d s2 where r2: "ifs_read (le_dec bs) s1 = (d, s2)" by fastforce
  have "s' = s2" "v = pad_to (le_dec bs) d" "le_dec bs \<le> m"
    using assms by (auto simp: readString_def readUint32_def r r2 split: if_split_asm)
  then show ?thesis
    using ifs_read_length [of "le_dec bs" s1] ifs_read_data [of 4 s] ifs_read_data [of "le_dec bs" s1]
    by (simp add: r r2 pad_to_def)
qed

lemma readUint_data [simp]: "ifs_data (snd (readUint32 s)) = ifs_data s" "ifs_data (snd (readUint64 s)) = ifs_data s"
  by (simp_all add: readUint32_def readUint64_def case_prod_unfold)

lemma ifs_seekg_data [simp]: "ifs_data (ifs_seekg p s) = ifs_data s"
  by (simp add: ifs_seekg_def Let_def)

lemma read_index_bounds:
  "read_index n m s = Inr (is, s') \<Longrightarrow>
   length is = n \<and> (\<forall>i \<in> set is. length (fst i) \<le> m) \<and> ifs_data s' = ifs_data s"
proof (induction n m s arbitrary: "is" s' rule: read_index.induct)
  case (2 n m s)
  show ?case
  proof (cases "readString m s")
    case (Inr p)
    obtain key s1 where p: "p = (key, s1)" by fastforce
    obtain off s2 where u: "readUint64 s1 = (off, s2)" by fastforce
    obtain i' where i: "read_index n m s2 = Inr (i', s')" "is = (key, off) # i'"
      using 2(2) Inr p u by (auto split: sum.splits)
    have "length i' = n \<and> (\<forall>i \<in> set i'. length (fst i) \<le> m) \<and> ifs_data s' = ifs_data s2"
      using 2(1) [OF Inr p [symmetric] u [symmetric] i(1)] .
    then show ?thesis
      using readString_bounds [of m s key s1] Inr p i(2) readUint_data(2) [of s1] u by simp
  qed (use 2(2) in simp)
qed simp

lemma deserializeBloom_bounds:
  assumes "deserializeBloom s = Inr (bf, s')" "length (ifs_data s) < 2 ^ 63"
  shows "bloom_ok bf \<and> 64 * num_blocks bf \<le> max 64 (length (ifs_data s))"
proof -
  obtain nh s1 where r1: "ifs_read 8 s = (nh, s1)" by fastforce
  obtain nb s2 where r2: "ifs_read 8 s1 = (nb, s2)" by fastforce
  have "length nb = 8"
    using assms(1) r1 r2 by (auto simp: deserializeBloom_def ifs_read_def Let_def split: if_split_asm)
  then have s2: "s2 = skip_to 16 s" "ifs_good s"
    using r1 r2 by (auto simp: ifs_read_def ifs_good_def skip_to_def Let_def split: if_split_asm)
  have "le_dec nb * 64 \<le> length (ifs_data s)"
    using assms r1 r2 s2
    by (auto simp: deserializeBloom_def ifs_tellg_good ifs_seekg_good Let_def ifs_tellg_def ifs_good_def
        split: if_split_asm prod.splits)
  moreover have "\<exists>data. bf = deserialize (le_dec nb) (le_dec nh) data"
    using assms(1) r1 r2 by (auto simp: deserializeBloom_def Let_def split: if_split_asm prod.splits)
  then obtain data where bf: "bf = deserialize (le_dec nb) (le_dec nh) data" ..
  moreover have "num_blocks bf = (if le_dec nb = 0 then 1 else le_dec nb)"
    by (simp add: bf deserialize_def Let_def)
  ultimately show ?thesis by simp
qed

section \<open>Properties\<close>

lemma num_blocks_table: "num_blocks (table_bloom fp es) = num_blocks (mk_bloom fp (max (length es) 1))"
proof -
  have "num_blocks (fold bloom_insert ks bf) = num_blocks bf" for ks bf
    by (induction ks arbitrary: bf) (auto simp: bloom_insert_def Let_def case_prod_unfold)
  then show ?thesis by (simp add: table_bloom_def)
qed

lemma ex_table_ok: "table_ok (\<lambda>n. 10 * n) ex_entries"
proof -
  have "length (table_bytes (\<lambda>n. 10 * n) ex_entries) < 2 ^ 63"
    using length_serialize [OF bloom_ok_table, of "\<lambda>n. 10 * n" ex_entries]
    by (simp add: table_bytes_layout bloom_bytes_def num_blocks_table mk_bloom_def ex_entries_def
        length_entry_bytes entry_size_def table_index_def target_block_size_def)
  then show ?thesis by (simp add: table_ok_def ex_entries_ok)
qed

text \<open>C18. Write, then read: once \<open>SSTable::write\<close> has returned for entries the format can hold, opening the
  path succeeds, the table knows its first and last key, and \<open>readAll\<close>, the iterator and the iterator
  positioned at any key deliver exactly the entries (from that key on), in order.\<close>

theorem sst_write_read_roundtrip:
  assumes "sst_write fp io path es = (ops, None)" "table_ok fp es" "fs' = run_ops ops fs"
  shows "\<exists>t. sst_open True True fs' path = Inr t
    \<and> (es \<noteq> [] \<longrightarrow> smallestKey t = fst (hd es) \<and> largestKey t = fst (last es))
    \<and> readAll fs' t = Inr es
    \<and> it_entries (createIterator fs' t) = es
    \<and> (\<forall>k. it_entries (createIterator_from fs' t k) = filter (\<lambda>e. k \<le> fst e) es)"
proof -
  have e_ok: "\<forall>e \<in> set es. entry_ok e" "length es \<le> uint32_max" using assms(2) by (auto simp: table_ok_def)
  have fs [simp]: "fs' path = Some (table_bytes fp es)"
    using sst_write_success_ops(2) [OF assms(1), of fs] render_table_ok [OF e_ok, of fp] assms(3) by auto
  note op = sst_open_table [of fs' path fp es, OF fs assms(2)]
  have "it_entries (createIterator fs' (table_of fp path es)) = es"
    using createIterator_at [where fs = fs' and path = path, OF assms(2)] by (intro it_entries_at e_ok) simp
  moreover have "it_entries (createIterator_from fs' (table_of fp path es) k) = filter (\<lambda>e. k \<le> fst e) es" for k
    using createIterator_from_at [where fs = fs' and path = path, OF assms(2)] e_ok(1)
    by (intro it_entries_at) simp_all
  ultimately show ?thesis
    using op readAll_table [of fp es fs' path, OF assms(2) fs] by (simp add: table_of_def)
qed

theorem sst_write_read_roundtrip_witness:
  "\<exists>ops t. sst_write (\<lambda>n. 10 * n) ex_io ''t.sst'' ex_entries = (ops, None)
     \<and> sst_open True True (run_ops ops Map.empty) ''t.sst'' = Inr t
     \<and> readAll (run_ops ops Map.empty) t = Inr ex_entries"
proof -
  obtain ops err where w: "sst_write (\<lambda>n. 10 * n) ex_io ''t.sst'' ex_entries = (ops, err)" by fastforce
  then have "err = None"
    using render_table_ok [OF ex_entries_ok(1,2), of "\<lambda>n. 10 * n"] ex_entries_ok(3)
    by (auto simp: sst_write_def sorted_unique_iff ex_io_def fsyncParentDir_def Let_def)
  with w sst_write_read_roundtrip [OF _ ex_table_ok refl, of ex_io "''t.sst''" ops Map.empty]
  show ?thesis by auto
qed

text \<open>C17. A point lookup on a table agrees with its entries: through any block cache whose answers for the
  table are blocks of the table, and whatever \<open>pread\<close> does, \<open>get\<close> returns the value, the tombstone or
  the absence the entries give, or reports a read error; with a working \<open>pread\<close> it never fails.
  The cache stays coherent, so every later lookup is right as well.\<close>

theorem sst_get_correct:
  assumes "table_ok fp es" "fs path = Some (table_bytes fp es)" "sst_open True True fs path = Inr t"
    and "cache_ok c" "\<forall>off b. cache_view c (path, off) = Some b \<longrightarrow> table_blocks es off = Some b"
    and "pread_ok pread" "sst_get sz pread t key c = (r, c')"
  shows "(r = Inr (map_of es key) \<or> r = Inl PreadError \<or> r = Inl ShortPread)
    \<and> (pread = pread_full \<longrightarrow> r = Inr (map_of es key))
    \<and> cache_ok c' \<and> (\<forall>off b. cache_view c' (path, off) = Some b \<longrightarrow> table_blocks es off = Some b)
    \<and> (\<forall>p off b. p \<noteq> path \<and> cache_view c' (p, off) = Some b \<longrightarrow> cache_view c (p, off) = Some b)"
proof -
  have t: "t = table_of fp path es" using sst_open_table [of fs path fp es] assms by simp
  define src where "src = (\<lambda>k. if fst k = path then table_blocks es (snd k) else cache_view c k)"
  have "cache_coherent src c"
    using assms(4,5) by (auto simp: lru.coherent_def map_le_def dom_def src_def)
  moreover have "src (path, off) = table_blocks es off" for off by (simp add: src_def)
  ultimately have "get_result es key r \<and> cache_coherent src c' \<and> (pread = pread_full \<longrightarrow> r = Inr (map_of es key))"
    using sst_get_table [OF assms(1) _ _ assms(6)] assms(7) unfolding t by blast
  moreover from this have "cache_view c' k = Some b \<Longrightarrow> src k = Some b" for k b
    by (auto simp: lru.coherent_def intro: map_le_Some)
  moreover from calculation have "cache_ok c'" by (simp add: lru.coherent_def)
  ultimately show ?thesis by (force simp: get_result_def src_def)
qed

theorem sst_get_correct_witness:
  "\<exists>t c'. sst_open True True [''t.sst'' \<mapsto> table_bytes (\<lambda>n. 10 * n) ex_entries] ''t.sst'' = Inr t
     \<and> sst_get length pread_full t [97] globalInstance = (Inr (Some (Some [49])), c')"
proof -
  let ?fs = "[''t.sst'' \<mapsto> table_bytes (\<lambda>n. 10 * n) ex_entries]"
  obtain t where t: "sst_open True True ?fs ''t.sst'' = Inr t"
    using sst_open_table [of ?fs "''t.sst''", OF _ ex_table_ok] by auto
  obtain r c' where g: "sst_get length pread_full t [97] globalInstance = (r, c')" by fastforce
  have p: "pread_ok pread_full" by (simp add: pread_ok_def pread_full_def)
  have "r = Inr (map_of ex_entries [97])"
    using sst_get_correct [OF ex_table_ok _ t _ _ p g] by (simp add: globalInstance_def)
  then show ?thesis using t g by (auto simp: ex_entries_def)
qed


definition ex_fs :: fs where
  "ex_fs = [''t.sst'' \<mapsto> table_bytes (\<lambda>n. 10 * n) ex_entries]"

lemma ex_open: "sst_open True True ex_fs ''t.sst'' = Inr (table_of (\<lambda>n. 10 * n) ''t.sst'' ex_entries)"
  by (rule sst_open_table [OF _ ex_table_ok]) (simp add: ex_fs_def)


text \<open>C37. Moving a table loses \<open>file_size_\<close>, the bound \<open>readAll\<close> passes to its reads: after a move, \<open>readAll\<close> of
  a table whose first key is not empty throws although the file is intact.\<close>

theorem moved_table_readAll_throws:
  assumes "table_ok fp es" "fs path = Some (table_bytes fp es)" "es \<noteq> []" "fst (hd es) \<noteq> []"
    and "sst_open True True fs path = Inr t"
  shows "readAll fs t = Inr es \<and> readAll fs (fst (sst_move t)) = Inl StringTooLong"
proof -
  have t: "t = table_of fp path es" using sst_open_table [of fs path fp es] assms by simp
  let ?T = "table_bytes fp es"
  obtain s1 where f: "readUint64 (ifs_seekg (length ?T - 16) (ifs_open ?T)) = (length (data_bytes es), s1)"
      "stream_over ?T s1"
    using footer_stream [OF assms(1) refl] by blast
  obtain e es' where es: "es = e # es'" using assms(3) by (cases es) auto
  obtain r where T: "?T = ([if snd e = None then 1 else 0] @ le_enc 4 (length (fst e)) @ r)"
    unfolding table_bytes_layout by (simp add: es entry_bytes_eq string_bytes_def)
  define s where "s = ifs_seekg 0 s1"
  have at: "at_bytes s ([if snd e = None then 1 else 0] @ le_enc 4 (length (fst e)) @ r)" "ifs_pos s = 0"
    using seek_at [OF f(2), of "[]" ?T 0] T by (simp_all add: s_def)
  have at2: "at_bytes (skip_to 1 s) (le_enc 4 (length (fst e)) @ r)" by (rule at_bytes_skip [OF at(1)]) simp
  have len: "length (fst e) \<le> uint32_max" using assms(1) es by (simp add: table_ok_def entry_ok_def)
  have "readEntry 0 s = Inl StringTooLong"
    using ifs_read_at [OF at(1), of 1] readUint32_at [OF at2 len] assms(4) es
    by (simp add: readEntry_def readString_def)
  then have "read_entries (length (data_bytes es)) 0 s = Inl StringTooLong"
    using at ifs_peek_at [OF at(1)] es
    by (subst read_entries.simps) (simp add: ifs_tellg_good at_bytes_def length_entry_bytes entry_size_def)
  moreover have "\<not> length ?T < 16" using table_ok_bounds(7) [OF assms(1)] by linarith
  ultimately have "readAll fs (fst (sst_move t)) = Inl StringTooLong"
    using assms(2) f(1) by (simp add: readAll_def sst_move_def t s_def)
  then show ?thesis using readAll_table [of fp es fs path] assms t by simp
qed

theorem moved_table_readAll_throws_witness:
  "readAll ex_fs (fst (sst_move (table_of (\<lambda>n. 10 * n) ''t.sst'' ex_entries))) = Inl StringTooLong"
  using moved_table_readAll_throws [OF ex_table_ok _ _ _ ex_open] by (simp add: ex_fs_def ex_entries_def)


end
