(* ===== verification/Arena.thy ===== *)
theory Arena
  imports Prelude
begin

text \<open>
  The bump allocator of src/memtable/arena.h. Addresses and sizes are natural numbers below
  \<open>2 ^ 64\<close>; the code's own checks keep every sum it forms below that bound, which the lemmas show.

  \<open>new char[n]\<close> is the C++ runtime's: the parameter \<open>new_char\<close> gives the address it returns when the
  blocks held so far are \<open>blocks\<close> (\<open>None\<close> is \<open>std::bad_alloc\<close>), and \<open>new_ok\<close> says what the language
  promises of it: a non-null block that overlaps no live block.

  The lemmas show that every allocation is aligned, lies inside one block and is disjoint from all
  memory handed out before, and that a failing call leaves the arena as it was.
\<close>

datatype mem_error = InvalidArgument | BadAlloc

type_synonym addr = nat
type_synonym new_fn = "(addr \<times> nat) list \<Rightarrow> nat \<Rightarrow> addr option"

record arena =
  ar_destructors :: "addr list"
  ar_block_size :: nat
  ar_offset :: nat
  ar_current_size :: nat
  ar_current :: addr
  ar_blocks :: "(addr \<times> nat) list"

definition mk_arena :: "new_fn \<Rightarrow> nat \<Rightarrow> mem_error + arena" where
  "mk_arena new_char block_size =
     (case new_char [] block_size of
        None \<Rightarrow> Inl BadAlloc
      | Some p \<Rightarrow> Inr \<lparr>ar_destructors = [], ar_block_size = block_size, ar_offset = 0,
                       ar_current_size = block_size, ar_current = p, ar_blocks = [(p, block_size)]\<rparr>)"

definition padFor :: "addr \<Rightarrow> nat \<Rightarrow> nat" where
  "padFor p alignment = (let rem = p mod alignment in if rem \<noteq> 0 then alignment - rem else 0)"

definition allocate :: "new_fn \<Rightarrow> nat \<Rightarrow> nat \<Rightarrow> arena \<Rightarrow> (mem_error + addr) \<times> arena" where
  "allocate new_char bytes alignment a =
     (if alignment = 0 \<or> alignment AND (alignment - 1) \<noteq> 0 then (Inl InvalidArgument, a)
      else if bytes > uint64_max - alignment then (Inl BadAlloc, a)
      else
        (let pad = padFor (ar_current a + ar_offset a) alignment;
             remaining = ar_current_size a - ar_offset a
         in if pad > remaining \<or> bytes > remaining - pad
            then
              (let next_size = max (ar_block_size a) (bytes + alignment) in
               case new_char (ar_blocks a) next_size of
                 None \<Rightarrow> (Inl BadAlloc, a)
               | Some fresh \<Rightarrow>
                   (let pad = padFor fresh alignment
                    in (Inr (fresh + pad),
                        a\<lparr>ar_blocks := ar_blocks a @ [(fresh, next_size)], ar_current := fresh,
                          ar_current_size := next_size, ar_offset := pad + bytes\<rparr>)))
            else (Inr (ar_current a + ar_offset a + pad), a\<lparr>ar_offset := ar_offset a + (pad + bytes)\<rparr>)))"

definition registerDestructor :: "addr \<Rightarrow> arena \<Rightarrow> arena" where
  "registerDestructor object a = a\<lparr>ar_destructors := ar_destructors a @ [object]\<rparr>"

text \<open>The destructor: the objects destroyed, in order, and the blocks freed after them.\<close>

definition destroy_arena :: "arena \<Rightarrow> addr list \<times> addr list" where
  "destroy_arena a = (rev (ar_destructors a), map fst (ar_blocks a))"

section \<open>Invariant\<close>

definition region :: "addr \<Rightarrow> nat \<Rightarrow> addr set" where
  "region p n = {p ..< p + n}"

definition new_ok :: "new_fn \<Rightarrow> bool" where
  "new_ok new_char \<longleftrightarrow>
     (\<forall>blocks n p. new_char blocks n = Some p \<longrightarrow>
        0 < p \<and> p + n \<le> 2 ^ 64 \<and> (\<forall>(q, m) \<in> set blocks. region p n \<inter> region q m = {}))"

definition block_union :: "arena \<Rightarrow> addr set" where
  "block_union a = (\<Union>(p, n) \<in> set (ar_blocks a). region p n)"

definition free_tail :: "arena \<Rightarrow> addr set" where
  "free_tail a = {ar_current a + ar_offset a ..< ar_current a + ar_current_size a}"

text \<open>Everything that is, or may have been, handed out.\<close>

definition handed_out :: "arena \<Rightarrow> addr set" where
  "handed_out a = block_union a - free_tail a"

definition arena_ok :: "arena \<Rightarrow> bool" where
  "arena_ok a \<longleftrightarrow> ar_offset a \<le> ar_current_size a
     \<and> (ar_current a, ar_current_size a) \<in> set (ar_blocks a)
     \<and> (\<forall>(p, n) \<in> set (ar_blocks a). 0 < p \<and> p + n \<le> 2 ^ 64)"

lemma mk_arena_ok: "new_ok new_char \<Longrightarrow> mk_arena new_char n = Inr a \<Longrightarrow> arena_ok a \<and> handed_out a = {}"
  by (auto simp: mk_arena_def arena_ok_def new_ok_def handed_out_def block_union_def free_tail_def region_def
      split: option.splits)

lemma pad_aligned:
  assumes "0 < al"
  shows "(p + padFor p al) mod al = 0" "padFor p al < al"
proof -
  have "p mod al < al" using assms by simp
  then have "(p + (al - p mod al)) mod al = 0" if "p mod al \<noteq> 0"
    by (metis add_diff_inverse_nat less_or_eq_imp_le mod_add_left_eq mod_self not_less)
  then show "(p + padFor p al) mod al = 0" by (auto simp: padFor_def Let_def)
  show "padFor p al < al" using assms by (auto simp: padFor_def Let_def)
qed

text \<open>What one allocation gives and keeps.\<close>

definition alloc_post :: "nat \<Rightarrow> nat \<Rightarrow> arena \<Rightarrow> addr \<Rightarrow> arena \<Rightarrow> bool" where
  "alloc_post bytes alignment a r a' \<longleftrightarrow>
     arena_ok a' \<and> r mod alignment = 0 \<and> 0 < r
     \<and> (\<exists>(p, n) \<in> set (ar_blocks a'). p \<le> r \<and> r + bytes \<le> p + n \<and> p + n \<le> 2 ^ 64)
     \<and> region r bytes \<inter> handed_out a = {}
     \<and> handed_out a \<union> region r bytes \<subseteq> handed_out a'
     \<and> ar_destructors a' = ar_destructors a"

text \<open>The next request fits the block in hand.\<close>

lemma alloc_fit:
  assumes ok: "arena_ok a" and pos: "0 < al" and pad: "pad = padFor (ar_current a + ar_offset a) al"
    and fits: "ar_offset a + pad + bytes \<le> ar_current_size a"
  shows "alloc_post bytes al a (ar_current a + ar_offset a + pad) (a\<lparr>ar_offset := ar_offset a + (pad + bytes)\<rparr>)"
    (is "alloc_post _ _ _ ?r ?a'")
proof -
  have cur: "(ar_current a, ar_current_size a) \<in> set (ar_blocks a)" "0 < ar_current a"
      "ar_current a + ar_current_size a \<le> 2 ^ 64"
    using ok by (auto simp: arena_ok_def)
  have "region ?r bytes \<subseteq> region (ar_current a) (ar_current_size a)" using fits by (simp add: region_def)
  then have sub: "region ?r bytes \<subseteq> block_union a" using cur(1) by (auto simp: block_union_def)
  have sub': "region ?r bytes \<subseteq> free_tail a" using fits by (simp add: region_def free_tail_def)
  have un: "block_union ?a' = block_union a" by (simp add: block_union_def)
  have tail: "free_tail ?a' \<subseteq> free_tail a" "free_tail ?a' \<inter> region ?r bytes = {}"
    by (auto simp: free_tail_def region_def)
  have "handed_out a \<union> region ?r bytes \<subseteq> handed_out ?a'" "region ?r bytes \<inter> handed_out a = {}"
    using sub sub' un tail unfolding handed_out_def by blast+
  moreover have "?r mod al = 0" unfolding pad by (rule pad_aligned(1) [OF pos])
  moreover have "arena_ok ?a'" using ok fits by (simp add: arena_ok_def)
  moreover have "?r + bytes \<le> ar_current a + ar_current_size a" using fits by simp
  ultimately show ?thesis
    unfolding alloc_post_def using cur by (auto intro!: bexI [OF _ cur(1)] simp del: power_numeral)
qed

text \<open>It goes to a fresh block.\<close>

lemma alloc_fresh:
  assumes ok: "arena_ok a" and pos: "0 < al" and n: "bytes + al \<le> n"
    and fresh: "0 < fresh" "fresh + n \<le> 2 ^ 64"
    and dis: "\<And>q m. (q, m) \<in> set (ar_blocks a) \<Longrightarrow> region fresh n \<inter> region q m = {}"
  shows "alloc_post bytes al a (fresh + padFor fresh al)
     (a\<lparr>ar_blocks := ar_blocks a @ [(fresh, n)], ar_current := fresh, ar_current_size := n,
        ar_offset := padFor fresh al + bytes\<rparr>)"
    (is "alloc_post _ _ _ ?r ?a'")
proof -
  have pad: "padFor fresh al + bytes \<le> n" using pad_aligned(2) [OF pos, of fresh] n by linarith
  have out: "region fresh n \<inter> block_union a = {}" using dis unfolding block_union_def by blast
  have r_in: "region ?r bytes \<subseteq> region fresh n" using pad by (simp add: region_def)
  have tail: "free_tail ?a' \<subseteq> region fresh n" "free_tail ?a' \<inter> region ?r bytes = {}"
    by (auto simp: free_tail_def region_def)
  have un: "block_union ?a' = block_union a \<union> region fresh n" by (auto simp: block_union_def)
  have "handed_out a \<union> region ?r bytes \<subseteq> handed_out ?a'" "region ?r bytes \<inter> handed_out a = {}"
    using out r_in tail un unfolding handed_out_def by blast+
  moreover have "?r mod al = 0" by (rule pad_aligned(1) [OF pos])
  moreover have "arena_ok ?a'" using ok fresh pad by (simp add: arena_ok_def)
  moreover have "?r + bytes \<le> fresh + n" using pad by simp
  ultimately show ?thesis
    unfolding alloc_post_def using fresh by (auto intro!: bexI [of _ "(fresh, n)"] simp del: power_numeral)
qed

lemma allocate_Inr:
  assumes ok: "arena_ok a" and new: "new_ok new_char" and al: "allocate new_char bytes al a = (Inr r, a')"
  shows "alloc_post bytes al a r a'"
proof -
  have pos: "0 < al" using al by (auto simp: allocate_def split: if_split_asm)
  define pad where "pad = padFor (ar_current a + ar_offset a) al"
  define rem where "rem = ar_current_size a - ar_offset a"
  have off: "ar_offset a \<le> ar_current_size a" using ok by (simp add: arena_ok_def)
  show ?thesis
  proof (cases "pad > rem \<or> bytes > rem - pad")
    case False
    then have "r = ar_current a + ar_offset a + pad" "a' = a\<lparr>ar_offset := ar_offset a + (pad + bytes)\<rparr>"
      using al unfolding allocate_def pad_def [symmetric] rem_def [symmetric] Let_def by (auto split: if_split_asm)
    moreover have "ar_offset a + pad + bytes \<le> ar_current_size a" using False off unfolding rem_def by linarith
    ultimately show ?thesis using alloc_fit [OF ok pos pad_def] by simp
  next
    case True
    define n where "n = max (ar_block_size a) (bytes + al)"
    obtain fresh where f: "new_char (ar_blocks a) n = Some fresh" "r = fresh + padFor fresh al"
        "a' = a\<lparr>ar_blocks := ar_blocks a @ [(fresh, n)], ar_current := fresh,
               ar_current_size := n, ar_offset := padFor fresh al + bytes\<rparr>"
      using al True unfolding allocate_def pad_def [symmetric] rem_def [symmetric] Let_def n_def [symmetric]
      by (auto split: if_split_asm option.splits)
    have "0 < fresh \<and> fresh + n \<le> 2 ^ 64 \<and> (\<forall>(q, m) \<in> set (ar_blocks a). region fresh n \<inter> region q m = {})"
      using new f(1) unfolding new_ok_def by blast
    then show ?thesis
      unfolding f(2,3) by (intro alloc_fresh [OF ok pos]) (auto simp: n_def simp del: power_numeral)
  qed
qed

lemma allocate_Inl: "allocate new_char bytes al a = (Inl e, a') \<Longrightarrow> a' = a"
  by (auto simp: allocate_def Let_def split: if_split_asm option.splits)

section \<open>The contract of an allocator\<close>

text \<open>The regions a sequence of requests obtains, failed requests left out.\<close>

fun run_alloc :: "(nat \<Rightarrow> nat \<Rightarrow> 'a \<Rightarrow> (mem_error + addr) \<times> 'a) \<Rightarrow> (nat \<times> nat) list \<Rightarrow> 'a
    \<Rightarrow> (addr \<times> nat) list \<times> 'a" where
  "run_alloc alloc [] a = ([], a)"
| "run_alloc alloc ((bytes, alignment) # reqs) a =
     (case alloc bytes alignment a of
        (Inl _, a) \<Rightarrow> run_alloc alloc reqs a
      | (Inr r, a) \<Rightarrow> (case run_alloc alloc reqs a of (rs, a) \<Rightarrow> ((r, bytes) # rs, a)))"

locale allocator =
  fixes alloc :: "nat \<Rightarrow> nat \<Rightarrow> 'a \<Rightarrow> (mem_error + addr) \<times> 'a"
    and ok :: "'a \<Rightarrow> bool" and used :: "'a \<Rightarrow> addr set"
  assumes alloc_Inr: "ok a \<Longrightarrow> alloc bytes al a = (Inr r, a') \<Longrightarrow>
      ok a' \<and> 0 < r \<and> r mod al = 0 \<and> region r bytes \<inter> used a = {} \<and> used a \<union> region r bytes \<subseteq> used a'"
    and alloc_Inl: "alloc bytes al a = (Inl e, a') \<Longrightarrow> a' = a"
begin

lemma run_alloc_disjoint:
  assumes "ok a" "run_alloc alloc reqs a = (rs, a')"
  shows "ok a' \<and> used a \<subseteq> used a' \<and> (\<forall>(r, n) \<in> set rs. region r n \<inter> used a = {})
    \<and> sorted_wrt (\<lambda>(r, n) (q, m). region r n \<inter> region q m = {}) rs"
  using assms
proof (induction reqs arbitrary: a rs)
  case (Cons req reqs)
  obtain bytes al where req: "req = (bytes, al)" by fastforce
  obtain res a1 where al: "alloc bytes al a = (res, a1)" by fastforce
  show ?case
  proof (cases res)
    case (Inl e)
    then have "a1 = a" using alloc_Inl al by simp
    then have "run_alloc alloc reqs a = (rs, a')" using Cons.prems(2) al req Inl by simp
    then show ?thesis by (rule Cons.IH [OF Cons.prems(1)])
  next
    case (Inr r)
    obtain rs1 where rs1: "run_alloc alloc reqs a1 = (rs1, a')" "rs = (r, bytes) # rs1"
      using Cons.prems(2) al req Inr by (auto split: prod.splits)
    have post: "ok a1" "region r bytes \<inter> used a = {}" "used a \<union> region r bytes \<subseteq> used a1"
      using alloc_Inr [OF Cons.prems(1)] al Inr by auto
    from Cons.IH [OF post(1) rs1(1)] post(2,3) rs1(2) show ?thesis by fastforce
  qed
qed auto

end

interpretation arena: allocator "allocate new_char" "\<lambda>a. new_ok new_char \<and> arena_ok a" handed_out for new_char
proof
  fix a bytes al r a'
  assume "new_ok new_char \<and> arena_ok a" "allocate new_char bytes al a = (Inr r, a')"
  then show "(new_ok new_char \<and> arena_ok a') \<and> 0 < r \<and> r mod al = 0 \<and> region r bytes \<inter> handed_out a = {}
      \<and> handed_out a \<union> region r bytes \<subseteq> handed_out a'"
    using allocate_Inr [of a new_char bytes al r a'] unfolding alloc_post_def by blast
qed (rule allocate_Inl)

section \<open>Properties\<close>

text \<open>C25. Whatever is requested of an arena, in whatever order, every successful allocation is a multiple
  of its alignment, lies inside one block without wrapping the address space, and overlaps no memory
  handed out before it; a failing request changes nothing.\<close>

theorem arena_allocations_disjoint:
  assumes "new_ok new_char" "mk_arena new_char n = Inr a"
    and "run_alloc (allocate new_char) reqs a = (rs, a1)" "allocate new_char bytes alignment a1 = (res, a2)"
  shows "sorted_wrt (\<lambda>(r, n) (q, m). region r n \<inter> region q m = {}) rs
    \<and> (case res of
         Inl _ \<Rightarrow> a2 = a1
       | Inr r \<Rightarrow> r mod alignment = 0 \<and> 0 < r
           \<and> (\<exists>(p, m) \<in> set (ar_blocks a2). p \<le> r \<and> r + bytes \<le> p + m \<and> p + m \<le> 2 ^ 64)
           \<and> region r bytes \<inter> handed_out a1 = {})"
proof -
  have "arena_ok a" using mk_arena_ok [OF assms(1,2)] by simp
  then have "(new_ok new_char \<and> arena_ok a1) \<and> sorted_wrt (\<lambda>(r, n) (q, m). region r n \<inter> region q m = {}) rs"
    using arena.run_alloc_disjoint [OF conjI [OF assms(1)] assms(3)] by blast
  then show ?thesis
    using assms(4) allocate_Inl [of new_char bytes alignment a1 _ a2]
      allocate_Inr [of a1 new_char bytes alignment _ a2] unfolding alloc_post_def
    by (cases res) simp_all
qed

text \<open>A runtime that hands out blocks upwards from an address, as long as they fit.\<close>

definition ex_new :: new_fn where
  "ex_new blocks n =
     (let p = fold (\<lambda>(q, m) top. max top (q + m)) blocks 4096
      in if p + n \<le> 2 ^ 64 then Some p else None)"

lemma ex_new_ok: "new_ok ex_new"
proof -
  have top: "b \<le> fold (\<lambda>(q, m) top. max top (q + m)) blocks b
      \<and> (\<forall>(q, m) \<in> set blocks. q + m \<le> fold (\<lambda>(q, m) top. max top (q + m)) blocks b)" for blocks :: "(addr \<times> nat) list" and b
    by (induction blocks arbitrary: b) (fastforce split: prod.splits)+
  show ?thesis
    unfolding new_ok_def
  proof (intro allI impI)
    fix blocks n p assume "ex_new blocks n = Some p"
    then have p: "p = fold (\<lambda>(q, m) top. max top (q + m)) blocks 4096" "p + n \<le> 2 ^ 64"
      by (auto simp: ex_new_def Let_def split: if_split_asm)
    have "4096 \<le> p" "\<forall>(q, m) \<in> set blocks. q + m \<le> p" using top [of 4096 blocks] p(1) by auto
    then show "0 < p \<and> p + n \<le> 2 ^ 64 \<and> (\<forall>(q, m) \<in> set blocks. region p n \<inter> region q m = {})"
      using p(2) by (fastforce simp: region_def)
  qed
qed

definition ex_arena :: arena where
  "ex_arena = \<lparr>ar_destructors = [], ar_block_size = 64, ar_offset = 0, ar_current_size = 64,
     ar_current = 4096, ar_blocks = [(4096, 64)]\<rparr>"

lemma ex_arena_steps:
  "mk_arena ex_new 64 = Inr ex_arena"
  "run_alloc (allocate ex_new) [(41, 8)] ex_arena = ([(4096, 41)], ex_arena\<lparr>ar_offset := 41\<rparr>)"
  "allocate ex_new 16 8 (ex_arena\<lparr>ar_offset := 41\<rparr>) = (Inr 4144, ex_arena\<lparr>ar_offset := 64\<rparr>)"
  by (simp_all add: mk_arena_def ex_new_def ex_arena_def allocate_def padFor_def)

theorem arena_allocations_disjoint_witness:
  "mk_arena ex_new 64 = Inr ex_arena \<and> region 4144 16 \<inter> handed_out (ex_arena\<lparr>ar_offset := 41\<rparr>) = {}
   \<and> (4144 :: nat) mod 8 = 0"
  using arena_allocations_disjoint [OF ex_new_ok ex_arena_steps] ex_arena_steps(1) by simp

end
