(* ===== verification/SkipList.thy ===== *)
theory SkipList
  imports Arena "HOL-Library.Stream"
begin

text \<open>
  The skip list of src/memtable/skip_list.h as a heap structure: nodes and value cells live at addresses
  the arena hands out, each node carries \<open>height\<close> links, and \<open>insert\<close> swings links with
  compare-and-swap. A read through a null or dangling pointer, a link above a node's height, or a
  search that never ends is \<open>None\<close>, so a result \<open>Some\<close> is also a statement of memory safety and
  termination. The engine calls \<open>insert\<close> with its lock held exclusively; the loops the code retries
  when a compare-and-swap loses are kept.

  \<open>randomHeight\<close> draws from a generator the model takes as a stream of numbers. Object sizes are those of
  the x86-64 C++ ABI.

  The lemmas show that every operation keeps the list a correct skip list (level \<open>i\<close> links exactly the
  nodes higher than \<open>i\<close>, keys ascending), that \<open>find\<close> returns the two neighbours of a key on every level,
  and that \<open>insert\<close> is insertion into a sorted association list.
\<close>

type_synonym slots = "addr \<rightharpoonup> bytes option"

record node =
  nd_key :: bytes
  nd_value :: addr
  nd_height :: nat
  nd_next :: "addr option list"

type_synonym nodes = "addr \<rightharpoonup> node"

record skiplist =
  sl_arena :: arena
  sl_nodes :: nodes
  sl_slots :: slots
  sl_head :: addr

definition max_height :: nat where
  "max_height = 12"

definition sizeof_node :: nat where
  "sizeof_node = 56"

definition alignof_node :: nat where
  "alignof_node = 8"

definition sizeof_link :: nat where
  "sizeof_link = 8"

definition sizeof_slot :: nat where
  "sizeof_slot = 40"

section \<open>Nodes and value cells\<close>

definition makeSlot :: "new_fn \<Rightarrow> bytes option \<Rightarrow> skiplist \<Rightarrow> (mem_error + addr) \<times> skiplist" where
  "makeSlot new_char v s =
     (case allocate new_char sizeof_slot alignof_node (sl_arena s) of
        (Inl e, a) \<Rightarrow> (Inl e, s\<lparr>sl_arena := a\<rparr>)
      | (Inr p, a) \<Rightarrow>
          (Inr p, s\<lparr>sl_arena := registerDestructor p a, sl_slots := (sl_slots s)(p \<mapsto> v)\<rparr>))"

definition create :: "new_fn \<Rightarrow> bytes \<Rightarrow> bytes option \<Rightarrow> nat \<Rightarrow> skiplist \<Rightarrow> (mem_error + addr) \<times> skiplist" where
  "create new_char k v h s =
     (let pad = (if sizeof_node mod sizeof_link \<noteq> 0 then sizeof_link - sizeof_node mod sizeof_link else 0);
          total = sizeof_node + pad + sizeof_link * h
      in case allocate new_char total alignof_node (sl_arena s) of
           (Inl e, a) \<Rightarrow> (Inl e, s\<lparr>sl_arena := a\<rparr>)
         | (Inr n, a) \<Rightarrow>
             (let node = \<lparr>nd_key = k, nd_value = 0, nd_height = h, nd_next = replicate h None\<rparr>;
                  s = s\<lparr>sl_arena := a, sl_nodes := (sl_nodes s)(n \<mapsto> node)\<rparr>
              in case makeSlot new_char v s of
                   (Inl e, s) \<Rightarrow> (Inl e, s)
                 | (Inr p, s) \<Rightarrow>
                     (Inr n, s\<lparr>sl_nodes := (sl_nodes s)(n \<mapsto> node\<lparr>nd_value := p\<rparr>),
                               sl_arena := registerDestructor n (sl_arena s)\<rparr>)))"

definition mk_skiplist :: "new_fn \<Rightarrow> arena \<Rightarrow> mem_error + skiplist" where
  "mk_skiplist new_char a =
     (case create new_char [] None max_height
             \<lparr>sl_arena = a, sl_nodes = Map.empty, sl_slots = Map.empty, sl_head = 0\<rparr> of
        (Inl e, s) \<Rightarrow> Inl e
      | (Inr n, s) \<Rightarrow> Inr (s\<lparr>sl_head := n\<rparr>))"

section \<open>Search\<close>

text \<open>\<open>x->next[i].load()\<close>: \<open>Some None\<close> is a null link.\<close>

definition link :: "nodes \<Rightarrow> addr \<Rightarrow> nat \<Rightarrow> addr option option" where
  "link h x i =
     (case h x of None \<Rightarrow> None | Some n \<Rightarrow> if i < length (nd_next n) then Some (nd_next n ! i) else None)"

partial_function (option) find_level :: "nodes \<Rightarrow> bytes \<Rightarrow> nat \<Rightarrow> addr \<Rightarrow> (addr \<times> addr option) option" where
  "find_level h key i x =
     (case link h x i of
        None \<Rightarrow> None
      | Some None \<Rightarrow> Some (x, None)
      | Some (Some y) \<Rightarrow>
          (case h y of
             None \<Rightarrow> None
           | Some m \<Rightarrow> if nd_key m < key then find_level h key i y else Some (x, Some y)))"

text \<open>The descent from level \<open>n - 1\<close> to 0; element \<open>i\<close> of the result is \<open>(preds[i], succs[i])\<close>.\<close>

fun find_from :: "nodes \<Rightarrow> bytes \<Rightarrow> nat \<Rightarrow> addr \<Rightarrow> (addr \<times> addr option) list option" where
  "find_from h key 0 x = Some []"
| "find_from h key (Suc i) x =
     (case find_level h key i x of
        None \<Rightarrow> None
      | Some (p, q) \<Rightarrow>
          (case find_from h key i p of None \<Rightarrow> None | Some ps \<Rightarrow> Some (ps @ [(p, q)])))"

definition sl_find :: "nodes \<Rightarrow> addr \<Rightarrow> bytes \<Rightarrow> (bool \<times> (addr \<times> addr option) list) option" where
  "sl_find h head key =
     (case find_from h key max_height head of
        None \<Rightarrow> None
      | Some ps \<Rightarrow>
          (case snd (ps ! 0) of
             None \<Rightarrow> Some (False, ps)
           | Some y \<Rightarrow> (case h y of None \<Rightarrow> None | Some m \<Rightarrow> Some (nd_key m = key, ps))))"

section \<open>Insertion\<close>

function randomHeight :: "nat \<Rightarrow> nat stream \<Rightarrow> nat \<times> nat stream" where
  "randomHeight h rng =
     (if h < max_height
      then (if shd rng mod 4 = 0 then randomHeight (Suc h) (stl rng) else (h, stl rng))
      else (h, rng))"
  by pat_completeness auto
termination
  by (relation "measure (\<lambda>(h, _). max_height - h)") auto

declare randomHeight.simps [simp del]

definition set_link :: "nodes \<Rightarrow> addr \<Rightarrow> nat \<Rightarrow> addr option \<Rightarrow> nodes" where
  "set_link h x i v = (case h x of None \<Rightarrow> h | Some n \<Rightarrow> h(x \<mapsto> n\<lparr>nd_next := (nd_next n)[i := v]\<rparr>))"

definition cas :: "nodes \<Rightarrow> addr \<Rightarrow> nat \<Rightarrow> addr option \<Rightarrow> addr \<Rightarrow> (bool \<times> nodes) option" where
  "cas h x i expected new_node =
     (case link h x i of
        None \<Rightarrow> None
      | Some v \<Rightarrow> Some (if v = expected then (True, set_link h x i (Some new_node)) else (False, h)))"

partial_function (option) link_level :: "addr \<Rightarrow> bytes \<Rightarrow> nat \<Rightarrow> addr \<Rightarrow> (addr \<times> addr option) list \<Rightarrow> nodes
    \<Rightarrow> ((addr \<times> addr option) list \<times> nodes) option" where
  "link_level head key i new_node ps h =
     (let pred = fst (ps ! i); succ = snd (ps ! i); h = set_link h new_node i succ in
      case cas h pred i succ new_node of
        None \<Rightarrow> None
      | Some (swapped, h) \<Rightarrow>
          if swapped then Some (ps, h)
          else (case sl_find h head key of
                  None \<Rightarrow> None
                | Some (_, ps) \<Rightarrow> link_level head key i new_node ps h))"

fun link_levels :: "addr \<Rightarrow> bytes \<Rightarrow> nat list \<Rightarrow> addr \<Rightarrow> (addr \<times> addr option) list \<Rightarrow> nodes \<Rightarrow> nodes option" where
  "link_levels head key [] new_node ps h = Some h"
| "link_levels head key (i # is) new_node ps h =
     (case link_level head key i new_node ps h of
        None \<Rightarrow> None
      | Some (ps, h) \<Rightarrow> link_levels head key is new_node ps h)"

text \<open>\<open>InsertResult\<close>: whether a key was linked in, and the size of the value displaced.\<close>

type_synonym insert_result = "bool \<times> nat"

definition update_value :: "new_fn \<Rightarrow> bytes option \<Rightarrow> addr \<Rightarrow> node \<Rightarrow> skiplist
    \<Rightarrow> (mem_error + insert_result) \<times> skiplist" where
  "update_value new_char v y m s =
     (let replaced = (case sl_slots s (nd_value m) of Some (Some old) \<Rightarrow> length old | _ \<Rightarrow> 0) in
      case makeSlot new_char v s of
        (Inl e, s) \<Rightarrow> (Inl e, s)
      | (Inr p, s) \<Rightarrow> (Inr (False, replaced), s\<lparr>sl_nodes := (sl_nodes s)(y \<mapsto> m\<lparr>nd_value := p\<rparr>)\<rparr>))"

partial_function (option) sl_insert :: "new_fn \<Rightarrow> bytes \<Rightarrow> bytes option \<Rightarrow> nat stream \<Rightarrow> skiplist
    \<Rightarrow> ((mem_error + insert_result) \<times> nat stream \<times> skiplist) option" where
  "sl_insert new_char key v rng s =
     (case sl_find (sl_nodes s) (sl_head s) key of
        None \<Rightarrow> None
      | Some (found, ps) \<Rightarrow>
          if found
          then (case snd (ps ! 0) of
                  None \<Rightarrow> None
                | Some y \<Rightarrow>
                    (case sl_nodes s y of
                       None \<Rightarrow> None
                     | Some m \<Rightarrow> (case update_value new_char v y m s of (r, s) \<Rightarrow> Some (r, rng, s))))
          else
            (case randomHeight 1 rng of (height, rng) \<Rightarrow>
             (case create new_char key v height s of (r, s) \<Rightarrow>
              (case r of
                 Inl e \<Rightarrow> Some (Inl e, rng, s)
               | Inr n \<Rightarrow>
                   (let h = fold (\<lambda>i h. set_link h n i (snd (ps ! i))) [0..<height] (sl_nodes s) in
                    case cas h (fst (ps ! 0)) 0 (snd (ps ! 0)) n of
                      None \<Rightarrow> None
                    | Some (swapped, h) \<Rightarrow>
                        if swapped
                        then (case link_levels (sl_head s) key [1..<height] n ps h of
                                None \<Rightarrow> None
                              | Some h \<Rightarrow> Some (Inr (True, 0), rng, s\<lparr>sl_nodes := h\<rparr>))
                        else sl_insert new_char key v rng (s\<lparr>sl_nodes := h\<rparr>))))))"

section \<open>Links and chains\<close>

lemma link_set_link:
  "link (set_link h x k v) y i =
     (if y = x \<and> i = k \<and> link h x k \<noteq> None then Some v else link h y i)"
  by (auto simp: link_def set_link_def split: option.splits if_split_asm)

text \<open>What \<open>set_link\<close> leaves alone.\<close>

definition same_data :: "nodes \<Rightarrow> nodes \<Rightarrow> bool" where
  "same_data h h' \<longleftrightarrow> (\<forall>x. map_option (\<lambda>n. n\<lparr>nd_next := []\<rparr>) (h' x) = map_option (\<lambda>n. n\<lparr>nd_next := []\<rparr>) (h x)
     \<and> map_option (length \<circ> nd_next) (h' x) = map_option (length \<circ> nd_next) (h x))"

lemma same_data_refl [simp]: "same_data h h"
  by (simp add: same_data_def)

lemma same_data_trans: "same_data h h' \<Longrightarrow> same_data h' h'' \<Longrightarrow> same_data h h''"
  by (simp add: same_data_def)

lemma same_data_set_link: "same_data h (set_link h x i v)"
  by (auto simp: same_data_def set_link_def split: option.splits)

definition nkey :: "nodes \<Rightarrow> addr \<Rightarrow> bytes" where
  "nkey h a = nd_key (the (h a))"

definition nheight :: "nodes \<Rightarrow> addr \<Rightarrow> nat" where
  "nheight h a = (case h a of None \<Rightarrow> 0 | Some n \<Rightarrow> nd_height n)"

lemma same_dataD:
  assumes "same_data h h'"
  shows "h' x = None \<longleftrightarrow> h x = None"
    and "h x = Some n \<Longrightarrow> \<exists>n'. h' x = Some n' \<and> nd_key n' = nd_key n \<and> nd_value n' = nd_value n
           \<and> nd_height n' = nd_height n \<and> length (nd_next n') = length (nd_next n)"
proof -
  have e: "map_option (\<lambda>n. n\<lparr>nd_next := []\<rparr>) (h' x) = map_option (\<lambda>n. n\<lparr>nd_next := []\<rparr>) (h x)"
      "map_option (length \<circ> nd_next) (h' x) = map_option (length \<circ> nd_next) (h x)"
    using assms by (simp_all add: same_data_def)
  show "h' x = None \<longleftrightarrow> h x = None" using e(2) by (cases "h x"; cases "h' x") auto
  assume "h x = Some n"
  with e(1) obtain n' where n': "h' x = Some n'" "n'\<lparr>nd_next := []\<rparr> = n\<lparr>nd_next := []\<rparr>"
    by (cases "h' x") auto
  then have "nd_key n' = nd_key n" "nd_value n' = nd_value n" "nd_height n' = nd_height n"
    by (cases n; cases n'; simp)+
  with n' e(2) show "\<exists>n'. h' x = Some n' \<and> nd_key n' = nd_key n \<and> nd_value n' = nd_value n
           \<and> nd_height n' = nd_height n \<and> length (nd_next n') = length (nd_next n)"
    using \<open>h x = Some n\<close> by auto
qed

lemma same_data_height: "same_data h h' \<Longrightarrow> nheight h' a = nheight h a"
  using same_dataD [of h h' a] by (cases "h a") (auto simp: nheight_def)

lemma same_data_key: "same_data h h' \<Longrightarrow> h a \<noteq> None \<Longrightarrow> nkey h' a = nkey h a"
  using same_dataD(2) [of h h' a] by (auto simp: nkey_def)

fun chain :: "nodes \<Rightarrow> nat \<Rightarrow> addr \<Rightarrow> addr list \<Rightarrow> bool" where
  "chain h i x [] = (link h x i = Some None)"
| "chain h i x (a # as) = (link h x i = Some (Some a) \<and> chain h i a as)"

definition hd_opt :: "'a list \<Rightarrow> 'a option" where
  "hd_opt xs = (case xs of [] \<Rightarrow> None | x # _ \<Rightarrow> Some x)"

lemma hd_opt_simps [simp]: "hd_opt [] = None" "hd_opt (x # xs) = Some x"
  by (simp_all add: hd_opt_def)

lemma chain_link: "chain h i x as \<Longrightarrow> link h x i = Some (hd_opt as)"
  by (cases as) auto

lemma chain_cong: "\<forall>y \<in> set (x # as). link h' y i = link h y i \<Longrightarrow> chain h' i x as = chain h i x as"
  by (induction as arbitrary: x) auto

lemma chain_append: "chain h i x (xs @ y # ys) \<Longrightarrow> chain h i y ys"
  by (induction xs arbitrary: x) auto

lemma chain_other_start: "chain h i x as \<Longrightarrow> link h y i = link h x i \<Longrightarrow> chain h i y as"
  by (cases as) auto

lemma chain_last_link: "chain h i x (P @ Q) \<Longrightarrow> link h (last (x # P)) i = Some (hd_opt Q)"
  by (induction P arbitrary: x) (auto dest: chain_link)

lemma chain_insert:
  assumes "chain h i x (P @ Q)" "distinct (x # P @ Q)" "a \<notin> set (x # P @ Q)"
    and "link h a i = Some (hd_opt Q)"
    and "\<And>y. link h' y i = (if y = last (x # P) then Some (Some a) else link h y i)"
  shows "chain h' i x (P @ a # Q)"
  using assms
proof (induction P arbitrary: x)
  case Nil
  have "chain h' i a Q = chain h i a Q"
    using Nil.prems(2,3,5) by (intro chain_cong) auto
  moreover have "chain h i a Q"
    using Nil.prems(1,4) chain_link [of h i x Q] by (intro chain_other_start [of h i x Q a]) auto
  ultimately show ?case using Nil.prems(5) by simp
next
  case (Cons p P)
  have "chain h' i p (P @ a # Q)"
    using Cons.prems by (intro Cons.IH) auto
  moreover have "x \<noteq> last (p # P)" using Cons.prems(2) last_in_set [of "p # P"] by auto
  ultimately show ?case using Cons.prems(1,5) by simp
qed

section \<open>The skip-list invariant\<close>

definition level :: "nodes \<Rightarrow> nat \<Rightarrow> addr list \<Rightarrow> addr list" where
  "level h i ids = filter (\<lambda>a. i < nheight h a) ids"

lemma level_append [simp]: "level h i (xs @ ys) = level h i xs @ level h i ys"
  by (simp add: level_def)

lemma level_Cons: "level h i (x # xs) = (if i < nheight h x then [x] else []) @ level h i xs"
  by (simp add: level_def)

lemma set_level: "set (level h i ids) = {a \<in> set ids. i < nheight h a}"
  by (auto simp: level_def)

definition node_shape :: "nodes \<Rightarrow> addr \<Rightarrow> bool" where
  "node_shape h a \<longleftrightarrow>
     (\<exists>n. h a = Some n \<and> length (nd_next n) = nd_height n \<and> 1 \<le> nd_height n \<and> nd_height n \<le> max_height)"

definition heap_ok :: "nodes \<Rightarrow> addr \<Rightarrow> addr list \<Rightarrow> bool" where
  "heap_ok h head ids \<longleftrightarrow> distinct (head # ids) \<and> (\<forall>a \<in> set (head # ids). node_shape h a)
     \<and> nheight h head = max_height \<and> sorted_wrt (<) (map (nkey h) ids)
     \<and> (\<forall>i < max_height. chain h i head (level h i ids))"

definition below :: "nodes \<Rightarrow> bytes \<Rightarrow> addr list \<Rightarrow> addr list" where
  "below h key ids = filter (\<lambda>a. nkey h a < key) ids"

definition from_key :: "nodes \<Rightarrow> bytes \<Rightarrow> addr list \<Rightarrow> addr list" where
  "from_key h key ids = filter (\<lambda>a. \<not> nkey h a < key) ids"

lemma below_from:
  "sorted_wrt (<) (map (nkey h) ids) \<Longrightarrow> ids = below h key ids @ from_key h key ids"
proof (induction ids)
  case (Cons a ids)
  show ?case
  proof (cases "nkey h a < key")
    case False
    with Cons.prems have "\<forall>b \<in> set ids. \<not> nkey h b < key" by auto
    with False show ?thesis by (simp add: below_def from_key_def)
  qed (use Cons in \<open>auto simp: below_def from_key_def\<close>)
qed (simp add: below_def from_key_def)

lemma find_level_chain:
  assumes "chain h i x (P @ Q)" "\<forall>a \<in> set (P @ Q). h a \<noteq> None"
    and "\<forall>a \<in> set P. nkey h a < key" "\<forall>a \<in> set Q. \<not> nkey h a < key"
  shows "find_level h key i x = Some (last (x # P), hd_opt Q)"
  using assms
proof (induction P arbitrary: x)
  case Nil
  then show ?case
    by (subst find_level.simps) (auto simp: nkey_def hd_opt_def split: list.splits dest: chain_link)
next
  case (Cons p P)
  then have "find_level h key i x = find_level h key i p"
    by (subst find_level.simps) (auto simp: nkey_def)
  also have "\<dots> = Some (last (p # P), hd_opt Q)" using Cons by auto
  finally show ?case by simp
qed

text \<open>Where the search of level \<open>i\<close> may start: at the head or at a lower node of at least that height.\<close>

definition start_ok :: "nodes \<Rightarrow> addr \<Rightarrow> addr list \<Rightarrow> nat \<Rightarrow> addr \<Rightarrow> bool" where
  "start_ok h head B i x \<longleftrightarrow> x = head \<or> (x \<in> set B \<and> i < nheight h x)"

abbreviation pred_at :: "nodes \<Rightarrow> addr \<Rightarrow> bytes \<Rightarrow> addr list \<Rightarrow> nat \<Rightarrow> addr" where
  "pred_at h head key ids i \<equiv> last (head # level h i (below h key ids))"

abbreviation succ_at :: "nodes \<Rightarrow> bytes \<Rightarrow> addr list \<Rightarrow> nat \<Rightarrow> addr option" where
  "succ_at h key ids i \<equiv> hd_opt (level h i (from_key h key ids))"

lemma heap_ok_level_split:
  assumes "heap_ok h head ids" "i < max_height"
  shows "chain h i head (level h i (below h key ids) @ level h i (from_key h key ids))"
proof -
  have "sorted_wrt (<) (map (nkey h) ids)" using assms(1) by (simp add: heap_ok_def)
  then have e: "below h key ids @ from_key h key ids = ids" by (rule below_from [symmetric])
  have "chain h i head (level h i ids)" using assms by (simp add: heap_ok_def)
  then show ?thesis unfolding level_append [symmetric] e .
qed

lemma find_level_ok:
  assumes ok: "heap_ok h head ids" and i: "i < max_height" and x: "start_ok h head (below h key ids) i x"
  shows "find_level h key i x = Some (pred_at h head key ids i, succ_at h key ids i)"
proof -
  let ?P = "level h i (below h key ids)" and ?Q = "level h i (from_key h key ids)"
  have ch: "chain h i head (?P @ ?Q)" by (rule heap_ok_level_split [OF ok i])
  have "\<exists>post. chain h i x (post @ ?Q) \<and> last (x # post) = last (head # ?P) \<and> set post \<subseteq> set ?P"
  proof (cases "x = head")
    case True
    then show ?thesis using ch by blast
  next
    case False
    then have "x \<in> set ?P" using x by (auto simp: start_ok_def set_level)
    then obtain pre post where sp: "?P = pre @ x # post" by (auto dest: split_list)
    then have "chain h i x (post @ ?Q)" using ch chain_append [of h i head pre x "post @ ?Q"] by simp
    then show ?thesis using sp by (intro exI [of _ post]) auto
  qed
  then obtain post where post: "chain h i x (post @ ?Q)" "last (x # post) = last (head # ?P)" "set post \<subseteq> set ?P"
    by blast
  have "\<forall>a \<in> set ids. h a \<noteq> None" using ok by (auto simp: heap_ok_def node_shape_def)
  then have "find_level h key i x = Some (last (x # post), hd_opt ?Q)"
    using post(1,3) by (intro find_level_chain) (auto simp: set_level below_def from_key_def)
  then show ?thesis using post(2) by simp
qed

lemma start_ok_next:
  "start_ok h head (below h key ids) i (pred_at h head key ids (Suc i))"
proof (cases "level h (Suc i) (below h key ids) = []")
  case False
  then have "last (level h (Suc i) (below h key ids)) \<in> set (level h (Suc i) (below h key ids))" by simp
  then show ?thesis using False by (auto simp: start_ok_def set_level)
qed (simp add: start_ok_def)

lemma find_from_ok:
  assumes ok: "heap_ok h head ids" and n: "n \<le> max_height"
    and x: "0 < n \<Longrightarrow> start_ok h head (below h key ids) (n - 1) x"
  shows "find_from h key n x = Some (map (\<lambda>i. (pred_at h head key ids i, succ_at h key ids i)) [0..<n])"
  using n x
proof (induction n arbitrary: x)
  case (Suc i)
  have "find_level h key i x = Some (pred_at h head key ids i, succ_at h key ids i)"
    using find_level_ok [OF ok] Suc.prems by simp
  moreover have "find_from h key i (pred_at h head key ids i)
      = Some (map (\<lambda>i. (pred_at h head key ids i, succ_at h key ids i)) [0..<i])"
  proof (rule Suc.IH)
    assume "0 < i"
    then show "start_ok h head (below h key ids) (i - 1) (pred_at h head key ids i)"
      using start_ok_next [of h head key ids "i - 1"] by simp
  qed (use Suc.prems in simp)
  ultimately show ?case by simp
qed simp

definition search_result :: "nodes \<Rightarrow> addr \<Rightarrow> bytes \<Rightarrow> addr list \<Rightarrow> (addr \<times> addr option) list" where
  "search_result h head key ids = map (\<lambda>i. (pred_at h head key ids i, succ_at h key ids i)) [0..<max_height]"

lemma node_height_pos: "heap_ok h head ids \<Longrightarrow> a \<in> set ids \<Longrightarrow> 0 < nheight h a"
  by (fastforce simp: heap_ok_def node_shape_def nheight_def)

lemma level_0: "heap_ok h head ids \<Longrightarrow> set xs \<subseteq> set ids \<Longrightarrow> level h 0 xs = xs"
  unfolding level_def by (intro filter_True ballI) (auto dest: node_height_pos)

lemma sl_find_ok:
  assumes ok: "heap_ok h head ids"
  shows "sl_find h head key = Some (key \<in> nkey h ` set ids, search_result h head key ids)"
proof -
  have ff: "find_from h key max_height head = Some (search_result h head key ids)"
    unfolding search_result_def by (rule find_from_ok [OF ok]) (simp_all add: start_ok_def)
  let ?C = "from_key h key ids"
  have s0: "snd (search_result h head key ids ! 0) = hd_opt ?C"
    using level_0 [OF ok, of ?C] by (simp add: search_result_def max_height_def from_key_def)
  have sorted: "sorted_wrt (<) (map (nkey h) ids)" using ok by (simp add: heap_ok_def)
  have mem: "key \<in> nkey h ` set ids \<longleftrightarrow> (\<exists>a C. ?C = a # C \<and> nkey h a = key)"
  proof
    assume "key \<in> nkey h ` set ids"
    then obtain b where b: "b \<in> set ?C" "nkey h b = key" by (auto simp: from_key_def)
    then obtain a C where aC: "?C = a # C" by (cases ?C) auto
    have "sorted_wrt (<) (map (nkey h) ?C)"
      using sorted by (simp add: from_key_def sorted_wrt_filter sorted_wrt_map)
    moreover have "a \<in> set ?C" using aC by simp
    then have "\<not> nkey h a < key" by (simp add: from_key_def)
    ultimately have "nkey h a = key" using b aC by (auto simp: antisym)
    with aC show "\<exists>a C. ?C = a # C \<and> nkey h a = key" by blast
  next
    assume "\<exists>a C. ?C = a # C \<and> nkey h a = key"
    then obtain a where "a \<in> set ?C" "nkey h a = key" by force
    then show "key \<in> nkey h ` set ids" by (auto simp: from_key_def)
  qed
  have C_ok: "\<forall>a \<in> set ?C. h a \<noteq> None" using ok by (auto simp: heap_ok_def node_shape_def from_key_def)
  show ?thesis
    using C_ok mem unfolding sl_find_def ff by (cases ?C) (auto simp: s0 nkey_def)
qed

section \<open>Linking a node in\<close>

text \<open>Node \<open>a\<close> of height \<open>ht\<close> belongs between \<open>B\<close> and \<open>C\<close> and is linked on the levels below \<open>k\<close>.\<close>

definition part_linked :: "nodes \<Rightarrow> addr \<Rightarrow> addr list \<Rightarrow> addr \<Rightarrow> addr list \<Rightarrow> nat \<Rightarrow> bool" where
  "part_linked h head B a C k \<longleftrightarrow> distinct (head # B @ a # C) \<and> (\<forall>x \<in> set (head # B @ a # C). node_shape h x)
     \<and> nheight h head = max_height
     \<and> (\<forall>i < nheight h a. link h a i = Some (hd_opt (level h i C)))
     \<and> (\<forall>i < max_height. chain h i head (level h i B @ (if i < k then [a] else []) @ level h i C))"

lemma same_data_level: "same_data h h' \<Longrightarrow> level h' i xs = level h i xs"
  by (simp add: level_def same_data_height)

lemma same_data_shape: "same_data h h' \<Longrightarrow> node_shape h' x \<longleftrightarrow> node_shape h x"
proof (cases "h x")
  case (Some n)
  assume "same_data h h'"
  from same_dataD(2) [OF this Some] Some show ?thesis by (auto simp: node_shape_def)
next
  case None
  assume "same_data h h'"
  from same_dataD(1) [OF this, of x] None show ?thesis by (simp add: node_shape_def)
qed

lemma nheight_le: "node_shape h x \<Longrightarrow> nheight h x \<le> max_height"
  by (auto simp: node_shape_def nheight_def)

lemma link_step:
  assumes pl: "part_linked h head B a C k" and k: "k < nheight h a"
  defines "p \<equiv> last (head # level h k B)" and "q \<equiv> hd_opt (level h k C)"
  shows "cas h p k q a = Some (True, set_link h p k (Some a))"
    and "part_linked (set_link h p k (Some a)) head B a C (Suc k)"
proof -
  let ?h = "set_link h p k (Some a)"
  have "node_shape h a" using pl by (simp add: part_linked_def)
  then have kM: "k < max_height" using k nheight_le by fastforce
  have ch: "chain h k head (level h k B @ level h k C)"
    using pl kM by (auto simp: part_linked_def dest!: spec [of _ k])
  have lk: "link h p k = Some q" unfolding p_def q_def by (rule chain_last_link [OF ch])
  then show "cas h p k q a = Some (True, ?h)" by (simp add: cas_def)
  have link': "link ?h y i = (if y = p \<and> i = k then Some (Some a) else link h y i)" for y i
    using lk by (auto simp: link_set_link)
  have sd: "same_data h ?h" by (rule same_data_set_link)
  have p_in: "p \<in> set (head # B)"
    using last_in_set [of "head # level h k B"] by (auto simp: p_def set_level split: if_split_asm)
  have dist: "distinct (head # B @ a # C)" using pl by (simp add: part_linked_def)
  have "p \<noteq> a" using p_in dist by auto
  have "chain ?h k head (level h k B @ a # level h k C)"
  proof (rule chain_insert [OF ch])
    show "distinct (head # level h k B @ level h k C)" "a \<notin> set (head # level h k B @ level h k C)"
      using dist by (auto simp: set_level level_def)
    show "link h a k = Some (hd_opt (level h k C))" using pl k by (simp add: part_linked_def)
    show "link ?h y k = (if y = last (head # level h k B) then Some (Some a) else link h y k)" for y
      using link' [of y k] by (simp only: p_def simp_thms)
  qed
  moreover have "chain ?h i head xs = chain h i head xs" if "i \<noteq> k" for i xs
    using that by (intro chain_cong) (simp add: link')
  ultimately have "chain ?h i head (level h i B @ (if i < Suc k then [a] else []) @ level h i C)" if "i < max_height" for i
    using pl that by (cases "i = k") (auto simp: part_linked_def less_Suc_eq)
  then show "part_linked ?h head B a C (Suc k)"
    using pl \<open>p \<noteq> a\<close>
    by (simp add: part_linked_def same_data_level [OF sd] same_data_shape [OF sd] same_data_height [OF sd] link')
qed

lemma part_linked_same_links:
  assumes "part_linked h head B a C k" "same_data h h'" "\<And>y i. link h' y i = link h y i"
  shows "part_linked h' head B a C k"
proof -
  have "chain h' i x xs = chain h i x xs" for i x xs by (intro chain_cong) (simp add: assms(3))
  then show ?thesis
    using assms(1) by (simp add: part_linked_def same_data_level [OF assms(2)] same_data_shape [OF assms(2)]
        same_data_height [OF assms(2)] assms(3))
qed

lemma link_level_ok:
  assumes pl: "part_linked h head B a C k" and k: "k < nheight h a"
    and ps: "ps ! k = (last (head # level h k B), hd_opt (level h k C))"
  shows "\<exists>h'. link_level head' key k a ps h = Some (ps, h') \<and> part_linked h' head B a C (Suc k) \<and> same_data h h'"
proof -
  let ?h = "set_link h a k (snd (ps ! k))"
  have sd: "same_data h ?h" by (rule same_data_set_link)
  have "link ?h y i = link h y i" for y i
    using pl k by (auto simp: link_set_link ps part_linked_def)
  then have pl': "part_linked ?h head B a C k" by (rule part_linked_same_links [OF pl sd])
  have k': "k < nheight ?h a" using k by (simp add: same_data_height [OF sd])
  note st = link_step [OF pl' k', unfolded same_data_level [OF sd]]
  have "link_level head' key k a ps h = Some (ps, set_link ?h (last (head # level h k B)) k (Some a))"
    by (subst link_level.simps) (use st(1) in \<open>simp add: ps Let_def\<close>)
  then show ?thesis
    using st(2) same_data_trans [OF sd same_data_set_link] by blast
qed

lemma link_levels_ok:
  assumes "part_linked h head B a C k" "nheight h a = ht" "k \<le> ht"
    and "\<And>i. i < ht \<Longrightarrow> ps ! i = (last (head # level h i B), hd_opt (level h i C))"
  shows "\<exists>h'. link_levels head' key [k..<ht] a ps h = Some h' \<and> part_linked h' head B a C ht \<and> same_data h h'"
  using assms
proof (induction "ht - k" arbitrary: k h)
  case 0
  then show ?case by auto
next
  case (Suc d)
  then have k: "k < ht" by linarith
  then obtain h1 where h1: "link_level head' key k a ps h = Some (ps, h1)" "part_linked h1 head B a C (Suc k)"
      "same_data h h1"
    using link_level_ok [OF Suc.prems(1), of ps head' key] Suc.prems by auto
  have "\<exists>h'. link_levels head' key [Suc k..<ht] a ps h1 = Some h' \<and> part_linked h' head B a C ht \<and> same_data h1 h'"
    using Suc.hyps(2) Suc.prems k h1
    by (intro Suc.hyps(1)) (auto simp: same_data_height [OF h1(3)] same_data_level [OF h1(3)])
  then show ?case
    using h1 k by (auto simp: upt_conv_Cons intro: same_data_trans)
qed

lemma part_linked_full:
  assumes pl: "part_linked h head B a C (nheight h a)" and sorted: "sorted_wrt (<) (map (nkey h) (B @ a # C))"
  shows "heap_ok h head (B @ a # C)"
proof -
  have "level h i (B @ a # C) = level h i B @ (if i < nheight h a then [a] else []) @ level h i C" for i
    by (simp add: level_Cons)
  then show ?thesis using pl sorted by (simp add: part_linked_def heap_ok_def)
qed

section \<open>The whole list\<close>

definition sl_inv :: "skiplist \<Rightarrow> addr list \<Rightarrow> bool" where
  "sl_inv s ids \<longleftrightarrow> heap_ok (sl_nodes s) (sl_head s) ids \<and> arena_ok (sl_arena s)
     \<and> dom (sl_nodes s) \<union> dom (sl_slots s) \<subseteq> handed_out (sl_arena s)
     \<and> (\<forall>a \<in> set ids. sl_slots s (nd_value (the (sl_nodes s a))) \<noteq> None)"

definition node_entry :: "skiplist \<Rightarrow> addr \<Rightarrow> entry" where
  "node_entry s a = (nkey (sl_nodes s) a, the (sl_slots s (nd_value (the (sl_nodes s a)))))"

definition sl_entries :: "skiplist \<Rightarrow> addr list \<Rightarrow> entry list" where
  "sl_entries s ids = map (node_entry s) ids"

lemma handed_out_registerDestructor [simp]:
  "handed_out (registerDestructor p a) = handed_out a" "arena_ok (registerDestructor p a) = arena_ok a"
  by (simp_all add: registerDestructor_def handed_out_def block_union_def free_tail_def arena_ok_def)

lemma in_region: "0 < n \<Longrightarrow> p \<in> region p n"
  by (simp add: region_def)

text \<open>Allocation only adds: objects already in use stay where they are.\<close>

definition mem_ok :: "skiplist \<Rightarrow> bool" where
  "mem_ok s \<longleftrightarrow> arena_ok (sl_arena s) \<and> dom (sl_nodes s) \<union> dom (sl_slots s) \<subseteq> handed_out (sl_arena s)"

lemma makeSlot_ok:
  assumes "new_ok new_char" "mem_ok s" "makeSlot new_char v s = (r, s')"
  shows "mem_ok s' \<and> sl_nodes s' = sl_nodes s \<and> sl_head s' = sl_head s
     \<and> (case r of Inl e \<Rightarrow> sl_slots s' = sl_slots s
        | Inr p \<Rightarrow> sl_slots s p = None \<and> sl_slots s' = (sl_slots s)(p \<mapsto> v))"
proof -
  obtain res a where al: "allocate new_char sizeof_slot alignof_node (sl_arena s) = (res, a)" by fastforce
  show ?thesis
  proof (cases res)
    case (Inl e)
    then have "a = sl_arena s" using al allocate_Inl by simp
    then show ?thesis using assms Inl al by (auto simp: makeSlot_def)
  next
    case (Inr p)
    have post: "arena_ok a" "region p sizeof_slot \<inter> handed_out (sl_arena s) = {}"
        "handed_out (sl_arena s) \<union> region p sizeof_slot \<subseteq> handed_out a"
      using arena.alloc_Inr [of new_char "sl_arena s" sizeof_slot alignof_node p a] assms al Inr
      by (auto simp: mem_ok_def)
    have "p \<in> region p sizeof_slot" by (rule in_region) (simp add: sizeof_slot_def)
    then have p: "p \<notin> handed_out (sl_arena s)" "p \<in> handed_out a" using post by auto
    have s': "r = Inr p" "s' = s\<lparr>sl_arena := registerDestructor p a, sl_slots := (sl_slots s)(p \<mapsto> v)\<rparr>"
      using assms(3) al Inr by (auto simp: makeSlot_def)
    have dom: "dom (sl_nodes s) \<subseteq> handed_out (sl_arena s)" "dom (sl_slots s) \<subseteq> handed_out (sl_arena s)"
      using assms(2) by (auto simp: mem_ok_def)
    then have "sl_slots s p = None" "dom (sl_nodes s) \<subseteq> handed_out a" "dom ((sl_slots s)(p \<mapsto> v)) \<subseteq> handed_out a"
      using p post(3) by auto
    then show ?thesis using post(1) by (simp add: s' mem_ok_def)
  qed
qed

lemma create_ok:
  assumes "new_ok new_char" "mem_ok s" "create new_char k v h s = (r, s')"
  shows "mem_ok s' \<and> sl_head s' = sl_head s
     \<and> (case r of
          Inl e \<Rightarrow> sl_slots s' = sl_slots s \<and> (\<forall>a. sl_nodes s a \<noteq> None \<longrightarrow> sl_nodes s' a = sl_nodes s a)
        | Inr n \<Rightarrow> \<exists>p. sl_nodes s n = None \<and> sl_slots s p = None \<and> sl_slots s' = (sl_slots s)(p \<mapsto> v)
            \<and> sl_nodes s' = (sl_nodes s)(n \<mapsto> \<lparr>nd_key = k, nd_value = p, nd_height = h, nd_next = replicate h None\<rparr>))"
proof -
  define total where "total = sizeof_node + (if sizeof_node mod sizeof_link \<noteq> 0 then sizeof_link - sizeof_node mod sizeof_link else 0)
     + sizeof_link * h"
  obtain res a where al: "allocate new_char total alignof_node (sl_arena s) = (res, a)" by fastforce
  show ?thesis
  proof (cases res)
    case (Inl e)
    then have "a = sl_arena s" using al allocate_Inl by simp
    then show ?thesis using assms Inl al by (auto simp: create_def total_def Let_def)
  next
    case (Inr n)
    define node where "node = \<lparr>nd_key = k, nd_value = 0, nd_height = h, nd_next = replicate h None\<rparr>"
    define s1 where "s1 = s\<lparr>sl_arena := a, sl_nodes := (sl_nodes s)(n \<mapsto> node)\<rparr>"
    obtain r2 s2 where ms: "makeSlot new_char v s1 = (r2, s2)" by fastforce
    have post: "arena_ok a" "region n total \<inter> handed_out (sl_arena s) = {}"
        "handed_out (sl_arena s) \<union> region n total \<subseteq> handed_out a"
      using arena.alloc_Inr [of new_char "sl_arena s" total alignof_node n a] assms al Inr
      by (auto simp: mem_ok_def)
    have "n \<in> region n total" by (rule in_region) (simp add: total_def sizeof_node_def)
    then have n: "sl_nodes s n = None" and m1: "mem_ok s1"
      using assms(2) post by (auto simp: mem_ok_def s1_def)
    have cr: "create new_char k v h s = (case r2 of Inl e \<Rightarrow> (Inl e, s2)
        | Inr p \<Rightarrow> (Inr n, s2\<lparr>sl_nodes := (sl_nodes s2)(n \<mapsto> node\<lparr>nd_value := p\<rparr>),
                               sl_arena := registerDestructor n (sl_arena s2)\<rparr>))"
      using ms Inr unfolding create_def Let_def total_def [symmetric] al node_def [symmetric]
      by (simp add: s1_def [symmetric] split: sum.splits)
    note sl = makeSlot_ok [OF assms(1) m1 ms]
    show ?thesis
    proof (cases r2)
      case (Inl e)
      then show ?thesis using cr assms(3) sl n by (auto simp: s1_def)
    next
      case r2: (Inr p)
      then have "n \<in> dom (sl_nodes s2)" using sl by (simp add: s1_def)
      then show ?thesis using cr assms(3) sl n r2 by (auto simp: s1_def mem_ok_def node_def)
    qed
  qed
qed

lemma heap_ok_cong:
  assumes links: "\<And>a i. a \<in> set (head # ids) \<Longrightarrow> link h' a i = link h a i"
    and data: "\<And>a. a \<in> set (head # ids) \<Longrightarrow> nkey h' a = nkey h a \<and> nheight h' a = nheight h a \<and> node_shape h' a = node_shape h a"
  shows "heap_ok h' head ids = heap_ok h head ids"
proof -
  have lv: "level h' i ids = level h i ids" for i
    using data by (auto simp: level_def intro!: filter_cong)
  have "chain h' i head (level h' i ids) = chain h i head (level h i ids)" for i
    unfolding lv using links by (intro chain_cong) (auto simp: set_level)
  moreover have k: "map (nkey h') ids = map (nkey h) ids" using data by simp
  ultimately show ?thesis unfolding heap_ok_def k using data by auto
qed

lemma heap_ok_frame:
  "(\<And>a. a \<in> set (head # ids) \<Longrightarrow> h' a = h a) \<Longrightarrow> heap_ok h' head ids = heap_ok h head ids"
  by (rule heap_ok_cong) (simp_all add: link_def nkey_def nheight_def node_shape_def)

section \<open>Insertion is insertion into a sorted list\<close>

definition upsert :: "bytes \<Rightarrow> bytes option \<Rightarrow> entry list \<Rightarrow> entry list" where
  "upsert key v es = filter (\<lambda>e. fst e < key) es @ (key, v) # filter (\<lambda>e. key < fst e) es"

lemma map_of_upsert: "ssorted es \<Longrightarrow> map_of (upsert key v es) = (map_of es)(key \<mapsto> v)"
proof
  fix k
  assume "ssorted es"
  then have "map_of (filter (\<lambda>e. P (fst e)) es) k = (if P k then map_of es k else None)" for P
    by (induction es) auto
  from this [of "\<lambda>x. x < key"] this [of "\<lambda>x. key < x"]
  show "map_of (upsert key v es) k = ((map_of es)(key \<mapsto> v)) k"
    by (cases k key rule: linorder_cases) (auto simp: upsert_def map_add_def split: option.splits)
qed

lemma ssorted_upsert: "ssorted es \<Longrightarrow> ssorted (upsert key v es)"
  by (auto simp: upsert_def sorted_wrt_append sorted_wrt_map sorted_wrt_filter intro: less_trans)

definition old_size :: "entry list \<Rightarrow> bytes \<Rightarrow> nat" where
  "old_size es key = (case map_of es key of Some (Some old) \<Rightarrow> length old | _ \<Rightarrow> 0)"

lemma map_le_fresh: "f k = None \<Longrightarrow> f \<subseteq>\<^sub>m f(k \<mapsto> v)"
  by (auto simp: map_le_def)

text \<open>What an insertion leaves: on failure the list as it was, otherwise the entry stored; value cells a
  reader may hold are never written again.\<close>

definition insert_post :: "bytes \<Rightarrow> bytes option \<Rightarrow> skiplist \<Rightarrow> entry list \<Rightarrow> mem_error + insert_result \<Rightarrow> skiplist \<Rightarrow> bool" where
  "insert_post key v s es r s' \<longleftrightarrow> sl_slots s \<subseteq>\<^sub>m sl_slots s' \<and>
     (case r of
        Inl e \<Rightarrow> \<exists>ids'. sl_inv s' ids' \<and> sl_entries s' ids' = es
      | Inr (inserted, replaced) \<Rightarrow> \<exists>ids'. sl_inv s' ids' \<and> sl_entries s' ids' = upsert key v es
          \<and> inserted = (map_of es key = None) \<and> replaced = old_size es key)"

lemma sl_entries_sorted: "sl_inv s ids \<Longrightarrow> ssorted (sl_entries s ids)"
  by (simp add: sl_inv_def heap_ok_def sl_entries_def node_entry_def comp_def)

lemma keys_sl_entries [simp]: "map fst (sl_entries s ids) = map (nkey (sl_nodes s)) ids"
  by (simp add: sl_entries_def node_entry_def)

lemma sl_inv_mem: "sl_inv s ids \<Longrightarrow> mem_ok s"
  by (simp add: sl_inv_def mem_ok_def)

text \<open>Nodes and cells in use are untouched by allocation, so the list reads the same.\<close>

lemma sl_inv_frame:
  assumes inv: "sl_inv s ids" and mem: "mem_ok s'" and head: "sl_head s' = sl_head s"
    and nodes: "\<And>a. sl_nodes s a \<noteq> None \<Longrightarrow> sl_nodes s' a = sl_nodes s a"
    and slots: "\<And>p. sl_slots s p \<noteq> None \<Longrightarrow> sl_slots s' p = sl_slots s p"
  shows "sl_inv s' ids" "sl_entries s' ids = sl_entries s ids"
proof -
  have shape: "sl_nodes s a \<noteq> None" if "a \<in> set (sl_head s # ids)" for a
    using inv that by (auto simp: sl_inv_def heap_ok_def node_shape_def)
  then have eq: "sl_nodes s' a = sl_nodes s a" if "a \<in> set (sl_head s # ids)" for a using that nodes by blast
  have sl: "sl_slots s' (nd_value (the (sl_nodes s' a))) = sl_slots s (nd_value (the (sl_nodes s a)))" if "a \<in> set ids" for a
    using inv that slots eq [of a] by (simp add: sl_inv_def)
  have "heap_ok (sl_nodes s') (sl_head s) ids"
    using heap_ok_frame [of "sl_head s" ids "sl_nodes s'" "sl_nodes s"] eq inv by (simp add: sl_inv_def)
  then show "sl_inv s' ids" using inv mem head sl by (simp add: sl_inv_def mem_ok_def)
  show "sl_entries s' ids = sl_entries s ids"
    using sl eq by (simp add: sl_entries_def node_entry_def nkey_def)
qed

lemma search_result_nth:
  "i < max_height \<Longrightarrow> search_result h head key ids ! i = (pred_at h head key ids i, succ_at h key ids i)"
  by (simp add: search_result_def)

lemma map_of_entry:
  assumes "sl_inv s ids" "a \<in> set ids" "nkey (sl_nodes s) a = key"
  shows "map_of (sl_entries s ids) key = Some (the (sl_slots s (nd_value (the (sl_nodes s a)))))"
proof (rule map_of_is_SomeI)
  show "distinct (map fst (sl_entries s ids))" using sl_entries_sorted [OF assms(1)] by (rule ssorted_distinct)
  show "(key, the (sl_slots s (nd_value (the (sl_nodes s a))))) \<in> set (sl_entries s ids)"
    using assms(2,3) by (force simp: sl_entries_def node_entry_def)
qed

lemma upsert_split:
  assumes "ssorted (P @ (key, old) # Q)"
  shows "upsert key v (P @ (key, old) # Q) = P @ (key, v) # Q"
proof -
  have "\<forall>e \<in> set P. fst e < key" "\<forall>e \<in> set Q. key < fst e" using assms by (auto simp: sorted_wrt_append)
  then have "filter (\<lambda>e. fst e < key) P = P" "filter (\<lambda>e. key < fst e) P = []"
      "filter (\<lambda>e. fst e < key) Q = []" "filter (\<lambda>e. key < fst e) Q = Q"
    by (auto simp: filter_id_conv filter_empty_conv intro: less_imp_not_less)
  then show ?thesis by (simp add: upsert_def)
qed

lemma update_value_ok:
  assumes new: "new_ok new_char" and inv: "sl_inv s ids" and y: "y \<in> set ids" "sl_nodes s y = Some m" "nd_key m = key"
    and up: "update_value new_char v y m s = (r, s')"
  shows "insert_post key v s (sl_entries s ids) r s'"
proof -
  obtain r1 s1 where ms: "makeSlot new_char v s = (r1, s1)" by fastforce
  note sl = makeSlot_ok [OF new sl_inv_mem [OF inv] ms]
  show ?thesis
  proof (cases r1)
    case (Inl e)
    then have "sl_inv s1 ids" "sl_entries s1 ids = sl_entries s ids"
      using sl sl_inv_frame [OF inv, of s1] by auto
    then show ?thesis using up ms Inl sl by (auto simp: update_value_def insert_post_def)
  next
    case (Inr p)
    define h where "h = (sl_nodes s)(y \<mapsto> m\<lparr>nd_value := p\<rparr>)"
    have s': "s' = s1\<lparr>sl_nodes := h\<rparr>" and r: "r = Inr (False, case sl_slots s (nd_value m) of Some (Some old) \<Rightarrow> length old | _ \<Rightarrow> 0)"
      using up ms Inr sl by (auto simp: update_value_def h_def Let_def)
    have key_y: "nkey (sl_nodes s) y = key" using y by (simp add: nkey_def)
    have hok: "heap_ok h (sl_head s) ids"
      using heap_ok_cong [of "sl_head s" ids h "sl_nodes s"] inv y
      by (auto simp: sl_inv_def h_def link_def nkey_def nheight_def node_shape_def)
    have slot: "sl_slots s' (nd_value (the (h a))) = (if a = y then Some v else sl_slots s (nd_value (the (sl_nodes s a))))"
      if "a \<in> set ids" for a
      using inv that sl Inr by (auto simp: s' h_def sl_inv_def)
    have dom: "dom h = dom (sl_nodes s)" using y(2) by (auto simp: h_def)
    have inv': "sl_inv s' ids"
      using hok sl Inr inv slot by (auto simp: sl_inv_def s' mem_ok_def dom split: if_split_asm)
    obtain P Q where ids: "ids = P @ y # Q" using y(1) by (auto dest: split_list)
    have yPQ: "y \<notin> set P \<union> set Q" using inv ids by (auto simp: sl_inv_def heap_ok_def)
    have entry: "node_entry s' a = (if a = y then (key, v) else node_entry s a)" if "a \<in> set ids" for a
      using slot [OF that] y by (auto simp: node_entry_def s' nkey_def h_def)
    have "sl_entries s' ids = sl_entries s P @ (key, v) # sl_entries s Q"
      using entry yPQ by (auto simp: sl_entries_def ids)
    also have "\<dots> = upsert key v (sl_entries s ids)"
      using sl_entries_sorted [OF inv] key_y
      by (subst upsert_split [symmetric]) (auto simp: sl_entries_def ids node_entry_def)
    finally have ent: "sl_entries s' ids = upsert key v (sl_entries s ids)" .
    have "map_of (sl_entries s ids) key = Some (the (sl_slots s (nd_value m)))"
      using map_of_entry [OF inv y(1) key_y] y(2) by simp
    moreover have "sl_slots s (nd_value m) \<noteq> None" using inv y by (auto simp: sl_inv_def)
    ultimately show ?thesis
      using inv' ent sl Inr by (auto simp: insert_post_def r old_size_def s' map_le_fresh split: option.splits)
  qed
qed

lemma fold_set_link:
  assumes "\<And>i. i < m \<Longrightarrow> link h n i \<noteq> None"
  shows "same_data h (fold (\<lambda>i h. set_link h n i (f i)) [0..<m] h)
    \<and> (\<forall>y i. link (fold (\<lambda>i h. set_link h n i (f i)) [0..<m] h) y i = (if y = n \<and> i < m then Some (f i) else link h y i))"
  using assms
proof (induction m)
  case (Suc m)
  let ?g = "fold (\<lambda>i h. set_link h n i (f i)) [0..<m] h"
  have IH: "same_data h ?g" "link ?g y i = (if y = n \<and> i < m then Some (f i) else link h y i)" for y i
    using Suc by auto
  have "same_data h (set_link ?g n m (f m))" by (rule same_data_trans [OF IH(1) same_data_set_link])
  moreover have "link (set_link ?g n m (f m)) y i = (if y = n \<and> i < Suc m then Some (f i) else link h y i)" for y i
    using Suc.prems [of m] by (auto simp: link_set_link IH(2) less_Suc_eq)
  ultimately show ?case by simp
qed simp

lemma randomHeight_range:
  "1 \<le> h \<Longrightarrow> h \<le> max_height \<Longrightarrow> randomHeight h rng = (h', rng') \<Longrightarrow> 1 \<le> h' \<and> h' \<le> max_height"
proof (induction h rng rule: randomHeight.induct)
  case (1 h rng)
  from 1(4) show ?case
    by (subst (asm) randomHeight.simps) (use 1(1-3) in \<open>auto split: if_split_asm\<close>)
qed

lemma new_node_prepared:
  assumes ok: "heap_ok h head ids" and n: "h n = None" and ht: "1 \<le> ht" "ht \<le> max_height"
    and node: "h0 = h(n \<mapsto> \<lparr>nd_key = key, nd_value = p, nd_height = ht, nd_next = replicate ht None\<rparr>)"
    and h1: "h1 = fold (\<lambda>i h. set_link h n i (snd (search_result h' head key ids ! i))) [0..<ht] h0" and h': "h' = h"
  shows "part_linked h1 head (below h key ids) n (from_key h key ids) 0" "same_data h0 h1" "nheight h1 n = ht"
    and "level h1 i (below h key ids) = level h i (below h key ids)"
        "level h1 i (from_key h key ids) = level h i (from_key h key ids)"
proof -
  let ?B = "below h key ids" and ?C = "from_key h key ids"
  have sorted: "sorted_wrt (<) (map (nkey h) ids)" using ok by (simp add: heap_ok_def)
  note BC = below_from [OF sorted, of key]
  have shape: "node_shape h a" if "a \<in> set (head # ids)" for a using ok that by (auto simp: heap_ok_def)
  have n_out: "n \<notin> set (head # ids)" using shape [of n] n unfolding node_shape_def by fastforce
  have "link h0 n i \<noteq> None" if "i < ht" for i using that by (simp add: node link_def)
  note f = fold_set_link [of ht h0 n "\<lambda>i. snd (search_result h' head key ids ! i)", OF this, folded h1]
  show sd: "same_data h0 h1" using f by simp
  have link1: "link h1 y i = (if y = n \<and> i < ht then Some (succ_at h key ids i) else link h0 y i)" for y i
    using f ht(2) by (auto simp: h' search_result_nth)
  have h0_eq: "h0 a = h a" if "a \<in> set (head # ids)" for a using that n_out by (auto simp: node)
  have link_old: "link h1 y i = link h y i" if "y \<in> set (head # ids)" for y i
    using that n_out h0_eq [OF that] unfolding link1 by (auto simp: link_def)
  have nh: "nheight h1 a = nheight h a" if "a \<in> set (head # ids)" for a
    using h0_eq [OF that] unfolding same_data_height [OF sd] by (simp add: nheight_def)
  have sets: "set ?B \<subseteq> set ids" "set ?C \<subseteq> set ids" by (auto simp: below_def from_key_def)
  have lv: "level h1 i xs = level h i xs" if "set xs \<subseteq> set ids" for xs i
    using that nh by (auto simp: level_def intro!: filter_cong)
  show "level h1 i ?B = level h i ?B" "level h1 i ?C = level h i ?C" using lv sets by auto
  show nh_n: "nheight h1 n = ht" unfolding same_data_height [OF sd] by (simp add: nheight_def node)
  have "chain h1 i head (level h i ids) = chain h i head (level h i ids)" for i
    using link_old by (intro chain_cong) (auto simp: set_level)
  then have "chain h1 i head (level h i ?B @ level h i ?C)" if "i < max_height" for i
    using ok that BC by (metis heap_ok_def level_append)
  moreover have "distinct (head # ?B @ n # ?C)"
  proof -
    have "distinct (head # ?B @ ?C)" using ok BC by (metis heap_ok_def)
    then show ?thesis using n_out sets by auto
  qed
  moreover have "node_shape h1 a" if "a \<in> set (head # ?B @ n # ?C)" for a
  proof (cases "a = n")
    case True
    then show ?thesis using ht unfolding same_data_shape [OF sd] by (simp add: node_shape_def node)
  next
    case False
    then have "a \<in> set (head # ids)" using that sets by auto
    then show ?thesis using shape h0_eq unfolding same_data_shape [OF sd] by (simp add: node_shape_def)
  qed
  moreover have "nheight h1 head = max_height" using nh ok by (simp add: heap_ok_def)
  moreover have "link h1 n i = Some (hd_opt (level h1 i ?C))" if "i < ht" for i
    using that by (simp add: link1 lv [OF sets(2)])
  ultimately show "part_linked h1 head ?B n ?C 0"
    unfolding part_linked_def by (simp add: lv [OF sets(1)] lv [OF sets(2)] nh_n)
qed

text \<open>The links of a fresh node swing in on every level, with no compare-and-swap lost.\<close>

lemma new_node_linked:
  assumes ok: "heap_ok h head ids" and n: "h n = None" and ht: "1 \<le> ht" "ht \<le> max_height"
    and key: "key \<notin> nkey h ` set ids"
    and node: "h0 = h(n \<mapsto> \<lparr>nd_key = key, nd_value = p, nd_height = ht, nd_next = replicate ht None\<rparr>)"
    and ps: "ps = search_result h head key ids"
    and h1: "h1 = fold (\<lambda>i h. set_link h n i (snd (ps ! i))) [0..<ht] h0"
  shows "\<exists>h2 h3. cas h1 (fst (ps ! 0)) 0 (snd (ps ! 0)) n = Some (True, h2)
     \<and> link_levels head key [1..<ht] n ps h2 = Some h3
     \<and> heap_ok h3 head (below h key ids @ n # from_key h key ids) \<and> same_data h0 h3"
proof -
  let ?B = "below h key ids" and ?C = "from_key h key ids"
  note prep = new_node_prepared [OF ok n ht node h1 [unfolded ps] refl]
  have ps_nth: "ps ! i = (last (head # level h i ?B), hd_opt (level h i ?C))" if "i < ht" for i
    using that ht by (simp add: ps search_result_nth)
  define h2 where "h2 = set_link h1 (last (head # level h1 0 ?B)) 0 (Some n)"
  have z: "0 < nheight h1 n" using prep(3) ht by simp
  note st = link_step [OF prep(1) z, folded h2_def]
  have sd12: "same_data h1 h2" unfolding h2_def by (rule same_data_set_link)
  have sd2: "same_data h0 h2" by (rule same_data_trans [OF prep(2) sd12])
  have nh2: "nheight h2 n = ht" and lv2: "level h2 i ?B = level h i ?B" "level h2 i ?C = level h i ?C" for i
    by (simp_all add: same_data_height [OF sd12] same_data_level [OF sd12] prep)
  obtain h3 where h3: "link_levels head key [1..<ht] n ps h2 = Some h3" "part_linked h3 head ?B n ?C ht" "same_data h2 h3"
    using link_levels_ok [OF _ nh2 ht(1), of head ?B ?C ps head key] st(2) ps_nth unfolding lv2 by auto
  have sd3: "same_data h0 h3" by (rule same_data_trans [OF sd2 h3(3)])
  have sorted: "sorted_wrt (<) (map (nkey h) ids)" using ok by (simp add: heap_ok_def)
  have shape: "h a \<noteq> None" if "a \<in> set ids" for a using ok that by (auto simp: heap_ok_def node_shape_def)
  have keys3: "nkey h3 a = nkey h a" if "a \<in> set ids" for a
    using shape [OF that] n that same_data_key [OF sd3, of a] by (auto simp: node nkey_def)
  have key_n: "nkey h3 n = key" using same_data_key [OF sd3, of n] by (simp add: node nkey_def)
  have "sorted_wrt (<) (map (nkey h3) (?B @ n # ?C))"
  proof -
    have m: "map (nkey h3) ?B = map (nkey h) ?B" "map (nkey h3) ?C = map (nkey h) ?C"
      using keys3 by (auto simp: below_def from_key_def)
    have C: "\<forall>a \<in> set ?C. key < nkey h a"
      using key by (auto simp: from_key_def not_less le_less)
    have "sorted_wrt (<) (map (nkey h) ?B)" "sorted_wrt (<) (map (nkey h) ?C)"
      using sorted by (simp_all add: below_def from_key_def sorted_wrt_filter sorted_wrt_map)
    then show ?thesis
      using C unfolding map_append list.map m key_n
      by (auto simp: sorted_wrt_append below_def intro: less_trans)
  qed
  then have "heap_ok h3 head (?B @ n # ?C)"
    using h3(2,3) prep(3) by (intro part_linked_full) (simp_all add: same_data_height [OF h3(3)] nh2)
  moreover have "cas h1 (fst (ps ! 0)) 0 (snd (ps ! 0)) n = Some (True, h2)"
    using st(1) ht unfolding prep(4,5) by (subst (1 2) ps_nth) simp_all
  ultimately show ?thesis using h3(1) sd3 by blast
qed

lemma sl_insert_new:
  assumes new: "new_ok new_char" and inv: "sl_inv s ids" and key: "key \<notin> nkey (sl_nodes s) ` set ids"
  shows "\<exists>r rng' s'. sl_insert new_char key v rng s = Some (r, rng', s') \<and> insert_post key v s (sl_entries s ids) r s'"
proof -
  let ?h = "sl_nodes s"
  have ok: "heap_ok ?h (sl_head s) ids" using inv by (simp add: sl_inv_def)
  define ps where "ps = search_result ?h (sl_head s) key ids"
  have find: "sl_find ?h (sl_head s) key = Some (False, ps)" using sl_find_ok [OF ok] key by (simp add: ps_def)
  obtain ht rng' where rh: "randomHeight (Suc 0) rng = (ht, rng')" by fastforce
  have ht: "1 \<le> ht" "ht \<le> max_height" using randomHeight_range [OF _ _ rh] by (auto simp: max_height_def)
  obtain r s1 where cr: "create new_char key v ht s = (r, s1)" by fastforce
  note cp = create_ok [OF new sl_inv_mem [OF inv] cr]
  show ?thesis
  proof (cases r)
    case (Inl e)
    have "sl_insert new_char key v rng s = Some (Inl e, rng', s1)"
      by (subst sl_insert.simps) (simp add: find rh cr Inl)
    moreover have "sl_inv s1 ids" "sl_entries s1 ids = sl_entries s ids"
      using cp Inl sl_inv_frame [OF inv, of s1] by auto
    ultimately show ?thesis using cp Inl by (auto simp: insert_post_def)
  next
    case (Inr n)
    then obtain p where n: "?h n = None" "sl_slots s p = None" "sl_slots s1 = (sl_slots s)(p \<mapsto> v)"
        and h0: "sl_nodes s1 = ?h(n \<mapsto> \<lparr>nd_key = key, nd_value = p, nd_height = ht, nd_next = replicate ht None\<rparr>)"
        and m1: "mem_ok s1" "sl_head s1 = sl_head s"
      using cp by auto
    define h1 where "h1 = fold (\<lambda>i h. set_link h n i (snd (ps ! i))) [0..<ht] (sl_nodes s1)"
    obtain h2 h3 where link: "cas h1 (fst (ps ! 0)) 0 (snd (ps ! 0)) n = Some (True, h2)"
        "link_levels (sl_head s) key [1..<ht] n ps h2 = Some h3"
        "heap_ok h3 (sl_head s) (below ?h key ids @ n # from_key ?h key ids)" "same_data (sl_nodes s1) h3"
      using new_node_linked [OF ok n(1) ht key h0 ps_def h1_def] by blast
    have res: "sl_insert new_char key v rng s = Some (Inr (True, 0), rng', s1\<lparr>sl_nodes := h3\<rparr>)"
      by (subst sl_insert.simps) (simp add: find rh cr Inr h1_def [symmetric] link(1) link(2) [unfolded One_nat_def] m1(2))
    let ?s = "s1\<lparr>sl_nodes := h3\<rparr>" and ?ids = "below ?h key ids @ n # from_key ?h key ids"
    have shape: "?h a \<noteq> None" if "a \<in> set ids" for a using ok that by (auto simp: heap_ok_def node_shape_def)
    have old: "\<exists>m m'. ?h a = Some m \<and> h3 a = Some m' \<and> nd_key m' = nd_key m \<and> nd_value m' = nd_value m" if "a \<in> set ids" for a
      using shape [OF that] n(1) h0 same_dataD(2) [OF link(4), of a] by (cases "a = n") auto
    have slot_old: "nd_value m \<noteq> p" if "a \<in> set ids" "?h a = Some m" for a m
      using inv that n(2) by (force simp: sl_inv_def)
    have entry_old: "node_entry ?s a = node_entry s a" if "a \<in> set ids" for a
      using old [OF that] slot_old [OF that] n(3) by (auto simp: node_entry_def nkey_def)
    obtain m where m: "h3 n = Some m" "nd_key m = key" "nd_value m = p"
      using same_dataD(2) [OF link(4), of n] h0 by auto
    have entry_n: "node_entry ?s n = (key, v)" using m n(3) by (simp add: node_entry_def nkey_def)
    have dom3: "dom h3 = dom (sl_nodes s1)" using same_dataD(1) [OF link(4)] by (auto simp: dom_def)
    have "sl_slots ?s (nd_value (the (h3 a))) \<noteq> None" if "a \<in> set ?ids" for a
    proof (cases "a = n")
      case False
      then have a: "a \<in> set ids" using that by (auto simp: below_def from_key_def)
      then show ?thesis using old [OF a] slot_old [OF a] inv n(3) by (fastforce simp: sl_inv_def)
    qed (use m n(3) in simp)
    then have inv': "sl_inv ?s ?ids"
      using link(3) m1 dom3 by (simp add: sl_inv_def mem_ok_def)
    have "sl_entries ?s ?ids = sl_entries s (below ?h key ids) @ (key, v) # sl_entries s (from_key ?h key ids)"
      using entry_old entry_n by (auto simp: sl_entries_def below_def from_key_def)
    also have "\<dots> = upsert key v (sl_entries s ids)"
    proof -
      have "filter (\<lambda>a. \<not> nkey ?h a < key) ids = filter (\<lambda>a. key < nkey ?h a) ids"
        using key by (intro filter_cong) (auto simp: not_less le_less)
      then show ?thesis
        by (simp add: upsert_def sl_entries_def below_def from_key_def filter_map comp_def node_entry_def)
    qed
    finally have ent: "sl_entries ?s ?ids = upsert key v (sl_entries s ids)" .
    have absent: "map_of (sl_entries s ids) key = None"
      using key by (auto simp: map_of_eq_None_iff sl_entries_def node_entry_def)
    then show ?thesis
      using res inv' ent n(2,3) by (auto simp: insert_post_def old_size_def map_le_fresh)
  qed
qed

lemma sl_insert_ok:
  assumes new: "new_ok new_char" and inv: "sl_inv s ids"
  shows "\<exists>r rng' s'. sl_insert new_char key v rng s = Some (r, rng', s') \<and> insert_post key v s (sl_entries s ids) r s'"
proof (cases "key \<in> nkey (sl_nodes s) ` set ids")
  case False
  then show ?thesis by (rule sl_insert_new [OF new inv])
next
  case True
  let ?h = "sl_nodes s"
  have ok: "heap_ok ?h (sl_head s) ids" using inv by (simp add: sl_inv_def)
  have find: "sl_find ?h (sl_head s) key = Some (True, search_result ?h (sl_head s) key ids)"
    using sl_find_ok [OF ok] True by simp
  let ?C = "from_key ?h key ids"
  have s0: "snd (search_result ?h (sl_head s) key ids ! 0) = hd_opt ?C"
    using level_0 [OF ok, of ?C] by (simp add: search_result_def max_height_def from_key_def)
  obtain y C m where C: "?C = y # C" and m: "?h y = Some m" "nd_key m = key"
    using find s0 unfolding sl_find_def by (cases ?C) (auto split: option.splits)
  have y: "y \<in> set ids" using C by (metis (no_types, lifting) filter_is_subset from_key_def list.set_intros(1) subsetD)
  obtain r s' where up: "update_value new_char v y m s = (r, s')" by fastforce
  have "sl_insert new_char key v rng s = Some (r, rng, s')"
    by (subst sl_insert.simps) (simp add: find s0 C m up)
  then show ?thesis using update_value_ok [OF new inv y m up] by blast
qed

lemma mk_skiplist_ok:
  assumes "new_ok new_char" "arena_ok a" "mk_skiplist new_char a = Inr s"
  shows "sl_inv s []"
proof -
  let ?s0 = "\<lparr>sl_arena = a, sl_nodes = Map.empty, sl_slots = Map.empty, sl_head = 0\<rparr>"
  obtain r s1 where cr: "create new_char [] None max_height ?s0 = (r, s1)" by fastforce
  have "mem_ok ?s0" using assms(2) by (simp add: mem_ok_def)
  note cp = create_ok [OF assms(1) this cr]
  obtain n where n: "r = Inr n" "s = s1\<lparr>sl_head := n\<rparr>"
    using assms(3) cr by (auto simp: mk_skiplist_def split: sum.splits)
  then show ?thesis
    using cp by (auto simp: sl_inv_def heap_ok_def mem_ok_def node_shape_def nheight_def level_def link_def max_height_def)
qed

section \<open>Properties\<close>

text \<open>C22. On every well-formed list \<open>find\<close> terminates without touching invalid memory, and tells whether
  the key is present; on each level \<open>i\<close> it returns the last node of that level below the key (the head
  if there is none) and the first one not below it.\<close>

theorem skiplist_find_neighbours:
  assumes "sl_inv s ids"
  shows "\<exists>ps. sl_find (sl_nodes s) (sl_head s) key = Some (key \<in> set (map fst (sl_entries s ids)), ps)
    \<and> (\<forall>i < max_height. ps ! i =
         (last (sl_head s # filter (\<lambda>a. i < nheight (sl_nodes s) a \<and> nkey (sl_nodes s) a < key) ids),
          hd_opt (filter (\<lambda>a. i < nheight (sl_nodes s) a \<and> \<not> nkey (sl_nodes s) a < key) ids)))"
proof -
  have "heap_ok (sl_nodes s) (sl_head s) ids" using assms by (simp add: sl_inv_def)
  from sl_find_ok [OF this, of key] show ?thesis
    by (intro exI [of _ "search_result (sl_nodes s) (sl_head s) key ids"])
       (auto simp: search_result_nth level_def below_def from_key_def conj_commute)
qed

text \<open>C21. \<open>insert\<close> always terminates and leaves a well-formed skip list. It stores the value under the key
  (replacing the value of an existing key without a second node, linking a new one otherwise), reports
  which of the two happened and how many bytes it displaced, and never writes a value cell that was
  already published; when memory runs out the list's contents are unchanged.\<close>

theorem skiplist_insert_correct:
  assumes "new_ok new_char" "sl_inv s ids"
  shows "\<exists>r rng' s'. sl_insert new_char key v rng s = Some (r, rng', s') \<and> sl_slots s \<subseteq>\<^sub>m sl_slots s'
    \<and> (case r of
         Inl e \<Rightarrow> \<exists>ids'. sl_inv s' ids' \<and> sl_entries s' ids' = sl_entries s ids
       | Inr (inserted, replaced) \<Rightarrow> \<exists>ids'. sl_inv s' ids'
           \<and> map_of (sl_entries s' ids') = (map_of (sl_entries s ids))(key \<mapsto> v)
           \<and> ssorted (sl_entries s' ids')
           \<and> inserted = (map_of (sl_entries s ids) key = None)
           \<and> replaced = (case map_of (sl_entries s ids) key of Some (Some old) \<Rightarrow> length old | _ \<Rightarrow> 0))"
proof -
  obtain r rng' s' where res: "sl_insert new_char key v rng s = Some (r, rng', s')"
      and post: "insert_post key v s (sl_entries s ids) r s'"
    using sl_insert_ok [OF assms] by blast
  have sorted: "ssorted (sl_entries s ids)" by (rule sl_entries_sorted [OF assms(2)])
  show ?thesis
  proof (cases r)
    case (Inl e)
    then show ?thesis using res post by (auto simp: insert_post_def)
  next
    case (Inr q)
    then show ?thesis
      using res post sl_entries_sorted
      by (cases q) (fastforce simp: insert_post_def map_of_upsert [OF sorted] old_size_def simp del: keys_sl_entries)
  qed
qed

definition ex_list :: skiplist where
  "ex_list = (case mk_arena ex_new 1048576 of
     Inr a \<Rightarrow> (case mk_skiplist ex_new a of Inr s \<Rightarrow> s | Inl _ \<Rightarrow> undefined) | Inl _ \<Rightarrow> undefined)"

lemma ex_list_inv: "sl_inv ex_list []"
proof -
  define a where "a = \<lparr>ar_destructors = [], ar_block_size = 1048576, ar_offset = 0, ar_current_size = 1048576,
     ar_current = 4096, ar_blocks = [(4096, 1048576)]\<rparr>"
  have a: "mk_arena ex_new 1048576 = Inr a" by (simp add: mk_arena_def ex_new_def a_def)
  have a1: "allocate ex_new 152 8 a = (Inr 4096, a\<lparr>ar_offset := 152\<rparr>)"
    by (simp add: a_def allocate_def padFor_def)
  have a2: "allocate ex_new 40 8 (a\<lparr>ar_offset := 152\<rparr>) = (Inr 4248, a\<lparr>ar_offset := 192\<rparr>)"
    by (simp add: a_def allocate_def padFor_def)
  obtain s where s: "mk_skiplist ex_new a = Inr s"
    by (simp add: mk_skiplist_def create_def makeSlot_def sizeof_node_def sizeof_link_def alignof_node_def
        sizeof_slot_def max_height_def a1 a2)
  have "arena_ok a" using mk_arena_ok [OF ex_new_ok a] by simp
  then show ?thesis using mk_skiplist_ok [OF ex_new_ok _ s] a s by (simp add: ex_list_def)
qed

theorem skiplist_find_neighbours_witness:
  "sl_inv ex_list [] \<and> (\<exists>ps. sl_find (sl_nodes ex_list) (sl_head ex_list) [107] = Some (False, ps))"
  using skiplist_find_neighbours [OF ex_list_inv, of "[107]"] ex_list_inv by (auto simp: sl_entries_def)

theorem skiplist_insert_correct_witness:
  "\<exists>r rng' s'. sl_insert ex_new [107] (Some [118]) (sconst 1) ex_list = Some (r, rng', s')
     \<and> sl_slots ex_list \<subseteq>\<^sub>m sl_slots s'"
  using skiplist_insert_correct [OF ex_new_ok ex_list_inv, of "[107]" "Some [118]" "sconst 1"] by blast

end
