(* ===== verification/Memtable.thy ===== *)
theory Memtable
  imports SkipList
begin

text \<open>
  The memtable of src/memtable/skip_list.h: a skip list with a byte total and an entry count, and the
  iterator a flush and a scan walk it with. The counters are the \<open>std::atomic<size_t>\<close> of the code,
  so they wrap. \<open>None\<close> is a computation that would read invalid memory or not end.

  The lemmas show that the memtable is a sorted finite map (\<open>put\<close>, \<open>del\<close> and \<open>get\<close> are update, tombstone
  and lookup), that the counters always describe the contents, and that an iterator walks the entries
  from its starting key in order.
\<close>

record memtable =
  mt_max_bytes :: nat
  mt_bytes :: "64 word"
  mt_count :: "64 word"
  mt_list :: skiplist

definition mk_memtable :: "new_fn \<Rightarrow> nat \<Rightarrow> mem_error + memtable" where
  "mk_memtable new_char max_bytes =
     (case mk_arena new_char (1024 * 1024) of
        Inl e \<Rightarrow> Inl e
      | Inr a \<Rightarrow>
          (case mk_skiplist new_char a of
             Inl e \<Rightarrow> Inl e
           | Inr s \<Rightarrow> Inr \<lparr>mt_max_bytes = max_bytes, mt_bytes = 0, mt_count = 0, mt_list = s\<rparr>))"

definition adjustValueBytes :: "nat \<Rightarrow> nat \<Rightarrow> memtable \<Rightarrow> memtable" where
  "adjustValueBytes oldBytes newBytes m =
     (if newBytes \<ge> oldBytes then m\<lparr>mt_bytes := mt_bytes m + word_of_nat (newBytes - oldBytes)\<rparr>
      else m\<lparr>mt_bytes := mt_bytes m - word_of_nat (oldBytes - newBytes)\<rparr>)"

type_synonym mem_step = "((mem_error + unit) \<times> nat stream \<times> memtable) option"

definition mt_put :: "new_fn \<Rightarrow> bytes \<Rightarrow> bytes \<Rightarrow> nat stream \<Rightarrow> memtable \<Rightarrow> mem_step" where
  "mt_put new_char key val rng m =
     (case sl_insert new_char key (Some val) rng (mt_list m) of
        None \<Rightarrow> None
      | Some (Inl e, rng, s) \<Rightarrow> Some (Inl e, rng, m\<lparr>mt_list := s\<rparr>)
      | Some (Inr (inserted, replaced), rng, s) \<Rightarrow>
          (let m = m\<lparr>mt_list := s\<rparr> in
           if inserted
           then Some (Inr (), rng, m\<lparr>mt_bytes := mt_bytes m + word_of_nat (length key + length val + 8),
                                     mt_count := mt_count m + 1\<rparr>)
           else Some (Inr (), rng, adjustValueBytes replaced (length val) m)))"

definition mt_del :: "new_fn \<Rightarrow> bytes \<Rightarrow> nat stream \<Rightarrow> memtable \<Rightarrow> mem_step" where
  "mt_del new_char key rng m =
     (case sl_insert new_char key None rng (mt_list m) of
        None \<Rightarrow> None
      | Some (Inl e, rng, s) \<Rightarrow> Some (Inl e, rng, m\<lparr>mt_list := s\<rparr>)
      | Some (Inr (inserted, replaced), rng, s) \<Rightarrow>
          (let m = m\<lparr>mt_list := s\<rparr> in
           if inserted
           then Some (Inr (), rng, m\<lparr>mt_bytes := mt_bytes m + word_of_nat (length key + 8),
                                     mt_count := mt_count m + 1\<rparr>)
           else Some (Inr (), rng, adjustValueBytes replaced 0 m)))"

text \<open>\<open>value.load()->v\<close> of the node at an address.\<close>

definition load_value :: "skiplist \<Rightarrow> addr \<Rightarrow> bytes option option" where
  "load_value s y = (case sl_nodes s y of None \<Rightarrow> None | Some m \<Rightarrow> sl_slots s (nd_value m))"

definition mt_get :: "memtable \<Rightarrow> bytes \<Rightarrow> bytes option option option" where
  "mt_get m key =
     (let s = mt_list m in
      case sl_find (sl_nodes s) (sl_head s) key of
        None \<Rightarrow> None
      | Some (found, ps) \<Rightarrow>
          if found then (case snd (ps ! 0) of None \<Rightarrow> None | Some y \<Rightarrow> map_option Some (load_value s y))
          else Some None)"

definition isFull :: "memtable \<Rightarrow> bool" where
  "isFull m \<longleftrightarrow> unat (mt_bytes m) \<ge> mt_max_bytes m"

definition mt_size :: "memtable \<Rightarrow> nat" where
  "mt_size m = unat (mt_count m)"

definition mt_empty :: "memtable \<Rightarrow> bool" where
  "mt_empty m \<longleftrightarrow> mt_size m = 0"

section \<open>Iterator\<close>

text \<open>\<open>current_\<close> and \<open>cache_\<close>; the end iterator has a null \<open>current_\<close>.\<close>

type_synonym mt_iter = "(addr \<times> entry) option"

definition updateCache :: "memtable \<Rightarrow> addr option \<Rightarrow> mt_iter option" where
  "updateCache m cur =
     (case cur of
        None \<Rightarrow> Some None
      | Some a \<Rightarrow>
          (case sl_nodes (mt_list m) a of
             None \<Rightarrow> None
           | Some n \<Rightarrow> map_option (\<lambda>v. Some (a, (nd_key n, v))) (load_value (mt_list m) a)))"

definition mt_begin :: "memtable \<Rightarrow> mt_iter option" where
  "mt_begin m =
     (case link (sl_nodes (mt_list m)) (sl_head (mt_list m)) 0 of None \<Rightarrow> None | Some cur \<Rightarrow> updateCache m cur)"

definition mt_seek :: "memtable \<Rightarrow> bytes \<Rightarrow> mt_iter option" where
  "mt_seek m key =
     (case sl_find (sl_nodes (mt_list m)) (sl_head (mt_list m)) key of
        None \<Rightarrow> None
      | Some (_, ps) \<Rightarrow> updateCache m (snd (ps ! 0)))"

definition mt_next :: "memtable \<Rightarrow> mt_iter \<Rightarrow> mt_iter option" where
  "mt_next m it =
     (case it of
        None \<Rightarrow> updateCache m None
      | Some (a, _) \<Rightarrow> (case link (sl_nodes (mt_list m)) a 0 of None \<Rightarrow> None | Some cur \<Rightarrow> updateCache m cur))"

text \<open>\<open>for (; it != end(); ++it) entries.push_back(*it);\<close>\<close>

partial_function (option) mt_collect :: "memtable \<Rightarrow> mt_iter \<Rightarrow> entry list option" where
  "mt_collect m it =
     (case it of
        None \<Rightarrow> Some []
      | Some (a, e) \<Rightarrow>
          (case mt_next m it of
             None \<Rightarrow> None
           | Some it' \<Rightarrow> Option.bind (mt_collect m it') (\<lambda>es. Some (e # es))))"

section \<open>Contents\<close>

definition value_len :: "bytes option \<Rightarrow> nat" where
  "value_len v = (case v of None \<Rightarrow> 0 | Some v \<Rightarrow> length v)"

text \<open>What \<open>current_bytes_\<close> is meant to be.\<close>

definition payload :: "entry list \<Rightarrow> nat" where
  "payload es = (\<Sum>e \<leftarrow> es. length (fst e) + value_len (snd e) + 8)"

definition mt_ok :: "memtable \<Rightarrow> entry list \<Rightarrow> bool" where
  "mt_ok m es \<longleftrightarrow> (\<exists>ids. sl_inv (mt_list m) ids \<and> es = sl_entries (mt_list m) ids)
     \<and> mt_bytes m = word_of_nat (payload es) \<and> mt_count m = word_of_nat (length es)"

lemma mt_ok_sorted: "mt_ok m es \<Longrightarrow> ssorted es"
  by (auto simp: mt_ok_def dest: sl_entries_sorted simp del: keys_sl_entries)

lemma old_size_eq: "old_size es key = (case map_of es key of None \<Rightarrow> 0 | Some v \<Rightarrow> value_len v)"
  by (simp add: old_size_def value_len_def split: option.splits)

lemma payload_append [simp]: "payload (xs @ ys) = payload xs + payload ys"
  by (simp add: payload_def)

lemma payload_partition: "payload (filter P es) + payload (filter (\<lambda>e. \<not> P e) es) = payload es"
  by (induction es) (auto simp: payload_def)

lemma upsert_absent:
  assumes "ssorted es" "map_of es key = None"
  shows "payload (upsert key v es) = payload es + (length key + value_len v + 8)"
    and "length (upsert key v es) = Suc (length es)"
proof -
  let ?lo = "filter (\<lambda>e. fst e < key) es" and ?hi = "filter (\<lambda>e. key < fst e) es"
  have "?hi = filter (\<lambda>e. \<not> fst e < key) es"
    using assms(2) by (intro filter_cong) (auto simp: map_of_eq_None_iff image_iff not_less le_less)
  then have "payload ?lo + payload ?hi = payload es" "length ?lo + length ?hi = length es"
    using payload_partition [of "\<lambda>e. fst e < key" es] sum_length_filter_compl [of "\<lambda>e. fst e < key" es] by simp_all
  then show "payload (upsert key v es) = payload es + (length key + value_len v + 8)"
      "length (upsert key v es) = Suc (length es)"
    by (simp_all add: upsert_def) (simp add: payload_def)
qed

lemma upsert_present:
  assumes "ssorted es" "map_of es key = Some old"
  shows "payload (upsert key v es) + value_len old = payload es + value_len v"
    and "length (upsert key v es) = length es"
proof -
  obtain P Q where es: "es = P @ (key, old) # Q"
    using assms(2) by (metis map_of_SomeD split_list)
  then have "upsert key v es = P @ (key, v) # Q" using upsert_split assms(1) by simp
  then show "payload (upsert key v es) + value_len old = payload es + value_len v"
      "length (upsert key v es) = length es"
    by (simp_all add: es payload_def)
qed

lemma word_adjust:
  fixes w :: "64 word"
  assumes "w = word_of_nat a" "a' + old = a + new"
  shows "(if new \<ge> old then w + word_of_nat (new - old) else w - word_of_nat (old - new)) = word_of_nat a'"
proof (cases "old \<le> new")
  case True
  then have "a' = a + (new - old)" using assms(2) by simp
  with True assms(1) show ?thesis by simp
next
  case False
  then have "a = a' + (old - new)" using assms(2) by simp
  with False assms(1) show ?thesis by simp
qed

section \<open>Operations\<close>

lemma mk_memtable_ok:
  assumes "new_ok new_char" "mk_memtable new_char mx = Inr m"
  shows "mt_ok m []"
proof -
  obtain a where a: "mk_arena new_char (1024 * 1024) = Inr a" "mk_skiplist new_char a = Inr (mt_list m)"
      "mt_bytes m = 0" "mt_count m = 0"
    using assms(2) by (auto simp: mk_memtable_def split: sum.splits)
  have "sl_inv (mt_list m) []"
    using mk_skiplist_ok [OF assms(1) _ a(2)] mk_arena_ok [OF assms(1) a(1)] by simp
  then show ?thesis using a(3,4) by (auto simp: mt_ok_def sl_entries_def payload_def)
qed

text \<open>The accounting after an insertion of \<open>v\<close>, with \<open>put\<close> and \<open>del\<close> as its two instances.\<close>

lemma account_ok:
  assumes ok: "mt_ok m es" and post: "insert_post key v (mt_list m) es (Inr (inserted, replaced)) s"
  shows "mt_ok (if inserted
      then m\<lparr>mt_list := s, mt_bytes := mt_bytes m + word_of_nat (length key + value_len v + 8), mt_count := mt_count m + 1\<rparr>
      else adjustValueBytes replaced (value_len v) (m\<lparr>mt_list := s\<rparr>)) (upsert key v es)"
proof -
  have sorted: "ssorted es" by (rule mt_ok_sorted [OF ok])
  have bytes: "mt_bytes m = word_of_nat (payload es)" "mt_count m = word_of_nat (length es)"
    using ok by (auto simp: mt_ok_def)
  obtain ids where ids: "sl_inv s ids" "upsert key v es = sl_entries s ids"
      "inserted = (map_of es key = None)" "replaced = old_size es key"
    using post by (auto simp: insert_post_def)
  show ?thesis
  proof (cases "map_of es key")
    case None
    then show ?thesis
      using ids bytes upsert_absent [OF sorted None, of v] by (auto simp: mt_ok_def)
  next
    case (Some old)
    have "payload (upsert key v es) + old_size es key = payload es + value_len v"
      using upsert_present(1) [OF sorted Some, of v] Some by (simp add: old_size_eq)
    from word_adjust [OF bytes(1) this]
    have "mt_bytes (adjustValueBytes replaced (value_len v) (m\<lparr>mt_list := s\<rparr>)) = word_of_nat (payload (upsert key v es))"
      by (auto simp: adjustValueBytes_def ids(4) split: if_split_asm)
    then show ?thesis
      using Some ids bytes upsert_present(2) [OF sorted Some, of v]
      by (auto simp: mt_ok_def adjustValueBytes_def split: if_split_asm)
  qed
qed

lemma sl_insert_step:
  assumes "new_ok new_char" "mt_ok m es"
  obtains r rng' s where "sl_insert new_char key v rng (mt_list m) = Some (r, rng', s)"
    "insert_post key v (mt_list m) es r s"
  using assms sl_insert_ok [OF assms(1)] by (auto simp: mt_ok_def) blast

definition step_post :: "memtable \<Rightarrow> bytes \<Rightarrow> bytes option \<Rightarrow> entry list \<Rightarrow> mem_step \<Rightarrow> bool" where
  "step_post m key v es step \<longleftrightarrow>
     (\<exists>r rng m'. step = Some (r, rng, m') \<and> mt_max_bytes m' = mt_max_bytes m
        \<and> mt_ok m' (case r of Inl _ \<Rightarrow> es | Inr _ \<Rightarrow> upsert key v es))"

lemma failed_step: "mt_ok m es \<Longrightarrow> insert_post key v (mt_list m) es (Inl e) s \<Longrightarrow> mt_ok (m\<lparr>mt_list := s\<rparr>) es"
  by (auto simp: mt_ok_def insert_post_def)

lemma mt_put_ok:
  assumes "new_ok new_char" "mt_ok m es"
  shows "step_post m key (Some val) es (mt_put new_char key val rng m)"
proof -
  obtain r rng' s where ins: "sl_insert new_char key (Some val) rng (mt_list m) = Some (r, rng', s)"
      and post: "insert_post key (Some val) (mt_list m) es r s"
    by (rule sl_insert_step [OF assms])
  show ?thesis
  proof (cases r)
    case (Inl e)
    then show ?thesis using ins post failed_step [OF assms(2)] by (auto simp: mt_put_def step_post_def)
  next
    case (Inr q)
    then obtain i rep where q: "r = Inr (i, rep)" by (cases q) auto
    from account_ok [OF assms(2) post [unfolded q]] ins q show ?thesis
      by (auto simp: mt_put_def step_post_def value_len_def adjustValueBytes_def Let_def split: if_split_asm)
  qed
qed

lemma mt_del_ok:
  assumes "new_ok new_char" "mt_ok m es"
  shows "step_post m key None es (mt_del new_char key rng m)"
proof -
  obtain r rng' s where ins: "sl_insert new_char key None rng (mt_list m) = Some (r, rng', s)"
      and post: "insert_post key None (mt_list m) es r s"
    by (rule sl_insert_step [OF assms])
  show ?thesis
  proof (cases r)
    case (Inl e)
    then show ?thesis using ins post failed_step [OF assms(2)] by (auto simp: mt_del_def step_post_def)
  next
    case (Inr q)
    then obtain i rep where q: "r = Inr (i, rep)" by (cases q) auto
    from account_ok [OF assms(2) post [unfolded q]] ins q show ?thesis
      by (auto simp: mt_del_def step_post_def value_len_def adjustValueBytes_def Let_def split: if_split_asm)
  qed
qed

lemma first_from_key:
  assumes "sl_inv s ids"
  shows "\<exists>ps. sl_find (sl_nodes s) (sl_head s) key = Some (key \<in> nkey (sl_nodes s) ` set ids, ps)
     \<and> snd (ps ! 0) = hd_opt (from_key (sl_nodes s) key ids)"
proof -
  have ok: "heap_ok (sl_nodes s) (sl_head s) ids" using assms by (simp add: sl_inv_def)
  have "level (sl_nodes s) 0 (from_key (sl_nodes s) key ids) = from_key (sl_nodes s) key ids"
    by (rule level_0 [OF ok]) (auto simp: from_key_def)
  then show ?thesis using sl_find_ok [OF ok, of key] by (simp add: search_result_nth max_height_def)
qed

lemma load_value_ok:
  "sl_inv s ids \<Longrightarrow> a \<in> set ids \<Longrightarrow> load_value s a = Some (snd (node_entry s a))"
  by (fastforce simp: sl_inv_def heap_ok_def node_shape_def load_value_def node_entry_def)

lemma mt_get_ok:
  assumes "mt_ok m es"
  shows "mt_get m key = Some (map_of es key)"
proof -
  obtain ids where inv: "sl_inv (mt_list m) ids" and es: "es = sl_entries (mt_list m) ids"
    using assms by (auto simp: mt_ok_def)
  let ?h = "sl_nodes (mt_list m)"
  obtain ps where ps: "sl_find ?h (sl_head (mt_list m)) key = Some (key \<in> nkey ?h ` set ids, ps)"
      "snd (ps ! 0) = hd_opt (from_key ?h key ids)"
    using first_from_key [OF inv] by blast
  show ?thesis
  proof (cases "key \<in> nkey ?h ` set ids")
    case False
    then have "map_of es key = None" by (auto simp: es map_of_eq_None_iff sl_entries_def node_entry_def)
    with False ps show ?thesis by (simp add: mt_get_def Let_def)
  next
    case True
    then obtain b where b: "b \<in> set (from_key ?h key ids)" "nkey ?h b = key" by (auto simp: from_key_def)
    then obtain a C where C: "from_key ?h key ids = a # C" by (cases "from_key ?h key ids") auto
    have a: "a \<in> set ids" "\<not> nkey ?h a < key"
      using arg_cong [OF C, of set] by (auto simp: from_key_def)
    have "sorted_wrt (<) (map (nkey ?h) (from_key ?h key ids))"
      using inv by (simp add: sl_inv_def heap_ok_def from_key_def sorted_wrt_filter sorted_wrt_map)
    then have "nkey ?h a = key" using b a(2) C by (auto simp: antisym)
    then have "map_of es key = Some (snd (node_entry (mt_list m) a))"
      using map_of_entry [OF inv a(1)] by (simp add: es node_entry_def)
    then show ?thesis
      using ps True C load_value_ok [OF inv a(1)] by (simp add: mt_get_def Let_def)
  qed
qed

section \<open>Iteration\<close>

lemma updateCache_ok:
  assumes "sl_inv (mt_list m) ids" "a \<in> set ids"
  shows "updateCache m (Some a) = Some (Some (a, node_entry (mt_list m) a))"
proof -
  obtain n where n: "sl_nodes (mt_list m) a = Some n"
    using assms by (auto simp: sl_inv_def heap_ok_def node_shape_def)
  then have "nd_key n = fst (node_entry (mt_list m) a)" by (simp add: node_entry_def nkey_def)
  then show ?thesis using n load_value_ok [OF assms] by (simp add: updateCache_def)
qed

lemma bottom_chain:
  assumes "sl_inv s ids"
  shows "chain (sl_nodes s) 0 (sl_head s) ids"
proof -
  have ok: "heap_ok (sl_nodes s) (sl_head s) ids" using assms by (simp add: sl_inv_def)
  then have "chain (sl_nodes s) 0 (sl_head s) (level (sl_nodes s) 0 ids)"
    by (simp add: heap_ok_def max_height_def)
  then show ?thesis using level_0 [OF ok, of ids] by simp
qed

lemma chain_suffix: "chain h i x (P @ Q) \<Longrightarrow> \<exists>y. chain h i y Q"
  by (induction P arbitrary: x) auto

lemma mt_collect_suffix:
  assumes "sl_inv (mt_list m) ids" "chain (sl_nodes (mt_list m)) 0 x as" "set as \<subseteq> set ids"
  shows "\<exists>it. updateCache m (hd_opt as) = Some it \<and> mt_collect m it = Some (sl_entries (mt_list m) as)"
  using assms(2,3)
proof (induction as arbitrary: x)
  case Nil
  show ?case
    by (intro exI [of _ None]) (subst mt_collect.simps, simp add: updateCache_def sl_entries_def)
next
  case (Cons a as)
  have a: "a \<in> set ids" and ch: "chain (sl_nodes (mt_list m)) 0 a as" using Cons.prems by auto
  obtain it where it: "updateCache m (hd_opt as) = Some it" "mt_collect m it = Some (sl_entries (mt_list m) as)"
    using Cons.IH [OF ch] Cons.prems(2) by auto
  have "mt_next m (Some (a, node_entry (mt_list m) a)) = Some it"
    using chain_link [OF ch] it(1) by (simp add: mt_next_def)
  then have "mt_collect m (Some (a, node_entry (mt_list m) a)) = Some (sl_entries (mt_list m) (a # as))"
    by (subst mt_collect.simps) (simp add: it(2) sl_entries_def)
  then show ?case using updateCache_ok [OF assms(1) a] by simp
qed

lemma mt_begin_ok:
  assumes "mt_ok m es"
  shows "\<exists>it. mt_begin m = Some it \<and> mt_collect m it = Some es"
proof -
  obtain ids where inv: "sl_inv (mt_list m) ids" and es: "es = sl_entries (mt_list m) ids"
    using assms by (auto simp: mt_ok_def)
  note ch = bottom_chain [OF inv]
  show ?thesis
    using mt_collect_suffix [OF inv ch] chain_link [OF ch] by (simp add: mt_begin_def es)
qed

lemma mt_seek_ok:
  assumes "mt_ok m es"
  shows "\<exists>it. mt_seek m key = Some it \<and> mt_collect m it = Some (filter (\<lambda>e. key \<le> fst e) es)"
proof -
  obtain ids where inv: "sl_inv (mt_list m) ids" and es: "es = sl_entries (mt_list m) ids"
    using assms by (auto simp: mt_ok_def)
  let ?h = "sl_nodes (mt_list m)"
  have sorted: "sorted_wrt (<) (map (nkey ?h) ids)" using inv by (simp add: sl_inv_def heap_ok_def)
  have "chain ?h 0 (sl_head (mt_list m)) (below ?h key ids @ from_key ?h key ids)"
    using bottom_chain [OF inv] below_from [OF sorted, of key] by simp
  then have "\<exists>x. chain ?h 0 x (from_key ?h key ids)" by (rule chain_suffix)
  moreover have "filter (\<lambda>e. key \<le> fst e) es = sl_entries (mt_list m) (from_key ?h key ids)"
    by (simp add: es sl_entries_def from_key_def filter_map comp_def node_entry_def not_less)
  moreover obtain ps where "sl_find ?h (sl_head (mt_list m)) key = Some (key \<in> nkey ?h ` set ids, ps)"
      "snd (ps ! 0) = hd_opt (from_key ?h key ids)"
    using first_from_key [OF inv] by blast
  moreover have "set (from_key ?h key ids) \<subseteq> set ids" by (auto simp: from_key_def)
  ultimately show ?thesis
    using mt_collect_suffix [OF inv] by (auto simp: mt_seek_def)
qed

section \<open>Properties\<close>

text \<open>A sequence of writes (no value is a deletion) with the outcome of each.\<close>

fun mt_run :: "new_fn \<Rightarrow> entry list \<Rightarrow> nat stream \<Rightarrow> memtable \<Rightarrow> (bool list \<times> memtable) option" where
  "mt_run new_char [] rng m = Some ([], m)"
| "mt_run new_char ((key, v) # ops) rng m =
     (case (case v of Some val \<Rightarrow> mt_put new_char key val rng m | None \<Rightarrow> mt_del new_char key rng m) of
        None \<Rightarrow> None
      | Some (r, rng, m) \<Rightarrow>
          (case mt_run new_char ops rng m of
             None \<Rightarrow> None
           | Some (rs, m) \<Rightarrow> Some ((\<not> isl r) # rs, m)))"

text \<open>The map the successful writes leave.\<close>

fun spec_run :: "entry list \<Rightarrow> bool list \<Rightarrow> (bytes \<rightharpoonup> bytes option) \<Rightarrow> (bytes \<rightharpoonup> bytes option)" where
  "spec_run ((key, v) # ops) (r # rs) f = spec_run ops rs (if r then f(key \<mapsto> v) else f)"
| "spec_run _ _ f = f"

lemma mt_run_ok:
  assumes "new_ok new_char" "mt_ok m es"
  shows "\<exists>rs m' es'. mt_run new_char ops rng m = Some (rs, m') \<and> length rs = length ops
     \<and> mt_ok m' es' \<and> map_of es' = spec_run ops rs (map_of es)"
  using assms(2)
proof (induction ops arbitrary: rng m es)
  case (Cons op ops)
  obtain key v where op: "op = (key, v)" by fastforce
  let ?step = "case v of Some val \<Rightarrow> mt_put new_char key val rng m | None \<Rightarrow> mt_del new_char key rng m"
  have "step_post m key v es ?step"
    using mt_put_ok [OF assms(1) Cons.prems] mt_del_ok [OF assms(1) Cons.prems] by (auto split: option.splits)
  then obtain r rng1 m1 where st: "?step = Some (r, rng1, m1)"
      "mt_ok m1 (case r of Inl _ \<Rightarrow> es | Inr _ \<Rightarrow> upsert key v es)"
    by (auto simp: step_post_def)
  obtain rs m' es' where rest: "mt_run new_char ops rng1 m1 = Some (rs, m')" "length rs = length ops" "mt_ok m' es'"
      "map_of es' = spec_run ops rs (map_of (case r of Inl _ \<Rightarrow> es | Inr _ \<Rightarrow> upsert key v es))"
    using Cons.IH [OF st(2)] by blast
  have "map_of (case r of Inl _ \<Rightarrow> es | Inr _ \<Rightarrow> upsert key v es) = (if (\<not> isl r) then (map_of es)(key \<mapsto> v) else map_of es)"
    using map_of_upsert [OF mt_ok_sorted [OF Cons.prems]] by (simp split: sum.splits)
  then show ?case
    using rest st(1) by (intro exI [of _ "(\<not> isl r) # rs"] exI [of _ m'] exI [of _ es']) (simp add: op)
qed auto

text \<open>C20. The memtable is a sorted map. However many writes and deletions a fresh memtable receives, whatever
  heights the random generator draws and whichever allocations fail, nothing gets stuck; \<open>get\<close> returns the
  last successful write of a key; a walk from \<open>begin\<close> or from \<open>seek\<close> delivers exactly the entries (from that
  key on) in ascending key order; and the byte and entry counters describe those entries.\<close>

theorem memtable_refines_map:
  assumes "new_ok new_char" "mk_memtable new_char mx = Inr m"
  shows "\<exists>rs m' es. mt_run new_char ops rng m = Some (rs, m') \<and> length rs = length ops \<and> ssorted es
    \<and> map_of es = spec_run ops rs Map.empty
    \<and> (\<forall>k. mt_get m' k = Some (spec_run ops rs Map.empty k))
    \<and> (\<exists>it. mt_begin m' = Some it \<and> mt_collect m' it = Some es)
    \<and> (\<forall>k. \<exists>it. mt_seek m' k = Some it \<and> mt_collect m' it = Some (filter (\<lambda>e. k \<le> fst e) es))
    \<and> mt_bytes m' = word_of_nat (payload es) \<and> mt_count m' = word_of_nat (length es)"
proof -
  obtain rs m' es where run: "mt_run new_char ops rng m = Some (rs, m')" "length rs = length ops"
      "mt_ok m' es" "map_of es = spec_run ops rs Map.empty"
    using mt_run_ok [OF assms(1) mk_memtable_ok [OF assms], of ops rng] by auto
  show ?thesis
    using run mt_ok_sorted [OF run(3)] mt_get_ok [OF run(3)] mt_begin_ok [OF run(3)] mt_seek_ok [OF run(3)]
    by (intro exI [of _ rs] exI [of _ m'] exI [of _ es]) (auto simp: mt_ok_def)
qed

definition ex_memtable :: memtable where
  "ex_memtable = \<lparr>mt_max_bytes = 4096, mt_bytes = 0, mt_count = 0, mt_list = ex_list\<rparr>"

lemma ex_memtable_mk: "mk_memtable ex_new 4096 = Inr ex_memtable"
proof -
  have "\<exists>a. mk_arena ex_new 1048576 = Inr a" by (simp add: mk_arena_def ex_new_def)
  moreover have "\<exists>s. mk_skiplist ex_new a = Inr s" if "mk_arena ex_new 1048576 = Inr a" for a
  proof -
    have a: "a = \<lparr>ar_destructors = [], ar_block_size = 1048576, ar_offset = 0, ar_current_size = 1048576,
       ar_current = 4096, ar_blocks = [(4096, 1048576)]\<rparr>"
      using that by (simp add: mk_arena_def ex_new_def)
    have a1: "allocate ex_new 152 8 a = (Inr 4096, a\<lparr>ar_offset := 152\<rparr>)"
      by (simp add: a allocate_def padFor_def)
    have a2: "allocate ex_new 40 8 (a\<lparr>ar_offset := 152\<rparr>) = (Inr 4248, a\<lparr>ar_offset := 192\<rparr>)"
      by (simp add: a allocate_def padFor_def)
    show ?thesis
      by (simp add: mk_skiplist_def create_def makeSlot_def sizeof_node_def sizeof_link_def alignof_node_def
          sizeof_slot_def max_height_def a1 a2)
  qed
  ultimately show ?thesis
    by (auto simp: mk_memtable_def ex_memtable_def ex_list_def split: sum.splits)
qed

theorem memtable_refines_map_witness:
  "\<exists>rs m'. mt_run ex_new [([1], Some [2]), ([1], None)] (sconst 4) ex_memtable = Some (rs, m') \<and> length rs = 2"
  using memtable_refines_map [OF ex_new_ok ex_memtable_mk, of "[([1], Some [2]), ([1], None)]" "sconst 4"]
  by fastforce

end
