(* ===== verification/Merge.thy ===== *)
theory Merge
  imports Prelude "HOL-Library.Product_Lexorder"
begin

text \<open>
  The k-way merge shared by compaction (src/compaction/leveled_compactor.cpp) and range scans
  (src/db/lsm_engine.cpp): several sorted sources, a \<open>std::priority_queue\<close> of their current entries, and
  the rule that among entries with one key the newest source wins.

  A source is known by its index; \<open>prio\<close> maps indices to precedence, lower meaning newer. The locale
  \<open>merge_source\<close> states what the merge needs of \<open>n\<close> sources (each delivers a list, one entry at a
  time); \<open>merged\<close> is the reference result. The lemmas show that \<open>merged\<close> is sorted, holds each key once
  with the value of the newest source, and that a round of the heap loop takes its next entry.
\<close>

section \<open>Layers of sorted lists\<close>

text \<open>The value a stack of sources gives a key.\<close>

definition holders :: "entry list list \<Rightarrow> bytes \<Rightarrow> nat list" where
  "holders L k = filter (\<lambda>i. map_of (L ! i) k \<noteq> None) [0..<length L]"

definition layered :: "(nat \<Rightarrow> int) \<Rightarrow> entry list list \<Rightarrow> bytes \<rightharpoonup> bytes option" where
  "layered prio L k = (if holders L k = [] then None else map_of (L ! arg_min_list prio (holders L k)) k)"

definition heads :: "entry list list \<Rightarrow> bytes list" where
  "heads L = map (\<lambda>l. fst (hd l)) (filter (\<lambda>l. l \<noteq> []) L)"

definition min_key :: "entry list list \<Rightarrow> bytes" where
  "min_key L = arg_min_list id (heads L)"

definition winning :: "(nat \<Rightarrow> int) \<Rightarrow> entry list list \<Rightarrow> nat" where
  "winning prio L =
     arg_min_list prio (filter (\<lambda>i. L ! i \<noteq> [] \<and> fst (hd (L ! i)) = min_key L) [0..<length L])"

definition drop_key :: "bytes \<Rightarrow> entry list \<Rightarrow> entry list" where
  "drop_key k l = (if l \<noteq> [] \<and> fst (hd l) = k then tl l else l)"

definition total :: "entry list list \<Rightarrow> nat" where
  "total L = sum_list (map length L)"

lemma arg_min_list_least:
  "xs \<noteq> [] \<Longrightarrow> x \<in> set xs \<Longrightarrow> (f (arg_min_list f xs) :: 'b::linorder) \<le> f x"
  by (simp add: f_arg_min_list_f)

lemma arg_min_list_unique:
  assumes "x \<in> set xs" "\<And>y. y \<in> set xs \<Longrightarrow> y \<noteq> x \<Longrightarrow> (f x :: 'b::linorder) < f y"
  shows "arg_min_list f xs = x"
proof (rule ccontr)
  have ne: "xs \<noteq> []" using assms(1) by auto
  assume "arg_min_list f xs \<noteq> x"
  then have "f x < f (arg_min_list f xs)" using assms(2) arg_min_list_in [OF ne] by blast
  moreover have "f (arg_min_list f xs) \<le> f x" by (rule arg_min_list_least [OF ne assms(1)])
  ultimately show False by simp
qed

lemma heads_eq_Nil: "heads L = [] \<longleftrightarrow> (\<forall>l \<in> set L. l = [])"
  by (auto simp: heads_def filter_empty_conv)

lemma min_key_le: "l \<in> set L \<Longrightarrow> l \<noteq> [] \<Longrightarrow> min_key L \<le> fst (hd l)"
proof -
  assume l: "l \<in> set L" "l \<noteq> []"
  then have "fst (hd l) \<in> set (heads L)" by (auto simp: heads_def)
  moreover from this have "heads L \<noteq> []" by auto
  ultimately show ?thesis using arg_min_list_least [of "heads L" "fst (hd l)" id] unfolding min_key_def by simp
qed

lemma min_key_head: "heads L \<noteq> [] \<Longrightarrow> \<exists>i < length L. L ! i \<noteq> [] \<and> fst (hd (L ! i)) = min_key L"
proof -
  assume "heads L \<noteq> []"
  from arg_min_list_in [OF this, of id] obtain l where "l \<in> set L" "l \<noteq> []" "fst (hd l) = min_key L"
    unfolding min_key_def by (auto simp: heads_def)
  then show ?thesis by (metis in_set_conv_nth)
qed

lemma winner_head:
  assumes "heads L \<noteq> []"
  shows "winning prio L < length L" "L ! winning prio L \<noteq> []" "fst (hd (L ! winning prio L)) = min_key L"
    and "\<And>i. i < length L \<Longrightarrow> L ! i \<noteq> [] \<Longrightarrow> fst (hd (L ! i)) = min_key L \<Longrightarrow> prio (winning prio L) \<le> prio i"
proof -
  let ?xs = "filter (\<lambda>i. L ! i \<noteq> [] \<and> fst (hd (L ! i)) = min_key L) [0..<length L]"
  have ne: "?xs \<noteq> []" using min_key_head [OF assms] by (auto simp: filter_empty_conv)
  from arg_min_list_in [OF ne, of prio]
  show "winning prio L < length L" "L ! winning prio L \<noteq> []" "fst (hd (L ! winning prio L)) = min_key L"
    unfolding winning_def by auto
  fix i assume "i < length L" "L ! i \<noteq> []" "fst (hd (L ! i)) = min_key L"
  then show "prio (winning prio L) \<le> prio i"
    unfolding winning_def by (intro arg_min_list_least [OF ne]) auto
qed

lemma total_drop_key:
  assumes "heads L \<noteq> []"
  shows "total (map (drop_key (min_key L)) L) < total L"
proof -
  let ?w = "winning (\<lambda>_. 0) L"
  have w: "?w < length L" "L ! ?w \<noteq> []" "fst (hd (L ! ?w)) = min_key L" using winner_head [OF assms] by auto
  have "sum_list (map length (map (drop_key k) L)) \<le> sum_list (map length L)" for k L
    by (induction L) (auto simp: drop_key_def)
  note le = this
  have "L = take ?w L @ L ! ?w # drop (Suc ?w) L" using w(1) by (simp add: id_take_nth_drop)
  then obtain A B where AB: "L = A @ L ! ?w # B" by blast
  have "total (map (drop_key (min_key L)) (A @ L ! ?w # B)) < total (A @ L ! ?w # B)"
    using w(2,3) le [of "min_key L" A] le [of "min_key L" B]
    by (cases "L ! ?w") (auto simp: total_def drop_key_def)
  then show ?thesis using AB by simp
qed

function merged :: "(nat \<Rightarrow> int) \<Rightarrow> entry list list \<Rightarrow> entry list" where
  "merged prio L =
     (if heads L = [] then []
      else (min_key L, snd (hd (L ! winning prio L))) # merged prio (map (drop_key (min_key L)) L))"
  by pat_completeness auto
termination
  by (relation "measure (\<lambda>(_, L). total L)") (auto simp: total_drop_key)

declare merged.simps [simp del]

definition all_sorted :: "entry list list \<Rightarrow> bool" where
  "all_sorted L \<longleftrightarrow> (\<forall>l \<in> set L. ssorted l)"

lemma all_sorted_drop_key: "all_sorted L \<Longrightarrow> all_sorted (map (drop_key k) L)"
  by (fastforce simp: all_sorted_def drop_key_def neq_Nil_conv)

lemma map_of_drop_key:
  assumes "ssorted l" "l \<noteq> [] \<Longrightarrow> k \<le> fst (hd l)"
  shows "map_of (drop_key k l) = (map_of l)(k := None)"
proof (cases l)
  case (Cons e es)
  have above: "\<forall>x \<in> set es. fst e < fst x" using assms(1) Cons by simp
  show ?thesis
  proof (cases "fst e = k")
    case True
    then have "map_of es k = None" using above by (auto simp: map_of_eq_None_iff)
    then show ?thesis using True Cons by (auto simp: drop_key_def)
  next
    case False
    then have "k < fst e" using assms(2) Cons by simp
    then have "map_of l k = None" using above Cons by (auto simp: map_of_eq_None_iff)
    then show ?thesis using False Cons by (auto simp: drop_key_def)
  qed
qed (simp add: drop_key_def)

lemma drop_all:
  assumes "all_sorted L" "i < length L"
  shows "map_of (map (drop_key (min_key L)) L ! i) = (map_of (L ! i))(min_key L := None)"
  using assms min_key_le [of "L ! i" L] by (auto simp: all_sorted_def intro!: map_of_drop_key)

lemma layered_drop_key:
  assumes "all_sorted L"
  shows "layered prio (map (drop_key (min_key L)) L) = (layered prio L)(min_key L := None)"
proof
  fix k
  have "holders (map (drop_key (min_key L)) L) k = (if k = min_key L then [] else holders L k)"
    using drop_all [OF assms] by (auto simp: holders_def filter_empty_conv intro!: filter_cong)
  moreover have "arg_min_list prio (holders L k) < length L" if "holders L k \<noteq> []"
    using arg_min_list_in [OF that, of prio] by (auto simp: holders_def)
  ultimately show "layered prio (map (drop_key (min_key L)) L) k = ((layered prio L)(min_key L := None)) k"
    using drop_all [OF assms] by (auto simp: layered_def)
qed

lemma layered_min_key:
  assumes "all_sorted L" "heads L \<noteq> []" "inj prio"
  shows "layered prio L (min_key L) = Some (snd (hd (L ! winning prio L)))"
proof -
  note w = winner_head [where prio = prio, OF assms(2)]
  have mem: "map_of (L ! i) (min_key L) \<noteq> None \<longleftrightarrow> L ! i \<noteq> [] \<and> fst (hd (L ! i)) = min_key L" if "i < length L" for i
  proof (cases "L ! i")
    case (Cons e es)
    have i: "L ! i \<in> set L" using that by simp
    then have "min_key L \<le> fst e" using min_key_le [of "L ! i" L] Cons by simp
    moreover have "ssorted (L ! i)" using assms(1) i unfolding all_sorted_def by blast
    then have "\<forall>x \<in> set es. fst e < fst x" using Cons by simp
    ultimately show ?thesis using Cons by (auto simp: map_of_eq_None_iff)
  qed simp
  have "holders L (min_key L) = filter (\<lambda>i. L ! i \<noteq> [] \<and> fst (hd (L ! i)) = min_key L) [0..<length L]"
    unfolding holders_def by (rule filter_cong [OF refl]) (simp only: set_upt atLeastLessThan_iff mem)
  then have "arg_min_list prio (holders L (min_key L)) = winning prio L" "holders L (min_key L) \<noteq> []"
    using w(1-3) by (auto simp: winning_def filter_empty_conv)
  moreover have "map_of (L ! winning prio L) (min_key L) = Some (snd (hd (L ! winning prio L)))"
    using w(2,3) by (cases "L ! winning prio L") auto
  ultimately show ?thesis by (simp add: layered_def)
qed

lemma merged_layered:
  assumes "all_sorted L" "inj prio"
  shows "map_of (merged prio L) = layered prio L \<and> ssorted (merged prio L)
     \<and> (\<forall>e \<in> set (merged prio L). min_key L \<le> fst e)"
  using assms
proof (induction prio L rule: merged.induct)
  case (1 prio L)
  show ?case
  proof (cases "heads L = []")
    case True
    then have "L ! i = []" if "i < length L" for i using that by (simp add: heads_eq_Nil)
    then have "holders L k = []" for k by (simp add: holders_def filter_empty_conv)
    moreover have "merged prio L = []" using True by (subst merged.simps) simp
    ultimately show ?thesis by (auto simp: layered_def fun_eq_iff)
  next
    case False
    let ?L = "map (drop_key (min_key L)) L"
    have IH: "map_of (merged prio ?L) = layered prio ?L" "ssorted (merged prio ?L)"
      using 1(1) [OF False all_sorted_drop_key [OF 1(2)] 1(3)] by auto
    have mk: "merged prio L = (min_key L, snd (hd (L ! winning prio L))) # merged prio ?L"
      using False by (subst merged.simps) simp
    have map: "map_of (merged prio L) = layered prio L"
      using layered_min_key [OF 1(2) False 1(3)] by (simp add: mk IH(1) layered_drop_key [OF 1(2)] fun_upd_idem)
    have "min_key L < fst e" if e: "e \<in> set (merged prio ?L)" for e
    proof -
      have "map_of (merged prio ?L) (fst e) \<noteq> None" using e by (metis map_of_eq_None_iff image_eqI set_map)
      then have lay: "layered prio ?L (fst e) \<noteq> None" using IH(1) by simp
      then have ne: "fst e \<noteq> min_key L" "layered prio L (fst e) \<noteq> None"
        by (auto simp: layered_drop_key [OF 1(2)] split: if_split_asm)
      then obtain i where i: "i < length L" "map_of (L ! i) (fst e) \<noteq> None"
        by (auto simp: layered_def holders_def filter_empty_conv split: if_split_asm)
      have "ssorted (L ! i)" using i(1) 1(2) by (simp add: all_sorted_def)
      then have "fst (hd (L ! i)) \<le> fst e"
        using i(2) by (cases "L ! i") (auto simp: less_imp_le dest!: map_of_SomeD split: if_split_asm)
      moreover have "min_key L \<le> fst (hd (L ! i))" using i by (intro min_key_le) auto
      ultimately show ?thesis using ne(1) by simp
    qed
    then show ?thesis using map IH(2) by (auto simp: mk intro: less_imp_le)
  qed
qed

section \<open>The heap loop\<close>

text \<open>A heap node: the current entry of a source and the source's index. \<open>top\<close> of the priority queue is
  its least node by key, then by precedence; nodes of one queue have distinct indices, so it is unique.\<close>

type_synonym heap_node = "entry \<times> nat"

definition node_rank :: "(nat \<Rightarrow> int) \<Rightarrow> heap_node \<Rightarrow> bytes \<times> int" where
  "node_rank prio x = (fst (fst x), prio (snd x))"

definition pq_top :: "(nat \<Rightarrow> int) \<Rightarrow> heap_node list \<Rightarrow> heap_node" where
  "pq_top prio heap = arg_min_list (node_rank prio) heap"

definition pq_pop :: "(nat \<Rightarrow> int) \<Rightarrow> heap_node list \<Rightarrow> heap_node list" where
  "pq_pop prio heap = remove1 (pq_top prio heap) heap"

text \<open>\<open>adv i st\<close> takes the next entry of source \<open>i\<close>, if it has one; \<open>None\<close> is an undefined computation.
  \<open>refill\<close> pushes it.\<close>

type_synonym 'st adv_fn = "nat \<Rightarrow> 'st \<Rightarrow> (entry option \<times> 'st) option"

definition refill :: "'st adv_fn \<Rightarrow> nat \<Rightarrow> heap_node list \<Rightarrow> 'st \<Rightarrow> (heap_node list \<times> 'st) option" where
  "refill adv i heap st =
     (case adv i st of
        None \<Rightarrow> None
      | Some (None, st) \<Rightarrow> Some (heap, st)
      | Some (Some e, st) \<Rightarrow> Some ((e, i) # heap, st))"

text \<open>\<open>while (!heap.empty() && heap.top().key == key)\<close>: skip the older versions of a key.\<close>

partial_function (option) pop_dups :: "'st adv_fn \<Rightarrow> (nat \<Rightarrow> int) \<Rightarrow> bytes \<Rightarrow> heap_node list \<Rightarrow> 'st
    \<Rightarrow> (heap_node list \<times> 'st) option" where
  "pop_dups adv prio key heap st =
     (if heap \<noteq> [] \<and> fst (fst (pq_top prio heap)) = key
      then (case refill adv (snd (pq_top prio heap)) (pq_pop prio heap) st of
              None \<Rightarrow> None
            | Some (heap, st) \<Rightarrow> pop_dups adv prio key heap st)
      else Some (heap, st))"

text \<open>Filling the heap with the first entry of every source.\<close>

fun fill_heap :: "'st adv_fn \<Rightarrow> nat list \<Rightarrow> heap_node list \<Rightarrow> 'st \<Rightarrow> (heap_node list \<times> 'st) option" where
  "fill_heap adv [] heap st = Some (heap, st)"
| "fill_heap adv (i # is) heap st =
     (case refill adv i heap st of None \<Rightarrow> None | Some (heap, st) \<Rightarrow> fill_heap adv is heap st)"

text \<open>The heap and the sources hold the lists \<open>L\<close>, as far as the active indices \<open>A\<close> go: a source with
  entries left has its first one in the heap, and nothing else is in the heap.\<close>

definition heap_holds :: "('st \<Rightarrow> nat \<Rightarrow> entry list) \<Rightarrow> nat set \<Rightarrow> heap_node list \<Rightarrow> 'st \<Rightarrow> entry list list \<Rightarrow> bool" where
  "heap_holds cont A heap st L \<longleftrightarrow> A \<subseteq> {..<length L} \<and> distinct (map snd heap)
     \<and> (\<forall>x. x \<in> set heap \<longleftrightarrow> snd x \<in> A \<and> L ! snd x \<noteq> [] \<and> fst x = hd (L ! snd x))
     \<and> (\<forall>i \<in> A. cont st i = tl (L ! i))"

definition above :: "bytes \<Rightarrow> nat set \<Rightarrow> entry list list \<Rightarrow> bool" where
  "above key A L \<longleftrightarrow> (\<forall>i \<in> A. L ! i \<noteq> [] \<longrightarrow> key \<le> fst (hd (L ! i)))"

definition drop_on :: "bytes \<Rightarrow> nat set \<Rightarrow> entry list list \<Rightarrow> entry list list" where
  "drop_on key A L = map (\<lambda>i. if i \<in> A then drop_key key (L ! i) else L ! i) [0..<length L]"

lemma drop_on_nth [simp]:
  "length (drop_on key A L) = length L"
  "i < length L \<Longrightarrow> drop_on key A L ! i = (if i \<in> A then drop_key key (L ! i) else L ! i)"
  by (simp_all add: drop_on_def)

lemma drop_on_idle: "(\<And>i. i \<in> A \<Longrightarrow> drop_key key (L ! i) = L ! i) \<Longrightarrow> drop_on key A L = L"
  by (rule nth_equalityI) simp_all

lemma drop_on_step:
  assumes "i \<in> A" "i < length L" "drop_key key (L ! i) = l" "drop_key key l = l"
  shows "drop_on key A (L[i := l]) = drop_on key A L"
proof (rule nth_equalityI)
  fix j assume "j < length (drop_on key A (L[i := l]))"
  then show "drop_on key A (L[i := l]) ! j = drop_on key A L ! j" using assms by (cases "j = i") simp_all
qed simp

lemma above_update:
  assumes "above key A L" "l \<noteq> [] \<Longrightarrow> key < fst (hd l)"
  shows "above key A (L[i := l])"
  using assms unfolding above_def by (cases "i < length L") (auto simp: nth_list_update list_update_beyond intro: less_imp_le)

text \<open>The active sources whose current key is \<open>key\<close>.\<close>

definition at_key :: "bytes \<Rightarrow> nat set \<Rightarrow> entry list list \<Rightarrow> nat set" where
  "at_key key A L = {i \<in> A. L ! i \<noteq> [] \<and> fst (hd (L ! i)) = key}"

lemma at_key_step:
  assumes "i \<in> at_key key A L" "i < length L" "l \<noteq> [] \<Longrightarrow> key < fst (hd l)"
  shows "at_key key A (L[i := l]) = at_key key A L - {i}"
  using assms by (auto simp: at_key_def nth_list_update)

lemma drop_key_above: "(l \<noteq> [] \<Longrightarrow> key < fst (hd l)) \<Longrightarrow> drop_key key l = l"
  by (auto simp: drop_key_def)

locale merge_source =
  fixes adv :: "'st adv_fn" and cont :: "'st \<Rightarrow> nat \<Rightarrow> entry list" and wf :: "nat \<Rightarrow> 'st \<Rightarrow> bool"
  assumes adv_Nil: "wf n st \<Longrightarrow> i < n \<Longrightarrow> cont st i = [] \<Longrightarrow>
      \<exists>st'. adv i st = Some (None, st') \<and> wf n st' \<and> cont st' = cont st"
    and adv_Cons: "wf n st \<Longrightarrow> i < n \<Longrightarrow> cont st i = e # es \<Longrightarrow>
      \<exists>st'. adv i st = Some (Some e, st') \<and> wf n st' \<and> cont st' = (cont st)(i := es)"
begin

text \<open>Refilling from a source that is not active makes it active.\<close>

lemma refill_ok:
  assumes hold: "heap_holds cont A heap st L" and wf: "wf (length L) st" and i: "i \<notin> A" "i < length L" and l: "cont st i = l"
  shows "\<exists>heap' st'. refill adv i heap st = Some (heap', st') \<and> wf (length L) st'
    \<and> heap_holds cont (insert i A) heap' st' (L[i := l]) \<and> (\<forall>j. j \<notin> insert i A \<longrightarrow> cont st' j = cont st j)"
proof -
  have heap: "x \<in> set heap \<longleftrightarrow> snd x \<in> A \<and> L ! snd x \<noteq> [] \<and> fst x = hd (L ! snd x)" for x
    using hold unfolding heap_holds_def by blast
  have other: "L[i := l] ! j = L ! j" if "j \<in> A" for j using that i(1) by (metis nth_list_update_neq)
  have new: "i \<notin> snd ` set heap" using heap i(1) by auto
  show ?thesis
  proof (cases l)
    case Nil
    obtain st' where st': "adv i st = Some (None, st')" "wf (length L) st'" "cont st' = cont st"
      using adv_Nil [OF wf i(2)] l Nil by blast
    then have "heap_holds cont (insert i A) heap st' (L[i := l])"
      using hold i l Nil other by (auto simp: heap_holds_def)
    then show ?thesis using st' by (auto simp: refill_def)
  next
    case (Cons e es)
    obtain st' where st': "adv i st = Some (Some e, st')" "wf (length L) st'" "cont st' = (cont st)(i := es)"
      using adv_Cons [OF wf i(2), of e es] l Cons by blast
    have "heap_holds cont (insert i A) ((e, i) # heap) st' (L[i := l])"
      unfolding heap_holds_def
    proof (intro conjI allI ballI)
      show "insert i A \<subseteq> {..<length (L[i := l])}" using hold i(2) by (auto simp: heap_holds_def)
      show "distinct (map snd ((e, i) # heap))" using hold new by (auto simp: heap_holds_def)
      show "x \<in> set ((e, i) # heap) \<longleftrightarrow> snd x \<in> insert i A \<and> L[i := l] ! snd x \<noteq> [] \<and> fst x = hd (L[i := l] ! snd x)" for x
        using heap [of x] other [of "snd x"] i Cons by (cases "snd x = i") (auto simp: prod_eq_iff)
      show "cont st' j = tl (L[i := l] ! j)" if "j \<in> insert i A" for j
        using hold that other [of j] i st'(3) Cons by (auto simp: heap_holds_def)
    qed
    then show ?thesis using st' by (auto simp: refill_def)
  qed
qed

lemma fill_heap_ok:
  assumes "heap_holds cont A heap st L" "wf (length L) st" "set is \<inter> A = {}" "distinct is" "set is \<subseteq> {..<length L}"
    and "\<forall>i \<in> set is. cont st i = L ! i"
  shows "\<exists>heap' st'. fill_heap adv is heap st = Some (heap', st') \<and> wf (length L) st' \<and> heap_holds cont (A \<union> set is) heap' st' L"
  using assms
proof (induction "is" arbitrary: A heap st)
  case (Cons i "is")
  obtain heap1 st1 where r: "refill adv i heap st = Some (heap1, st1)" "wf (length L) st1"
      "heap_holds cont (insert i A) heap1 st1 (L[i := L ! i])" "\<forall>j. j \<notin> insert i A \<longrightarrow> cont st1 j = cont st j"
    using refill_ok [OF Cons.prems(1,2), of i "L ! i"] Cons.prems(3-6) by auto
  have "\<forall>j \<in> set is. cont st1 j = L ! j"
    using r(4) Cons.prems(3,4,6) by (metis Int_iff disjoint_iff distinct.simps(2) insert_iff list.set_intros(2))
  moreover have "heap_holds cont (insert i A) heap1 st1 L" using r(3) by simp
  moreover have "set is \<inter> insert i A = {}" using Cons.prems(3,4) by auto
  ultimately obtain heap' st' where "fill_heap adv is heap1 st1 = Some (heap', st')" "wf (length L) st'"
      "heap_holds cont (insert i A \<union> set is) heap' st' L"
    using Cons.IH [of "insert i A" heap1 st1] r(2) Cons.prems(4,5) by auto
  moreover have "A \<union> set (i # is) = insert i A \<union> set is" by auto
  ultimately show ?case using r(1) by simp
qed auto

text \<open>The top of the queue is the entry \<open>merged\<close> takes next among the active sources.\<close>

lemma top_in: "heap \<noteq> [] \<Longrightarrow> pq_top prio heap \<in> set heap"
  unfolding pq_top_def by (rule arg_min_list_in)

lemma top_least: "x \<in> set heap \<Longrightarrow> node_rank prio (pq_top prio heap) \<le> node_rank prio x"
proof -
  assume "x \<in> set heap"
  moreover from this have "heap \<noteq> []" by auto
  ultimately show ?thesis unfolding pq_top_def by (intro arg_min_list_least)
qed

lemma pop_holds:
  assumes hold: "heap_holds cont A heap st L" and x: "x \<in> set heap"
  shows "heap_holds cont (A - {snd x}) (remove1 x heap) st L" "snd x \<in> A" "L ! snd x = fst x # cont st (snd x)"
proof -
  have heap: "y \<in> set heap \<longleftrightarrow> snd y \<in> A \<and> L ! snd y \<noteq> [] \<and> fst y = hd (L ! snd y)" for y
    using hold unfolding heap_holds_def by blast
  have dist: "distinct (map snd heap)" and cont: "\<forall>i \<in> A. cont st i = tl (L ! i)"
    using hold unfolding heap_holds_def by blast+
  show A: "snd x \<in> A" "L ! snd x = fst x # cont st (snd x)" using heap [of x] x cont by auto
  have "y \<in> set (remove1 x heap) \<longleftrightarrow> snd y \<in> A - {snd x} \<and> L ! snd y \<noteq> [] \<and> fst y = hd (L ! snd y)" for y
  proof -
    have "y \<in> set (remove1 x heap) \<longleftrightarrow> y \<in> set heap \<and> y \<noteq> x"
      using dist by (simp add: distinct_map set_remove1_eq)
    moreover have "y \<in> set heap \<Longrightarrow> y \<noteq> x \<Longrightarrow> snd y \<noteq> snd x"
      using dist x by (auto simp: distinct_map dest: inj_onD)
    ultimately show ?thesis using heap [of y] by auto
  qed
  moreover have "distinct (map snd (remove1 x heap))" using dist by (simp add: distinct_map distinct_remove1 inj_on_def)
  ultimately show "heap_holds cont (A - {snd x}) (remove1 x heap) st L"
    using hold unfolding heap_holds_def by blast
qed

lemma pop_dups_ok:
  assumes "heap_holds cont A heap st L" "wf (length L) st" "above key A L" "all_sorted L"
  shows "\<exists>heap' st'. pop_dups adv prio key heap st = Some (heap', st') \<and> wf (length L) st'
    \<and> heap_holds cont A heap' st' (drop_on key A L) \<and> (\<forall>j. j \<notin> A \<longrightarrow> cont st' j = cont st j)"
  using assms
proof (induction "card (at_key key A L)" arbitrary: heap st L rule: less_induct)
  case less
  note hold = less.prems(1)
  have A: "A \<subseteq> {..<length L}" using hold unfolding heap_holds_def by blast
  have heap: "y \<in> set heap \<longleftrightarrow> snd y \<in> A \<and> L ! snd y \<noteq> [] \<and> fst y = hd (L ! snd y)" for y
    using hold unfolding heap_holds_def by blast
  show ?case
  proof (cases "heap \<noteq> [] \<and> fst (fst (pq_top prio heap)) = key")
    case False
    have "\<not> (L ! i \<noteq> [] \<and> fst (hd (L ! i)) = key)" if i: "i \<in> A" for i
    proof
      assume l: "L ! i \<noteq> [] \<and> fst (hd (L ! i)) = key"
      then have x: "(hd (L ! i), i) \<in> set heap" using heap [of "(hd (L ! i), i)"] i by simp
      then have "heap \<noteq> []" by auto
      note top = top_in [OF this, of prio]
      have "fst (fst (pq_top prio heap)) \<le> key" using top_least [OF x, of prio] l by (auto simp: node_rank_def less_eq_prod_def)
      moreover have "key \<le> fst (fst (pq_top prio heap))"
        using heap [of "pq_top prio heap"] top less.prems(3) unfolding above_def by auto
      ultimately show False using False \<open>heap \<noteq> []\<close> by simp
    qed
    then have "drop_on key A L = L" by (intro drop_on_idle) (auto simp: drop_key_def)
    moreover have "pop_dups adv prio key heap st = Some (heap, st)"
      using False by (subst pop_dups.simps) (simp only: if_False)
    ultimately show ?thesis using less.prems by auto
  next
    case True
    define x where "x = pq_top prio heap"
    define i where "i = snd x"
    have x: "x \<in> set heap" using top_in True by (simp add: x_def)
    note pop = pop_holds [OF hold x, folded i_def]
    have key: "fst (fst x) = key" using True by (simp add: x_def)
    have iL: "i < length L" using pop(2) A by auto
    have i_notin: "i \<notin> A - {i}" by simp
    obtain heap1 st1 where r: "refill adv i (remove1 x heap) st = Some (heap1, st1)" "wf (length L) st1"
        "heap_holds cont (insert i (A - {i})) heap1 st1 (L[i := cont st i])"
        "\<forall>j. j \<notin> insert i (A - {i}) \<longrightarrow> cont st1 j = cont st j"
      using refill_ok [OF pop(1) less.prems(2) i_notin iL refl] by blast
    have iA: "insert i (A - {i}) = A" using pop(2) by auto
    let ?L = "L[i := cont st i]"
    have sorted_i: "ssorted (fst x # cont st i)"
      using less.prems(4) iL pop(3) unfolding all_sorted_def by (metis nth_mem)
    have sorted': "all_sorted ?L"
      using less.prems(4) sorted_i unfolding all_sorted_def by (auto dest!: set_update_subset_insert [THEN subsetD])
    have tl_above: "cont st i \<noteq> [] \<Longrightarrow> key < fst (hd (cont st i))" using sorted_i key by (cases "cont st i") auto
    have above': "above key A ?L" using less.prems(3) tl_above by (rule above_update)
    have at: "i \<in> at_key key A L" using pop(2,3) key by (simp add: at_key_def)
    have "finite (at_key key A L)" using A by (auto simp: at_key_def intro: finite_subset)
    then have "card (at_key key A ?L) < card (at_key key A L)"
      using at by (subst at_key_step [OF at iL]) (rule tl_above, assumption, rule card_Diff1_less)
    moreover have "wf (length ?L) st1" using r(2) by simp
    ultimately have "\<exists>heap' st'. pop_dups adv prio key heap1 st1 = Some (heap', st') \<and> wf (length ?L) st'
        \<and> heap_holds cont A heap' st' (drop_on key A ?L) \<and> (\<forall>j. j \<notin> A \<longrightarrow> cont st' j = cont st1 j)"
      using r(3) [unfolded iA] above' sorted' by (intro less.hyps)
    then
    obtain heap' st' where fin: "pop_dups adv prio key heap1 st1 = Some (heap', st')" "wf (length L) st'"
        "heap_holds cont A heap' st' (drop_on key A ?L)" "\<forall>j. j \<notin> A \<longrightarrow> cont st' j = cont st1 j"
      by auto
    have "drop_on key A ?L = drop_on key A L"
      using pop(2,3) key by (intro drop_on_step iL drop_key_above tl_above) (simp_all add: drop_key_def)
    moreover have "pop_dups adv prio key heap st = pop_dups adv prio key heap1 st1"
      using True r(1) by (subst pop_dups.simps) (simp add: x_def [symmetric] i_def [symmetric] pq_pop_def)
    ultimately show ?thesis using fin r(4) iA by auto
  qed
qed

text \<open>With every source active the top of the queue is the entry \<open>merged\<close> takes next.\<close>

lemma top_winner:
  assumes hold: "heap_holds cont {..<length L} heap st L" and inj: "inj prio"
  shows "heap = [] \<longleftrightarrow> heads L = []"
    and "heap \<noteq> [] \<Longrightarrow> pq_top prio heap = (hd (L ! winning prio L), winning prio L)"
proof -
  have heap: "y \<in> set heap \<longleftrightarrow> snd y < length L \<and> L ! snd y \<noteq> [] \<and> fst y = hd (L ! snd y)" for y
    using hold unfolding heap_holds_def lessThan_iff by blast
  show iff: "heap = [] \<longleftrightarrow> heads L = []"
  proof
    assume "heap = []"
    then have "L ! i = []" if "i < length L" for i using heap [of "(hd (L ! i), i)"] that by auto
    then show "heads L = []" by (auto simp: heads_eq_Nil in_set_conv_nth)
  next
    assume "heads L = []"
    then have "y \<notin> set heap" for y using heap [of y] by (auto simp: heads_eq_Nil)
    then show "heap = []" by (cases heap) auto
  qed
  assume "heap \<noteq> []"
  then have ne: "heads L \<noteq> []" using iff by simp
  note w = winner_head [OF ne, where prio = prio]
  define x where "x = (hd (L ! winning prio L), winning prio L)"
  have x: "x \<in> set heap" using heap [of x] w(1,2) by (simp add: x_def)
  have less: "node_rank prio x < node_rank prio y" if y: "y \<in> set heap" "y \<noteq> x" for y
  proof -
    have y': "snd y < length L" "L ! snd y \<noteq> []" "fst y = hd (L ! snd y)" using heap [of y] y(1) by auto
    then have le: "min_key L \<le> fst (fst y)" using min_key_le [of "L ! snd y" L] by simp
    have "snd y \<noteq> winning prio L" using y(2) y'(3) by (auto simp: x_def prod_eq_iff)
    then have "prio (snd y) \<noteq> prio (winning prio L)" using inj by (simp add: inj_eq)
    moreover have "prio (winning prio L) \<le> prio (snd y)" if "fst (fst y) = min_key L" using w(4) y' that by simp
    ultimately show ?thesis using le w(3) by (cases "fst (fst y) = min_key L") (auto simp: x_def node_rank_def less_prod_def)
  qed
  show "pq_top prio heap = x" unfolding pq_top_def using x less by (rule arg_min_list_unique)
qed

lemma top_above:
  assumes "heads L \<noteq> []" "A \<subseteq> {..<length L}"
  shows "above (min_key L) A L"
  using assms(2) by (auto simp: above_def subset_iff intro!: min_key_le)

text \<open>One round of either loop: the popped winner is the head of \<open>merged\<close> and the sources are left with
  what \<open>merged\<close> continues with. The compactor refills the winner's source before it skips the older
  versions of the key, the scan after.\<close>

lemma compact_round:
  assumes hold: "heap_holds cont {..<length L} heap st L" and wf: "wf (length L) st" and srt: "all_sorted L"
    and inj: "inj prio" and ne: "heap \<noteq> []"
  defines "x \<equiv> pq_top prio heap"
  shows "\<exists>heap1 st1 heap' st'. refill adv (snd x) (pq_pop prio heap) st = Some (heap1, st1)
    \<and> pop_dups adv prio (fst (fst x)) heap1 st1 = Some (heap', st') \<and> wf (length L) st'
    \<and> heap_holds cont {..<length L} heap' st' (map (drop_key (min_key L)) L)
    \<and> merged prio L = fst x # merged prio (map (drop_key (min_key L)) L)"
proof -
  let ?w = "winning prio L" and ?A = "{..<length L}"
  have hd: "heads L \<noteq> []" using top_winner(1) [OF hold inj] ne by simp
  have x: "x = (hd (L ! ?w), ?w)" unfolding x_def using top_winner(2) [OF hold inj] ne by simp
  note w = winner_head [OF hd, where prio = prio]
  have xin: "x \<in> set heap" unfolding x_def by (rule top_in [OF ne])
  note pop = pop_holds [OF hold xin]
  have wl: "?w \<notin> ?A - {?w}" by simp
  have A: "insert ?w (?A - {?w}) = ?A" using w(1) by auto
  obtain heap1 st1 where r: "refill adv ?w (pq_pop prio heap) st = Some (heap1, st1)" "wf (length L) st1"
      "heap_holds cont ?A heap1 st1 (L[?w := cont st ?w])"
    using refill_ok [OF pop(1) wf, of ?w "cont st ?w"] w(1) A by (auto simp: x pq_pop_def x_def [symmetric])
  have lw: "L ! ?w = fst x # cont st ?w" using pop(3) x by simp
  have srtw: "ssorted (L ! ?w)" using srt w(1) by (simp add: all_sorted_def)
  have tl: "cont st ?w \<noteq> [] \<Longrightarrow> min_key L < fst (hd (cont st ?w))"
    using srtw w(3) unfolding lw by (cases "cont st ?w") auto
  have ab: "above (min_key L) ?A (L[?w := cont st ?w])"
    by (rule above_update [OF top_above [OF hd subset_refl]]) (rule tl)
  have srt': "all_sorted (L[?w := cont st ?w])"
    using srt srtw unfolding lw all_sorted_def by (auto dest!: set_update_subset_insert [THEN subsetD])
  have "drop_on (min_key L) ?A (L[?w := cont st ?w]) = drop_on (min_key L) ?A L"
    using w lw by (intro drop_on_step drop_key_above tl) (simp_all add: drop_key_def)
  also have "\<dots> = map (drop_key (min_key L)) L" by (rule nth_equalityI) simp_all
  finally have dr: "drop_on (min_key L) ?A (L[?w := cont st ?w]) = map (drop_key (min_key L)) L" .
  have "wf (length (L[?w := cont st ?w])) st1" using r(2) by simp
  from pop_dups_ok [OF r(3) this ab srt', of prio, unfolded dr]
  obtain heap' st' where "pop_dups adv prio (min_key L) heap1 st1 = Some (heap', st')" "wf (length L) st'"
      "heap_holds cont ?A heap' st' (map (drop_key (min_key L)) L)"
    by auto
  moreover have "merged prio L = fst x # merged prio (map (drop_key (min_key L)) L)"
    using hd w(3) by (subst merged.simps) (simp add: x prod_eq_iff)
  moreover have "fst (fst x) = min_key L" "snd x = ?w" using x w(3) by simp_all
  ultimately show ?thesis using r(1) by auto
qed

lemma scan_round:
  assumes hold: "heap_holds cont {..<length L} heap st L" and wf: "wf (length L) st" and srt: "all_sorted L"
    and inj: "inj prio" and ne: "heap \<noteq> []"
  defines "x \<equiv> pq_top prio heap"
  shows "\<exists>heap1 st1 heap' st'. pop_dups adv prio (fst (fst x)) (pq_pop prio heap) st = Some (heap1, st1)
    \<and> refill adv (snd x) heap1 st1 = Some (heap', st') \<and> wf (length L) st'
    \<and> heap_holds cont {..<length L} heap' st' (map (drop_key (min_key L)) L)
    \<and> merged prio L = fst x # merged prio (map (drop_key (min_key L)) L)"
proof -
  let ?w = "winning prio L" and ?A = "{..<length L}"
  have hd: "heads L \<noteq> []" using top_winner(1) [OF hold inj] ne by simp
  have x: "x = (hd (L ! ?w), ?w)" unfolding x_def using top_winner(2) [OF hold inj] ne by simp
  note w = winner_head [OF hd, where prio = prio]
  have xin: "x \<in> set heap" unfolding x_def by (rule top_in [OF ne])
  note pop = pop_holds [OF hold xin]
  have ab: "above (min_key L) (?A - {?w}) L" by (rule top_above [OF hd]) auto
  let ?D = "drop_on (min_key L) (?A - {?w}) L"
  obtain heap1 st1 where d: "pop_dups adv prio (min_key L) (pq_pop prio heap) st = Some (heap1, st1)" "wf (length L) st1"
      "heap_holds cont (?A - {?w}) heap1 st1 ?D" "cont st1 ?w = cont st ?w"
    using pop_dups_ok [OF pop(1) wf _ srt, of "min_key L" prio] ab by (auto simp: x pq_pop_def x_def [symmetric])
  have A: "insert ?w (?A - {?w}) = ?A" using w(1) by auto
  have lw: "L ! ?w = fst x # cont st ?w" using pop(3) x by simp
  have "?D[?w := cont st ?w] = map (drop_key (min_key L)) L"
  proof (rule nth_equalityI)
    fix j assume "j < length (?D[?w := cont st ?w])"
    then show "?D[?w := cont st ?w] ! j = map (drop_key (min_key L)) L ! j"
      using w lw by (cases "j = ?w") (simp_all add: drop_key_def)
  qed simp
  then obtain heap' st' where "refill adv ?w heap1 st1 = Some (heap', st')" "wf (length L) st'"
      "heap_holds cont ?A heap' st' (map (drop_key (min_key L)) L)"
    using refill_ok [OF d(3), of ?w "cont st ?w"] w(1) A d(2,4) by auto
  moreover have "merged prio L = fst x # merged prio (map (drop_key (min_key L)) L)"
    using hd w(3) by (subst merged.simps) (simp add: x prod_eq_iff)
  moreover have "fst (fst x) = min_key L" "snd x = ?w" using x w(3) by simp_all
  ultimately show ?thesis using d(1) by auto
qed

end

lemma heap_holds_empty: "heap_holds cont {} [] st L"
  by (simp add: heap_holds_def)

end
