(* ===== verification/FileNames.thy ===== *)
theory FileNames
  imports FileSystem "HOL-Library.Product_Lexorder"
begin

text \<open>
  The names of table files: \<open>sst-<level>-<counter>.sst\<close>, written by \<open>LSMEngine::sstPath\<close> and
  \<open>LeveledCompactor::makeSSTPath\<close> and parsed back by \<open>LSMEngine::loadSSTables\<close>, together with what they
  use of the library (\<open>std::filesystem::path\<close>, \<open>std::stoi\<close>, \<open>std::stoll\<close>, decimal output of an \<open>int\<close> with
  \<open>setw(6)\<close> and \<open>setfill('0')\<close>). A name decides which table shadows which, so the lemmas show that
  writing and parsing are inverse and that a temporary's name is never taken for a table.
\<close>

section \<open>Decimal numbers\<close>

abbreviation int_max :: nat where
  "int_max \<equiv> 2147483647"

definition digit :: "nat \<Rightarrow> char" where
  "digit d = char_of (48 + d)"

fun show_nat :: "nat \<Rightarrow> string" where
  "show_nat n = (if n < 10 then [digit n] else show_nat (n div 10) @ [digit (n mod 10)])"

declare show_nat.simps [simp del]

text \<open>\<open>setw(6) << setfill('0')\<close> pads a shorter number on the left.\<close>

definition show_padded :: "nat \<Rightarrow> string" where
  "show_padded n = (let s = show_nat n in replicate (6 - length s) CHR ''0'' @ s)"

definition is_digit :: "char \<Rightarrow> bool" where
  "is_digit c \<longleftrightarrow> 48 \<le> (of_char c :: nat) \<and> (of_char c :: nat) \<le> 57"

definition digits_val :: "string \<Rightarrow> nat" where
  "digits_val s = foldl (\<lambda>a c. 10 * a + (of_char c - 48)) 0 s"

text \<open>\<open>strtol\<close> as \<open>std::stoi\<close> and \<open>std::stoll\<close> use it: leading white space, an optional sign, digits up to the
  first other character. \<open>None\<close> is either exception, no digits or out of range of \<open>w\<close> bits.\<close>

definition is_space :: "char \<Rightarrow> bool" where
  "is_space c \<longleftrightarrow> c \<in> set [CHR '' '', CHR 0x09, CHR 0x0A, CHR 0x0B, CHR 0x0C, CHR 0x0D]"

definition strto :: "nat \<Rightarrow> string \<Rightarrow> int option" where
  "strto w s =
     (let s = dropWhile is_space s;
          neg = (s \<noteq> [] \<and> hd s = CHR ''-'');
          s = (if s \<noteq> [] \<and> (hd s = CHR ''-'' \<or> hd s = CHR ''+'') then tl s else s);
          ds = takeWhile is_digit s;
          v = (if neg then - int (digits_val ds) else int (digits_val ds))
      in if ds = [] \<or> v < - (2 ^ (w - 1)) \<or> v \<ge> 2 ^ (w - 1) then None else Some v)"

definition stoi :: "string \<Rightarrow> int option" where
  "stoi = strto 32"

definition stoll :: "string \<Rightarrow> int option" where
  "stoll = strto 64"

section \<open>Paths\<close>

definition filename :: "path \<Rightarrow> string" where
  "filename p = rev (takeWhile (\<lambda>c. c \<noteq> CHR ''/'') (rev p))"

text \<open>\<open>extension()\<close> of the file name: from its last dot, unless that is its first character.\<close>

definition extension :: "path \<Rightarrow> string" where
  "extension p =
     (let f = filename p;
          suffix = takeWhile (\<lambda>c. c \<noteq> CHR ''.'') (rev f)
      in if f = ''..'' \<or> length f \<le> length suffix + 1 then [] else CHR ''.'' # rev suffix)"

definition stem :: "path \<Rightarrow> string" where
  "stem p = take (length (filename p) - length (extension p)) (filename p)"

definition sst_name :: "nat \<Rightarrow> nat \<Rightarrow> string" where
  "sst_name level counter = ''sst-'' @ show_nat level @ ''-'' @ show_padded counter @ ''.sst''"

definition makeSSTPath :: "path \<Rightarrow> nat \<Rightarrow> nat \<Rightarrow> path" where
  "makeSSTPath data_dir level counter = data_dir @ ''/'' @ sst_name level counter"

definition sstPath :: "path \<Rightarrow> nat \<Rightarrow> nat \<Rightarrow> path" where
  "sstPath data_dir level counter = data_dir @ ''/'' @ sst_name level counter"

section \<open>Parsing a name\<close>

definition allDigits :: "string \<Rightarrow> bool" where
  "allDigits v \<longleftrightarrow> v \<noteq> [] \<and> list_all is_digit v"

text \<open>The body of the loop in \<open>loadSSTables\<close>: the level and counter a directory entry is loaded with, \<open>None\<close>
  when it is skipped.\<close>

definition parse_sst :: "path \<Rightarrow> (nat \<times> nat) option" where
  "parse_sst p =
     (if extension p \<noteq> ''.sst'' then None
      else
        (let s = stem p in
         if \<not> prefix ''sst-'' s then None
         else
           (let level_str = takeWhile (\<lambda>c. c \<noteq> CHR ''-'') (drop 4 s);
                rest = dropWhile (\<lambda>c. c \<noteq> CHR ''-'') (drop 4 s)
            in if rest = [] then None
               else
                 (let counter_str = tl rest in
                  if \<not> allDigits level_str \<or> \<not> allDigits counter_str then None
                  else
                    (case (stoll level_str, stoll counter_str) of
                       (Some level, Some counter) \<Rightarrow>
                         if level > int int_max \<or> counter > int int_max then None
                         else Some (nat level, nat counter)
                     | _ \<Rightarrow> None)))))"

section \<open>Digits\<close>

lemma of_char_digit: "d < 10 \<Longrightarrow> of_char (digit d) = 48 + d"
  by (simp add: digit_def)

lemma is_digit_digit: "d < 10 \<Longrightarrow> is_digit (digit d)"
  by (simp add: is_digit_def of_char_digit)

lemma digits_val_snoc: "digits_val (s @ [c]) = 10 * digits_val s + (of_char c - 48)"
  by (simp add: digits_val_def)

lemma show_nat_digits: "list_all is_digit (show_nat n) \<and> show_nat n \<noteq> []"
proof (induction n rule: show_nat.induct)
  case (1 n)
  then show ?case by (subst (1 2) show_nat.simps) (simp add: is_digit_digit)
qed

lemma digits_val_show: "digits_val (show_nat n) = n"
proof (induction n rule: show_nat.induct)
  case (1 n)
  have "digits_val [digit n] = n" if "n < 10" using that by (simp add: digits_val_def of_char_digit)
  then show ?case using 1 by (subst show_nat.simps) (simp add: digits_val_snoc of_char_digit)
qed

lemma digits_val_zeros: "digits_val (replicate k CHR ''0'' @ s) = digits_val s"
proof (induction k)
  case (Suc k)
  have "foldl f b (replicate (Suc k) a @ s) = foldl f (f b a) (replicate k a @ s)" for f :: "nat \<Rightarrow> char \<Rightarrow> nat" and a b
    by simp
  then show ?case using Suc by (simp add: digits_val_def)
qed simp

lemma show_padded_digits: "list_all is_digit (show_padded n)" "show_padded n \<noteq> []"
  using show_nat_digits [of n] by (auto simp: show_padded_def Let_def list_all_iff is_digit_def)

lemma digits_val_padded: "digits_val (show_padded n) = n"
  by (simp add: show_padded_def Let_def digits_val_zeros digits_val_show)

lemma is_digit_not: "is_digit c \<Longrightarrow> c \<noteq> CHR ''-'' \<and> c \<noteq> CHR ''.'' \<and> c \<noteq> CHR ''/'' \<and> c \<noteq> CHR ''+'' \<and> \<not> is_space c"
  by (auto simp: is_digit_def is_space_def)

lemma strto_digits:
  assumes "list_all is_digit s" "s \<noteq> []" "int (digits_val s) < 2 ^ (w - 1)"
  shows "strto w s = Some (int (digits_val s))"
proof -
  obtain c t where s: "s = c # t" using assms(2) by (cases s) auto
  have "dropWhile is_space s = s" "takeWhile is_digit s = s" "hd s \<noteq> CHR ''-''" "hd s \<noteq> CHR ''+''"
    using assms(1) is_digit_not [of c] by (auto simp: s list_all_iff takeWhile_eq_all_conv)
  moreover have "\<not> int (digits_val s) < - (2 ^ (w - 1))" by (simp add: not_less order_trans [of _ 0])
  moreover have "\<not> int (digits_val s) \<ge> 2 ^ (w - 1)" using assms(3) by linarith
  ultimately show ?thesis using assms(2) unfolding strto_def Let_def by (simp only: simp_thms if_False)
qed

section \<open>Names\<close>

lemma takeWhile_append_stop: "\<forall>x \<in> set xs. P x \<Longrightarrow> \<not> P y \<Longrightarrow> takeWhile P (xs @ y # ys) = xs"
  by (induction xs) auto

lemma dropWhile_append_stop: "\<forall>x \<in> set xs. P x \<Longrightarrow> \<not> P y \<Longrightarrow> dropWhile P (xs @ y # ys) = y # ys"
  by (induction xs) auto

lemma filename_join:
  assumes "CHR ''/'' \<notin> set f"
  shows "filename (d @ ''/'' @ f) = f"
proof -
  have "takeWhile (\<lambda>c. c \<noteq> CHR ''/'') (rev f @ CHR ''/'' # rev d) = rev f"
    using assms by (intro takeWhile_append_stop) auto
  then show ?thesis by (simp add: filename_def)
qed

lemma sst_name_chars: "CHR ''/'' \<notin> set (sst_name l c)"
  using show_nat_digits [of l] show_padded_digits [of c] is_digit_not by (fastforce simp: sst_name_def list_all_iff)

lemma filename_sst [simp]: "filename (sstPath d l c) = sst_name l c"
  unfolding sstPath_def by (rule filename_join [OF sst_name_chars])

lemma extension_split:
  assumes "filename p = b @ CHR ''.'' # e" "b \<noteq> []" "CHR ''.'' \<notin> set e" "e \<noteq> []"
  shows "extension p = CHR ''.'' # e" "stem p = b"
proof -
  have t: "takeWhile (\<lambda>c. c \<noteq> CHR ''.'') (rev (filename p)) = rev e"
    using takeWhile_append_stop [of "rev e" "\<lambda>c. c \<noteq> CHR ''.''" "CHR ''.''" "rev b"] assms by auto
  have "filename p \<noteq> ''..''"
  proof
    assume "filename p = ''..''"
    then have "b @ CHR ''.'' # e = [CHR ''.'', CHR ''.'']" using assms(1) by simp
    then show False using assms(2-4) by (auto simp: append_eq_Cons_conv)
  qed
  then show x: "extension p = CHR ''.'' # e" using assms(1,2) t by (simp add: extension_def Let_def Suc_le_eq)
  show "stem p = b" by (simp add: stem_def x assms(1))
qed

lemma sst_path_parts:
  "extension (sstPath d l c) = ''.sst''" "stem (sstPath d l c) = ''sst-'' @ show_nat l @ ''-'' @ show_padded c"
  using extension_split [of "sstPath d l c" "''sst-'' @ show_nat l @ ''-'' @ show_padded c" "''sst''"]
  by (simp_all add: sst_name_def)

lemma parse_sstPath:
  assumes "l \<le> int_max" "c \<le> int_max"
  shows "parse_sst (sstPath d l c) = Some (l, c)"
proof -
  have l: "\<forall>x \<in> set (show_nat l). x \<noteq> CHR ''-''" using show_nat_digits [of l] is_digit_not by (auto simp: list_all_iff)
  note t = takeWhile_append_stop [OF l, of "CHR ''-''" "show_padded c"]
    dropWhile_append_stop [OF l, of "CHR ''-''" "show_padded c"]
  have "stoll (show_nat l) = Some (int l)" "stoll (show_padded c) = Some (int c)"
    using assms show_nat_digits [of l] show_padded_digits [of c] unfolding stoll_def
    by (simp_all add: strto_digits digits_val_show digits_val_padded)
  then show ?thesis
    using t show_nat_digits [of l] show_padded_digits [of c] assms
    by (simp add: parse_sst_def sst_path_parts allDigits_def Let_def)
qed

lemma sstPath_inject:
  assumes "l \<le> int_max" "c \<le> int_max" "l' \<le> int_max" "c' \<le> int_max"
  shows "sstPath d l c = sstPath d l' c' \<longleftrightarrow> l = l' \<and> c = c'"
  using parse_sstPath [OF assms(1,2), of d] parse_sstPath [OF assms(3,4), of d] by (metis option.inject prod.inject)

lemma extension_tmp: "extension (p @ ''.tmp'') = ''.tmp'' \<or> filename p = []"
proof (cases "filename p = []")
  case False
  have "filename (p @ ''.tmp'') = filename p @ ''.tmp''" by (simp add: filename_def)
  then have "extension (p @ ''.tmp'') = CHR ''.'' # ''tmp''" using False by (intro extension_split(1)) auto
  then show ?thesis by simp
qed simp

lemma parse_tmp: "filename p \<noteq> [] \<Longrightarrow> parse_sst (p @ ''.tmp'') = None"
  using extension_tmp [of p] by (simp add: parse_sst_def)

section \<open>Properties\<close>

text \<open>C30. File names round trip: the name the engine or the compactor gives a table is parsed back to its
  level and counter, for all levels and counters an \<open>int\<close> can hold (more than one digit of level, more
  than six of counter), and the name of its temporary is never taken for a table.\<close>

theorem sst_name_roundtrip:
  assumes "level \<le> int_max" "counter \<le> int_max"
  shows "parse_sst (sstPath d level counter) = Some (level, counter)
     \<and> parse_sst (makeSSTPath d level counter) = Some (level, counter)
     \<and> parse_sst (sstPath d level counter @ ''.tmp'') = None"
proof -
  have "parse_sst (sstPath d level counter @ ''.tmp'') = None" by (rule parse_tmp) (simp add: sst_name_def)
  then show ?thesis using parse_sstPath [OF assms, of d] by (simp add: makeSSTPath_def sstPath_def)
qed

theorem sst_name_roundtrip_witness:
  "parse_sst (sstPath ''/d'' 10 1000000) = Some (10, 1000000) \<and> parse_sst (sstPath ''/d'' 10 1000000 @ ''.tmp'') = None"
  using sst_name_roundtrip [of 10 1000000 "''/d''"] by simp

end
