(* ===== verification/Store.thy ===== *)
theory Store
  imports FileNames SSTable Merge "HOL-Library.Multiset"
begin

text \<open>
  The tables of a data directory: \<open>LSMEngine::loadSSTables\<close>, which lists the directory, orders the table
  files by level and counter and opens them, and the abstraction the compactor and the engine share.
  A \<open>store\<close> lists the tables with their level, counter and entries, oldest first; \<open>on_disk\<close> says that a file
  system holds exactly these tables; \<open>look\<close> is the value the stack of tables gives a key.
\<close>

section \<open>Loading\<close>

type_synonym sst_file = "path \<times> nat \<times> nat"

definition sst_files :: "path list \<Rightarrow> sst_file list" where
  "sst_files names = List.map_filter (\<lambda>p. map_option (\<lambda>lc. (p, lc)) (parse_sst p)) names"

text \<open>The comparison of \<open>std::sort\<close>: higher levels first, then ascending counters.\<close>

definition load_key :: "nat \<times> nat \<Rightarrow> int \<times> nat" where
  "load_key lc = (- int (fst lc), snd lc)"

fun open_files :: "(path \<Rightarrow> bool \<times> bool) \<Rightarrow> fs \<Rightarrow> sst_file list \<Rightarrow> sstable list \<Rightarrow> nat
    \<Rightarrow> sst_error + (sstable list \<times> nat)" where
  "open_files opens fs [] sstables sst_counter = Inr (sstables, sst_counter)"
| "open_files opens fs ((p, level, counter) # files) sstables sst_counter =
     (case sst_open (fst (opens p)) (snd (opens p)) fs p of
        Inl e \<Rightarrow> Inl e
      | Inr t \<Rightarrow> open_files opens fs files (sstables @ [t])
                  (if level = 0 then max sst_counter (counter + 1) else sst_counter))"

text \<open>\<open>names\<close> is what the directory iterator delivers, \<open>opens\<close> whether a table's two opens succeed.\<close>

definition loadSSTables :: "(path \<Rightarrow> bool \<times> bool) \<Rightarrow> path list \<Rightarrow> fs \<Rightarrow> sst_error + (sstable list \<times> nat)" where
  "loadSSTables opens names fs = open_files opens fs (sort_key (load_key \<circ> snd) (sst_files names)) [] 0"

section \<open>Stacks of tables\<close>

primrec look :: "entry list list \<Rightarrow> bytes \<rightharpoonup> bytes option" where
  "look [] = Map.empty"
| "look (t # ts) = map_of t ++ look ts"

definition live :: "bytes option option \<Rightarrow> bytes option" where
  "live r = (case r of Some (Some v) \<Rightarrow> Some v | _ \<Rightarrow> None)"

lemma live_simps [simp]: "live None = None" "live (Some r) = r"
  by (simp_all add: live_def split: option.splits)

lemma look_append [simp]: "look (xs @ ys) = look xs ++ look ys"
  by (induction xs) simp_all

lemma look_cong: "(\<And>t. t \<in> set ts \<Longrightarrow> map_of t k = None) \<Longrightarrow> look ts k = None"
  by (induction ts) (simp_all add: map_add_def)

lemma look_drop: "look (drop i ts) k = Some r \<Longrightarrow> look ts k = Some r"
  using look_append [of "take i ts" "drop i ts"] by (simp add: map_add_def)

lemma look_concat:
  "ssorted (concat ts) \<Longrightarrow> look ts = map_of (concat ts)"
proof (induction ts)
  case (Cons t ts)
  have "map_of t k = None \<or> map_of (concat ts) k = None" for k
  proof (rule ccontr)
    assume "\<not> ?thesis"
    then obtain v v' where "(k, v) \<in> set t" "(k, v') \<in> set (concat ts)"
      by (metis map_of_SomeD option.exhaust)
    then show False using ssorted_appendD [of t "concat ts" "(k, v)" "(k, v')"] Cons.prems by simp
  qed
  then have "map_of t ++ map_of (concat ts) = map_of (concat ts) ++ map_of t"
    by (intro map_add_comm) (metis disjoint_iff domD option.simps(3))
  moreover have "ssorted (concat ts)" using Cons.prems by (simp add: sorted_wrt_append)
  ultimately show ?case using Cons.IH by simp
qed simp

lemma layered_hit:
  assumes "inj prio" "i < length L" "map_of (L ! i) k = Some v"
    and "\<And>j. j < length L \<Longrightarrow> map_of (L ! j) k \<noteq> None \<Longrightarrow> prio i \<le> prio j"
  shows "layered prio L k = Some v"
proof -
  have "arg_min_list prio (holders L k) = i"
  proof (rule arg_min_list_unique)
    show "i \<in> set (holders L k)" using assms(2,3) by (simp add: holders_def)
    fix j assume "j \<in> set (holders L k)" "j \<noteq> i"
    then have "prio i \<le> prio j" "prio i \<noteq> prio j"
      using assms(4) [of j] inj_eq [OF assms(1), of i j] by (auto simp: holders_def)
    then show "prio i < prio j" by simp
  qed
  moreover have "holders L k \<noteq> []" using assms(2,3) by (auto simp: holders_def filter_empty_conv)
  ultimately show ?thesis using assms(3) by (simp add: layered_def)
qed

lemma layered_miss: "(\<And>j. j < length L \<Longrightarrow> map_of (L ! j) k = None) \<Longrightarrow> layered prio L k = None"
  by (simp add: layered_def holders_def filter_empty_conv)

lemma look_last_holder:
  "look L k = Some v \<Longrightarrow> \<exists>i < length L. map_of (L ! i) k = Some v \<and> (\<forall>j < length L. i < j \<longrightarrow> map_of (L ! j) k = None)"
proof (induction L)
  case (Cons t L)
  show ?case
  proof (cases "look L k")
    case None
    then have "map_of (L ! j) k = None" if "j < length L" for j using that
    proof (induction L arbitrary: j)
      case (Cons t' L)
      then show ?case by (cases j) (auto simp: map_add_None)
    qed simp
    then show ?thesis using Cons.prems None by (intro exI [of _ 0]) (auto simp: nth_Cons' map_add_def)
  next
    case (Some r)
    then obtain i where "i < length L" "map_of (L ! i) k = Some r" "\<forall>j < length L. i < j \<longrightarrow> map_of (L ! j) k = None"
      using Cons by (auto simp: map_add_def)
    moreover have "r = v" using Cons.prems Some by (simp add: map_add_def)
    ultimately show ?thesis by (intro exI [of _ "Suc i"]) (auto simp: nth_Cons')
  qed
qed simp

lemma look_none_holder: "look L k = None \<Longrightarrow> j < length L \<Longrightarrow> map_of (L ! j) k = None"
proof (induction L arbitrary: j)
  case (Cons t L)
  then show ?case by (cases j) (auto simp: map_add_None)
qed simp

text \<open>Newer tables have higher indices: the compactor's precedence.\<close>

lemma layered_look: "layered (\<lambda>i. - int i) L = look L"
proof
  fix k
  show "layered (\<lambda>i. - int i) L k = look L k"
  proof (cases "look L k")
    case None
    then show ?thesis using look_none_holder by (simp add: layered_miss)
  next
    case (Some v)
    then obtain i where i: "i < length L" "map_of (L ! i) k = Some v" "\<forall>j < length L. i < j \<longrightarrow> map_of (L ! j) k = None"
      using look_last_holder by blast
    have "layered (\<lambda>i. - int i) L k = Some v"
    proof (rule layered_hit [OF _ i(1,2)])
      show "inj (\<lambda>i. - int i)" by (simp add: inj_def)
      show "- int i \<le> - int j" if "j < length L" "map_of (L ! j) k \<noteq> None" for j
        using i(3) that by (cases "i < j") auto
    qed
    then show ?thesis using Some by simp
  qed
qed

text \<open>Newest first: the scan's precedence.\<close>

lemma layered_look_rev: "layered int L = look (rev L)"
proof
  fix k
  show "layered int L k = look (rev L) k"
  proof (cases "look (rev L) k")
    case None
    have "map_of (L ! j) k = None" if "j < length L" for j
      using look_none_holder [OF None, of "length L - Suc j"] that by (simp add: rev_nth)
    then show ?thesis using None by (simp add: layered_miss)
  next
    case (Some v)
    then obtain i where i: "i < length L" "map_of (rev L ! i) k = Some v"
        "\<forall>j < length L. i < j \<longrightarrow> map_of (rev L ! j) k = None"
      using look_last_holder [OF Some] by auto
    have "layered int L k = Some v"
    proof (rule layered_hit [of _ "length L - Suc i"])
      show "inj int" by simp
      show "length L - Suc i < length L" using i(1) by simp
      show "map_of (L ! (length L - Suc i)) k = Some v" using i(1,2) by (simp add: rev_nth)
      fix j assume j: "j < length L" "map_of (L ! j) k \<noteq> None"
      have "\<not> i < length L - Suc j"
      proof
        assume "i < length L - Suc j"
        then have "map_of (rev L ! (length L - Suc j)) k = None" using i(3) j(1) by simp
        then show False using j by (simp add: rev_nth)
      qed
      then show "int (length L - Suc i) \<le> int j" by simp
    qed
    then show ?thesis using Some by simp
  qed
qed

section \<open>Stores\<close>

type_synonym store = "((nat \<times> nat) \<times> entry list) list"

abbreviation store_path :: "path \<Rightarrow> (nat \<times> nat) \<times> entry list \<Rightarrow> path" where
  "store_path d x \<equiv> sstPath d (fst (fst x)) (snd (fst x))"

definition store_tables :: "(nat \<Rightarrow> nat) \<Rightarrow> path \<Rightarrow> store \<Rightarrow> sstable list" where
  "store_tables fp d st = map (\<lambda>x. table_of fp (store_path d x) (snd x)) st"

definition store_ok :: "(nat \<Rightarrow> nat) \<Rightarrow> store \<Rightarrow> bool" where
  "store_ok fp st \<longleftrightarrow> sorted_wrt (<) (map (load_key \<circ> fst) st)
     \<and> (\<forall>x \<in> set st. fst (fst x) \<le> 1 \<and> snd (fst x) < int_max \<and> table_ok fp (snd x))"

definition in_dir :: "path \<Rightarrow> path \<Rightarrow> bool" where
  "in_dir d p \<longleftrightarrow> (\<exists>f. p = d @ ''/'' @ f \<and> CHR ''/'' \<notin> set f)"

text \<open>What a complete, successful directory iteration delivers.\<close>

definition lists_dir :: "path \<Rightarrow> fs \<Rightarrow> path list \<Rightarrow> bool" where
  "lists_dir d fs names \<longleftrightarrow> distinct names \<and> set names = {p \<in> dom fs. in_dir d p}"

definition on_disk :: "(nat \<Rightarrow> nat) \<Rightarrow> path \<Rightarrow> fs \<Rightarrow> store \<Rightarrow> bool" where
  "on_disk fp d fs st \<longleftrightarrow> store_ok fp st
     \<and> (\<forall>x \<in> set st. fs (store_path d x) = Some (table_bytes fp (snd x)))
     \<and> (\<forall>p. in_dir d p \<and> p \<in> dom fs \<and> parse_sst p \<noteq> None \<longrightarrow> p \<in> store_path d ` set st)"

definition bump :: "(nat \<times> nat) \<times> entry list \<Rightarrow> nat \<Rightarrow> nat" where
  "bump x c = (if fst (fst x) = 0 then max c (snd (fst x) + 1) else c)"

definition next_counter :: "store \<Rightarrow> nat" where
  "next_counter st = fold bump st 0"

lemma in_dir_sst [simp]: "in_dir d (sstPath d l c)"
  unfolding in_dir_def sstPath_def using sst_name_chars by blast

lemma load_key_inject [simp]: "load_key a = load_key b \<longleftrightarrow> a = b"
  by (auto simp: load_key_def prod_eq_iff)

lemma store_parse: "store_ok fp st \<Longrightarrow> x \<in> set st \<Longrightarrow> parse_sst (store_path d x) = Some (fst x)"
  using parse_sstPath [of "fst (fst x)" "snd (fst x)" d] by (force simp: store_ok_def)

lemma store_path_inj: "store_ok fp st \<Longrightarrow> inj_on (store_path d) (set st)"
proof (rule inj_onI)
  fix x y assume st: "store_ok fp st" "x \<in> set st" "y \<in> set st" "store_path d x = store_path d y"
  then have "fst x = fst y" using store_parse [OF st(1)] by (metis option.inject)
  moreover have "distinct (map fst st)"
    using st(1) by (auto simp: store_ok_def strict_sorted_iff distinct_map inj_on_def)
  ultimately show "x = y" using st(2,3) by (auto simp: distinct_map dest: inj_onD)
qed

text \<open>The sorted files of the directory are the store's, in its order.\<close>

lemma sorted_files:
  assumes disk: "on_disk fp d fs st" and names: "lists_dir d fs names"
  shows "sort_key (load_key \<circ> snd) (sst_files names) = map (\<lambda>x. (store_path d x, fst x)) st"
proof -
  let ?f = "load_key \<circ> snd :: sst_file \<Rightarrow> int \<times> nat" and ?ys = "map (\<lambda>x. (store_path d x, fst x)) st"
  have ok: "store_ok fp st" using disk by (simp add: on_disk_def)
  have "set (sst_files names) = {(p, lc). p \<in> dom fs \<and> in_dir d p \<and> parse_sst p = Some lc}"
    using names by (force simp: sst_files_def map_filter_def lists_dir_def)
  also have "\<dots> = set ?ys"
    using disk store_parse [OF ok, of _ d] by (force simp: on_disk_def)
  finally have set: "set (sst_files names) = set ?ys" .
  have "inj_on (\<lambda>p. (p, the (parse_sst p))) A" for A by (simp add: inj_on_def)
  moreover have "sst_files names = map (\<lambda>p. (p, the (parse_sst p))) (filter (\<lambda>p. parse_sst p \<noteq> None) names)"
    by (induction names) (auto simp: sst_files_def map_filter_simps split: option.split)
  ultimately have d1: "distinct (sst_files names)"
    using names by (simp add: lists_dir_def distinct_map)
  have "sorted_wrt (<) (map ?f ?ys)" using ok by (simp add: store_ok_def o_def)
  then have s: "sorted (map ?f ?ys)" and dk: "distinct (map ?f ?ys)" by (simp_all add: strict_sorted_iff)
  have d2: "distinct ?ys" using dk unfolding distinct_map [of ?f] by (rule conjunct1)
  have "mset (sst_files names) = mset ?ys" using set set_eq_iff_mset_eq_distinct [OF d1 d2] by blast
  moreover have "inj_on ?f (set (sst_files names))" using dk unfolding distinct_map [of ?f] set by (rule conjunct2)
  ultimately show ?thesis using s by (rule sort_key_inj_key_eq)
qed

lemma open_files_store:
  assumes "\<And>x. x \<in> set st \<Longrightarrow> fs (store_path d x) = Some (table_bytes fp (snd x)) \<and> table_ok fp (snd x)"
  shows "open_files (\<lambda>_. (True, True)) fs (map (\<lambda>x. (store_path d x, fst x)) st) ts c =
    Inr (ts @ store_tables fp d st, fold bump st c)"
  using assms
proof (induction st arbitrary: ts c)
  case (Cons x st)
  have "sst_open True True fs (store_path d x) = Inr (table_of fp (store_path d x) (snd x))"
    using Cons.prems [of x] by (simp add: sst_open_table)
  then show ?case using Cons.IH Cons.prems by (cases x, cases "fst x") (simp add: store_tables_def bump_def)
qed (simp add: store_tables_def)

lemma load_store:
  assumes "on_disk fp d fs st" "lists_dir d fs names"
  shows "loadSSTables (\<lambda>_. (True, True)) names fs = Inr (store_tables fp d st, next_counter st)"
  using open_files_store [of st fs d fp "[]" 0] assms
  by (simp add: loadSSTables_def sorted_files [OF assms] next_counter_def on_disk_def store_ok_def)

lemma fold_bump_mono: "c \<le> fold bump st c"
proof (induction st arbitrary: c)
  case (Cons x st)
  have "c \<le> bump x c" by (simp add: bump_def)
  also have "\<dots> \<le> fold bump st (bump x c)" by (rule Cons.IH)
  finally show ?case by simp
qed simp

lemma next_counter_bound: "x \<in> set st \<Longrightarrow> fst (fst x) = 0 \<Longrightarrow> snd (fst x) < next_counter st"
proof -
  have "snd (fst x) < fold bump st c" if "x \<in> set st" "fst (fst x) = 0" for c
    using that
  proof (induction st arbitrary: c)
    case (Cons y st)
    show ?case
    proof (cases "x = y")
      case True
      then have "snd (fst x) < bump y c" using Cons.prems(2) by (simp add: bump_def)
      then show ?thesis using fold_bump_mono [of "bump y c" st] by simp
    qed (use Cons in simp)
  qed simp
  then show "x \<in> set st \<Longrightarrow> fst (fst x) = 0 \<Longrightarrow> snd (fst x) < next_counter st" by (simp add: next_counter_def)
qed

section \<open>Properties\<close>



end
