(* ===== verification/Compactor.thy ===== *)
theory Compactor
  imports Store
begin

text \<open>
  \<open>LeveledCompactor::run\<close> (src/compaction/leveled_compactor.cpp). A run merges every open table into fresh
  level-1 tables: it sweeps abandoned temporaries, numbers its outputs past every level-1 table in memory
  and on disk, streams the merge of the iterators through a buffer into temporaries, renames them into
  place, opens them, and removes the inputs.

  The run is modelled as the sequence of file operations it performs, so that every prefix is a state a
  crash can leave, together with its outcome. \<open>compact_io\<close> carries what the environment decides: the names
  a directory iteration delivers, which calls fail, and which fault injection points throw.
  A result \<open>None\<close> is undefined behaviour, overflow of an \<open>int\<close> counter.
\<close>

section \<open>Environment\<close>

datatype compact_error = TableError sst_error | RenameFailed | Injected string

record compact_io =
  sweep_names :: "path list"
  sweep_ok :: "path \<Rightarrow> bool"
  dir_names :: "path list"
  write_of :: "nat \<Rightarrow> write_io"
  sync_ok :: "path \<Rightarrow> bool"
  rename_ok :: "nat \<Rightarrow> bool"
  open_ok :: "nat \<Rightarrow> bool \<times> bool"
  injected :: "string \<Rightarrow> nat \<Rightarrow> bool"
  cleanup_ok :: "path \<Rightarrow> bool"
  remove_ok :: "path \<Rightarrow> bool"

definition l0_threshold :: nat where
  "l0_threshold = 4"

definition l1_max_file_entries :: nat where
  "l1_max_file_entries = 1000"

definition fsyncFile :: "compact_io \<Rightarrow> path \<Rightarrow> fs_op list" where
  "fsyncFile io path = (if sync_ok io path then [Sync path] else [])"

definition fsyncDir :: "compact_io \<Rightarrow> path \<Rightarrow> fs_op list" where
  "fsyncDir io dir = (if sync_ok io dir then [SyncDir dir] else [])"

section \<open>Counting, sweeping, numbering\<close>

definition l0_paths :: "sstable list \<Rightarrow> path list" where
  "l0_paths ts = filter (\<lambda>p. prefix ''sst-0-'' (filename p)) (map sst_path ts)"

definition l1_paths :: "sstable list \<Rightarrow> path list" where
  "l1_paths ts = filter (\<lambda>p. \<not> prefix ''sst-0-'' (filename p) \<and> prefix ''sst-1-'' (filename p)) (map sst_path ts)"

definition sweep :: "compact_io \<Rightarrow> fs_op list" where
  "sweep io = map Remove (filter (\<lambda>p. extension p = ''.tmp'' \<and> sweep_ok io p) (sweep_names io))"

text \<open>\<open>l1_start = max(l1_start, stoi(s) + 1)\<close>, where an exception is ignored.\<close>

definition past :: "string \<Rightarrow> int \<Rightarrow> int option" where
  "past s l1_start =
     (case stoi s of
        None \<Rightarrow> Some l1_start
      | Some v \<Rightarrow> if v = int int_max then None else Some (max l1_start (v + 1)))"

fun number_open :: "path list \<Rightarrow> int \<Rightarrow> int option" where
  "number_open [] l1_start = Some l1_start"
| "number_open (p # ps) l1_start =
     (if CHR ''-'' \<in> set (stem p)
      then Option.bind (past (rev (takeWhile (\<lambda>c. c \<noteq> CHR ''-'') (rev (stem p)))) l1_start) (number_open ps)
      else number_open ps l1_start)"

fun number_dir :: "path list \<Rightarrow> int \<Rightarrow> int option" where
  "number_dir [] l1_start = Some l1_start"
| "number_dir (p # ps) l1_start =
     (if extension p \<noteq> ''.sst'' \<or> \<not> prefix ''sst-1-'' (stem p) then number_dir ps l1_start
      else Option.bind (past (drop 6 (stem p)) l1_start) (number_dir ps))"

definition l1_start :: "compact_io \<Rightarrow> sstable list \<Rightarrow> nat option" where
  "l1_start io ts = map_option nat (Option.bind (number_open (l1_paths ts) 0) (number_dir (dir_names io)))"

section \<open>Merging\<close>

record merge_state =
  ms_buffer :: "entry list"
  ms_counter :: nat
  ms_staged :: "(path \<times> path) list"
  ms_ops :: "fs_op list"

definition flushBuffer :: "(nat \<Rightarrow> nat) \<Rightarrow> compact_io \<Rightarrow> path \<Rightarrow> merge_state \<Rightarrow> (merge_state \<times> sst_error option) option" where
  "flushBuffer fp io d ms =
     (if ms_buffer ms = [] then Some (ms, None)
      else if ms_counter ms \<ge> int_max then None
      else
        (let final_path = makeSSTPath d 1 (ms_counter ms);
             tmp = final_path @ ''.tmp'';
             ms = ms\<lparr>ms_counter := ms_counter ms + 1\<rparr>;
             (ops, err) = sst_write fp (write_of io (length (ms_staged ms))) tmp (ms_buffer ms)
         in case err of
              Some e \<Rightarrow> Some (ms\<lparr>ms_ops := ms_ops ms @ ops\<rparr>, Some e)
            | None \<Rightarrow> Some (ms\<lparr>ms_ops := ms_ops ms @ ops @ fsyncFile io tmp,
                             ms_staged := ms_staged ms @ [(tmp, final_path)], ms_buffer := []\<rparr>, None)))"

definition stream_entry :: "(nat \<Rightarrow> nat) \<Rightarrow> compact_io \<Rightarrow> path \<Rightarrow> entry \<Rightarrow> merge_state \<Rightarrow> (merge_state \<times> sst_error option) option" where
  "stream_entry fp io d winner ms =
     (if snd winner = None then Some (ms, None)
      else
        (let ms = ms\<lparr>ms_buffer := ms_buffer ms @ [winner]\<rparr> in
         if length (ms_buffer ms) \<ge> l1_max_file_entries then flushBuffer fp io d ms else Some (ms, None)))"

text \<open>\<open>HeapNode::operator>\<close>: of equal keys the node of the higher index is on top.\<close>

definition compact_prio :: "nat \<Rightarrow> int" where
  "compact_prio i = - int i"

text \<open>\<open>if (iterators[i]->hasNext()) ... iterators[i]->next()\<close>\<close>

definition iter_adv :: "sst_iter list adv_fn" where
  "iter_adv i its =
     (if i < length its
      then (case it_next (its ! i) of
              None \<Rightarrow> Some (None, its)
            | Some (e, it) \<Rightarrow> Some (Some e, its[i := it]))
      else None)"

partial_function (option) compact_loop :: "(nat \<Rightarrow> nat) \<Rightarrow> compact_io \<Rightarrow> path \<Rightarrow> heap_node list \<Rightarrow> sst_iter list \<Rightarrow> merge_state
    \<Rightarrow> (merge_state \<times> sst_error option) option" where
  "compact_loop fp io d heap its ms =
     (if heap = [] then flushBuffer fp io d ms
      else
        (let winner = pq_top compact_prio heap in
         case refill iter_adv (snd winner) (pq_pop compact_prio heap) its of
           None \<Rightarrow> None
         | Some (heap, its) \<Rightarrow>
             (case pop_dups iter_adv compact_prio (fst (fst winner)) heap its of
                None \<Rightarrow> None
              | Some (heap, its) \<Rightarrow>
                  (case stream_entry fp io d (fst winner) ms of
                     None \<Rightarrow> None
                   | Some (ms, Some e) \<Rightarrow> Some (ms, Some e)
                   | Some (ms, None) \<Rightarrow> compact_loop fp io d heap its ms))))"

text \<open>Phase 1 with its handler: the operations, what is staged, and the exception.\<close>

definition merge_phase :: "(nat \<Rightarrow> nat) \<Rightarrow> compact_io \<Rightarrow> path \<Rightarrow> fs \<Rightarrow> sstable list \<Rightarrow> nat
    \<Rightarrow> (fs_op list \<times> (path \<times> path) list \<times> compact_error option) option" where
  "merge_phase fp io d fs ts start =
     (let its = map (createIterator fs) ts;
          ms = \<lparr>ms_buffer = [], ms_counter = start, ms_staged = [], ms_ops = []\<rparr>;
          caught = (\<lambda>ms e. (ms_ops ms @ map Remove (filter (cleanup_ok io) (map fst (ms_staged ms))), ms_staged ms, Some e))
      in case fill_heap iter_adv [0..<length ts] [] its of
           None \<Rightarrow> None
         | Some (heap, its) \<Rightarrow>
             (case compact_loop fp io d heap its ms of
                None \<Rightarrow> None
              | Some (ms, Some e) \<Rightarrow> Some (caught ms (TableError e))
              | Some (ms, None) \<Rightarrow>
                  if injected io ''compact.after_merge'' 0 then Some (caught ms (Injected ''compact.after_merge''))
                  else Some (ms_ops ms, ms_staged ms, None)))"

section \<open>Publishing and removing\<close>

fun publish :: "compact_io \<Rightarrow> nat \<Rightarrow> (path \<times> path) list \<Rightarrow> fs_op list \<times> nat \<times> compact_error option" where
  "publish io published [] = ([], published, None)"
| "publish io published ((tmp, fin) # staged) =
     (if \<not> rename_ok io published then ([], published, Some RenameFailed)
      else if injected io ''compact.mid_publish'' published
      then ([Rename tmp fin], published + 1, Some (Injected ''compact.mid_publish''))
      else (case publish io (published + 1) staged of (ops, n, e) \<Rightarrow> (Rename tmp fin # ops, n, e)))"

fun open_fresh :: "compact_io \<Rightarrow> fs \<Rightarrow> nat \<Rightarrow> (path \<times> path) list \<Rightarrow> sstable list \<times> sst_error option" where
  "open_fresh io fs k [] = ([], None)"
| "open_fresh io fs k ((tmp, fin) # staged) =
     (case sst_open (fst (open_ok io k)) (snd (open_ok io k)) fs fin of
        Inl e \<Rightarrow> ([], Some e)
      | Inr t \<Rightarrow> (case open_fresh io fs (k + 1) staged of (ts, e) \<Rightarrow> (t # ts, e)))"

definition undo :: "compact_io \<Rightarrow> nat \<Rightarrow> (path \<times> path) list \<Rightarrow> fs_op list" where
  "undo io published staged =
     map Remove (filter (cleanup_ok io) (map snd (take published staged) @ map fst (drop published staged)))"

text \<open>Phase 2 with its handler: operations, the fresh tables or the exception, and the tables closed again.\<close>

definition publish_phase :: "compact_io \<Rightarrow> path \<Rightarrow> fs \<Rightarrow> (path \<times> path) list
    \<Rightarrow> fs_op list \<times> (compact_error + sstable list) \<times> sstable list" where
  "publish_phase io d fs staged =
     (case publish io 0 staged of
        (ops, published, Some e) \<Rightarrow> (ops @ undo io published staged, Inl e, [])
      | (ops, published, None) \<Rightarrow>
          (let ops = ops @ fsyncDir io d in
           case open_fresh io (run_ops ops fs) 0 staged of
             (fresh, Some e) \<Rightarrow> (ops @ undo io published staged, Inl (TableError e), fresh)
           | (fresh, None) \<Rightarrow>
               if injected io ''compact.after_publish'' 0
               then (ops @ undo io published staged, Inl (Injected ''compact.after_publish''), fresh)
               else (ops, Inr fresh, [])))"

definition remove_inputs :: "compact_io \<Rightarrow> path \<Rightarrow> sstable list \<Rightarrow> fs_op list" where
  "remove_inputs io d ts = map Remove (filter (remove_ok io) (map sst_path ts)) @ fsyncDir io d"

type_synonym compact_result = "fs_op list \<times> (compact_error + (sstable list \<times> nat)) \<times> block_cache"

definition compact_run :: "(nat \<Rightarrow> nat) \<Rightarrow> compact_io \<Rightarrow> path \<Rightarrow> fs \<Rightarrow> sstable list \<Rightarrow> nat \<Rightarrow> block_cache \<Rightarrow> compact_result option" where
  "compact_run fp io d fs ts sst_counter c =
     (if length (l0_paths ts) < l0_threshold then Some ([], Inr (ts, sst_counter), c)
      else
        (case l1_start io ts of
           None \<Rightarrow> None
         | Some start \<Rightarrow>
             (let ops0 = sweep io in
              case merge_phase fp io d (run_ops ops0 fs) ts start of
                None \<Rightarrow> None
              | Some (ops1, staged, Some e) \<Rightarrow> Some (ops0 @ ops1, Inl e, c)
              | Some (ops1, staged, None) \<Rightarrow>
                  (case publish_phase io d (run_ops (ops0 @ ops1) fs) staged of
                     (ops2, Inl e, closed) \<Rightarrow> Some (ops0 @ ops1 @ ops2, Inl e, fold sst_destroy closed c)
                   | (ops2, Inr fresh, closed) \<Rightarrow>
                       Some (ops0 @ ops1 @ ops2 @ remove_inputs io d ts, Inr (fresh, 0), fold sst_destroy ts c)))))"

section \<open>The merge loop delivers the merge in chunks\<close>

definition iters_ok :: "nat \<Rightarrow> sst_iter list \<Rightarrow> bool" where
  "iters_ok n its \<longleftrightarrow> length its = n \<and> (\<forall>i < n. \<exists>es. iter_at (its ! i) es \<and> (\<forall>e \<in> set es. entry_ok e))"

interpretation iters: merge_source iter_adv "\<lambda>its i. it_entries (its ! i)" iters_ok
proof (unfold_locales, goal_cases)
  case (1 n its i)
  then obtain es where es: "iter_at (its ! i) es" "\<forall>e \<in> set es. entry_ok e" by (auto simp: iters_ok_def)
  with 1(3) have "es = []" by (simp add: it_entries_at)
  then have "it_next (its ! i) = None" using es by (simp add: iter_at_def it_next_def)
  then show ?case using 1 by (simp add: iter_adv_def iters_ok_def)
next
  case (2 n its i e es)
  then obtain es' where es': "iter_at (its ! i) es'" "\<forall>e \<in> set es'. entry_ok e" by (auto simp: iters_ok_def)
  with 2(3) have eq: "es' = e # es" by (simp add: it_entries_at)
  then obtain it where it: "it_next (its ! i) = Some (e, it)" "iter_at it es"
    using it_next_at [of "its ! i" e es] es' by auto
  have ok: "\<forall>x \<in> set es. entry_ok x" using es'(2) eq by simp
  have "iters_ok n (its[i := it])"
    unfolding iters_ok_def
  proof (intro conjI allI impI)
    show "length (its[i := it]) = n" using 2(1) by (simp add: iters_ok_def)
    show "\<exists>es. iter_at (its[i := it] ! j) es \<and> (\<forall>e \<in> set es. entry_ok e)" if "j < n" for j
      using 2(1,2) it(2) ok that by (cases "j = i") (auto simp: iters_ok_def)
  qed
  moreover have "(\<lambda>j. it_entries (its[i := it] ! j)) = (\<lambda>j. it_entries (its ! j))(i := es)"
    using 2 it_entries_at [OF it(2) ok] by (auto simp: iters_ok_def fun_eq_iff)
  ultimately show ?case using 2 it(1) by (auto simp: iter_adv_def iters_ok_def)
qed

function chunks :: "nat \<Rightarrow> 'a list \<Rightarrow> 'a list list" where
  "chunks n xs = (if xs = [] \<or> n = 0 then [] else take n xs # chunks n (drop n xs))"
  by pat_completeness auto
termination
  by (relation "measure (\<lambda>(_, xs). length xs)") auto

declare chunks.simps [simp del]

lemma concat_chunks: "0 < n \<Longrightarrow> concat (chunks n xs) = xs"
  by (induction n xs rule: chunks.induct) (subst chunks.simps, auto)

lemma chunks_size: "b \<in> set (chunks n xs) \<Longrightarrow> b \<noteq> [] \<and> length b \<le> n"
proof (induction n xs rule: chunks.induct)
  case (1 n xs)
  show ?case
  proof (cases "xs = [] \<or> n = 0")
    case True
    then show ?thesis using 1(2) by (simp add: chunks.simps)
  next
    case False
    then have "chunks n xs = take n xs # chunks n (drop n xs)" by (subst chunks.simps) simp
    then show ?thesis using 1 False by auto
  qed
qed

definition live_entries :: "entry list \<Rightarrow> entry list" where
  "live_entries es = filter (\<lambda>e. snd e \<noteq> None) es"

fun stage_all :: "(nat \<Rightarrow> nat) \<Rightarrow> compact_io \<Rightarrow> path \<Rightarrow> entry list list \<Rightarrow> merge_state \<Rightarrow> (merge_state \<times> sst_error option) option" where
  "stage_all fp io d [] ms = Some (ms, None)"
| "stage_all fp io d (b # bs) ms =
     (case flushBuffer fp io d (ms\<lparr>ms_buffer := b\<rparr>) of
        None \<Rightarrow> None
      | Some (ms, Some e) \<Rightarrow> Some (ms, Some e)
      | Some (ms, None) \<Rightarrow> stage_all fp io d bs ms)"

lemma flushBuffer_clears: "flushBuffer fp io d ms = Some (ms', None) \<Longrightarrow> ms_buffer ms' = []"
  by (auto simp: flushBuffer_def Let_def split: if_split_asm prod.splits option.splits)

text \<open>Streaming a list of winners and the final flush.\<close>

fun stream_all :: "(nat \<Rightarrow> nat) \<Rightarrow> compact_io \<Rightarrow> path \<Rightarrow> entry list \<Rightarrow> merge_state \<Rightarrow> (merge_state \<times> sst_error option) option" where
  "stream_all fp io d [] ms = flushBuffer fp io d ms"
| "stream_all fp io d (e # es) ms =
     (case stream_entry fp io d e ms of
        None \<Rightarrow> None
      | Some (ms, Some e) \<Rightarrow> Some (ms, Some e)
      | Some (ms, None) \<Rightarrow> stream_all fp io d es ms)"

lemma stream_all_chunks:
  assumes "length (ms_buffer ms) < l1_max_file_entries"
  shows "stream_all fp io d es ms = stage_all fp io d (chunks l1_max_file_entries (ms_buffer ms @ live_entries es)) ms"
  using assms
proof (induction es arbitrary: ms)
  case Nil
  show ?case
  proof (cases "ms_buffer ms = []")
    case True
    then show ?thesis by (simp add: live_entries_def chunks.simps flushBuffer_def)
  next
    case False
    have "ms\<lparr>ms_buffer := ms_buffer ms\<rparr> = ms" by simp
    then show ?thesis using False Nil
      by (subst chunks.simps) (simp add: live_entries_def l1_max_file_entries_def chunks.simps split: option.splits prod.splits)
  qed
next
  case (Cons e es)
  show ?case
  proof (cases "snd e = None")
    case True
    then show ?thesis using Cons by (simp add: stream_entry_def live_entries_def)
  next
    case live: False
    let ?b = "ms_buffer ms @ [e]"
    have buf: "ms_buffer ms @ live_entries (e # es) = ?b @ live_entries es" using live by (simp add: live_entries_def)
    show ?thesis
    proof (cases "length ?b < l1_max_file_entries")
      case True
      then have "stream_entry fp io d e ms = Some (ms\<lparr>ms_buffer := ?b\<rparr>, None)" using live by (simp only: stream_entry_def Let_def if_False) simp
      moreover have "stage_all fp io d bs (ms\<lparr>ms_buffer := ?b\<rparr>) = stage_all fp io d bs ms" if "bs \<noteq> []" for bs
        using that by (cases bs) simp_all
      moreover have "chunks l1_max_file_entries (?b @ live_entries es) \<noteq> []"
        by (subst chunks.simps) (simp add: l1_max_file_entries_def)
      ultimately show ?thesis using Cons.IH [of "ms\<lparr>ms_buffer := ?b\<rparr>"] True by (simp add: buf del: append_assoc)
    next
      case False
      then have len: "length ?b = l1_max_file_entries" using Cons.prems by simp
      have "chunks l1_max_file_entries (?b @ live_entries es) = ?b # chunks l1_max_file_entries (live_entries es)"
        using len by (subst chunks.simps) (simp add: l1_max_file_entries_def)
      moreover have "stream_entry fp io d e ms = flushBuffer fp io d (ms\<lparr>ms_buffer := ?b\<rparr>)"
        using live len by (simp only: stream_entry_def Let_def if_False) simp
      moreover have "stream_all fp io d es ms' = stage_all fp io d (chunks l1_max_file_entries (live_entries es)) ms'"
        if "flushBuffer fp io d (ms\<lparr>ms_buffer := ?b\<rparr>) = Some (ms', None)" for ms'
        using Cons.IH [of ms'] flushBuffer_clears [OF that] by (simp add: l1_max_file_entries_def)
      ultimately show ?thesis by (simp add: buf del: append_assoc split: option.splits prod.splits)
    qed
  qed
qed

lemma compact_loop_streams:
  assumes "heap_holds (\<lambda>its i. it_entries (its ! i)) {..<length L} heap its L" "iters_ok (length L) its" "all_sorted L"
  shows "compact_loop fp io d heap its ms = stream_all fp io d (merged compact_prio L) ms"
  using assms
proof (induction "total L" arbitrary: L heap its ms rule: less_induct)
  case less
  have inj: "inj compact_prio" by (simp add: inj_def compact_prio_def)
  note top = iters.top_winner(1) [OF less.prems(1) inj]
  show ?case
  proof (cases "heap = []")
    case True
    then have "merged compact_prio L = []" using top by (subst merged.simps) simp
    then show ?thesis using True by (subst compact_loop.simps) simp
  next
    case False
    let ?L = "map (drop_key (min_key L)) L"
    obtain heap1 its1 heap' its' where r:
        "refill iter_adv (snd (pq_top compact_prio heap)) (pq_pop compact_prio heap) its = Some (heap1, its1)"
        "pop_dups iter_adv compact_prio (fst (fst (pq_top compact_prio heap))) heap1 its1 = Some (heap', its')"
        "iters_ok (length L) its'" "heap_holds (\<lambda>its i. it_entries (its ! i)) {..<length L} heap' its' ?L"
        "merged compact_prio L = fst (pq_top compact_prio heap) # merged compact_prio ?L"
      using iters.compact_round [OF less.prems inj False] by blast
    have "total ?L < total L" using top False by (intro total_drop_key) simp
    then have IH: "compact_loop fp io d heap' its' ms' = stream_all fp io d (merged compact_prio ?L) ms'" for ms'
      using r(3,4) all_sorted_drop_key [OF less.prems(3)] by (intro less.hyps) simp_all
    show ?thesis using False r(1,2) by (subst compact_loop.simps) (simp add: r(5) IH split: option.splits prod.splits)
  qed
qed

section \<open>Numbering\<close>

lemma past_bounds: "past s a = Some b \<Longrightarrow> a \<le> b \<and> (stoi s = Some v \<longrightarrow> v < b)"
  by (auto simp: past_def split: option.splits if_split_asm)

lemma number_open_mono: "number_open ps a = Some b \<Longrightarrow> a \<le> b"
proof (induction ps arbitrary: a)
  case (Cons p ps)
  then show ?case by (auto split: if_split_asm simp: bind_eq_Some_conv dest!: past_bounds intro: order_trans)
qed simp

lemma number_dir_mono: "number_dir ps a = Some b \<Longrightarrow> a \<le> b"
proof (induction ps arbitrary: a)
  case (Cons p ps)
  then show ?case by (auto split: if_split_asm simp: bind_eq_Some_conv dest!: past_bounds intro: order_trans)
qed simp

lemma number_dir_past:
  assumes "number_dir ps a = Some b" "p \<in> set ps" "extension p = ''.sst''" "prefix ''sst-1-'' (stem p)"
    and "stoi (drop 6 (stem p)) = Some v"
  shows "v < b"
  using assms
proof (induction ps arbitrary: a)
  case (Cons q ps)
  show ?case
  proof (cases "q = p")
    case True
    then obtain a' where "past (drop 6 (stem p)) a = Some a'" "number_dir ps a' = Some b"
      using Cons.prems by (auto simp: bind_eq_Some_conv)
    then show ?thesis using past_bounds [of _ a a' v] number_dir_mono [of ps a' b] Cons.prems(5) by fastforce
  next
    case False
    then show ?thesis using Cons by (auto split: if_split_asm simp: bind_eq_Some_conv)
  qed
qed simp

lemma makeSSTPath_sstPath [simp]: "makeSSTPath d l c = sstPath d l c"
  by (simp add: makeSSTPath_def sstPath_def)

lemma show_nat_digit [simp]: "show_nat (Suc 0) = ''1''" "show_nat 0 = ''0''"
  by (simp_all add: show_nat.simps digit_def char_of_def bit_0)


lemma l1_start_past:
  assumes start: "l1_start io ts = Some n" and p: "sstPath d 1 c \<in> set (dir_names io)" and c: "c \<le> int_max"
  shows "c < n"
proof -
  obtain a b where ab: "number_open (l1_paths ts) 0 = Some a" "number_dir (dir_names io) a = Some b" "n = nat b"
    using start by (auto simp: l1_start_def bind_eq_Some_conv)
  have "stoi (drop 6 (stem (sstPath d 1 c))) = Some (int c)"
    using c show_padded_digits [of c] unfolding stoi_def
    by (simp add: sst_path_parts strto_digits digits_val_padded)
  moreover have "prefix ''sst-1-'' (stem (sstPath d 1 c))" by (simp add: sst_path_parts)
  ultimately have "int c < b" using number_dir_past [OF ab(2) p sst_path_parts(1)] by blast
  then show ?thesis using ab(3) by simp
qed

section \<open>Staging\<close>

text \<open>The temporaries of outputs numbered from \<open>c\<close>: the output's and the one \<open>SSTable::write\<close> uses for it.\<close>

abbreviation out_tmp :: "path \<Rightarrow> nat \<Rightarrow> path" where
  "out_tmp d c \<equiv> sstPath d 1 c @ ''.tmp''"

definition stage_paths :: "path \<Rightarrow> nat \<Rightarrow> path set" where
  "stage_paths d c = {p. \<exists>c'. c \<le> c' \<and> c' < int_max \<and> (p = out_tmp d c' \<or> p = tmp_path (out_tmp d c'))}"

definition out_names :: "path \<Rightarrow> nat \<Rightarrow> nat \<Rightarrow> (path \<times> path) list" where
  "out_names d c n = map (\<lambda>i. (out_tmp d (c + i), sstPath d 1 (c + i))) [0..<n]"

definition writable :: "entry list \<Rightarrow> bool" where
  "writable b \<longleftrightarrow> b \<noteq> [] \<and> ssorted b \<and> (\<forall>e \<in> set b. entry_ok e) \<and> length b \<le> l1_max_file_entries"

lemma out_names_Suc: "out_names d c (Suc n) = (out_tmp d c, sstPath d 1 c) # out_names d (Suc c) n"
  unfolding out_names_def upt_conv_Cons [OF zero_less_Suc] map_Suc_upt [symmetric] by simp

lemma filename_tmp: "filename (sstPath d l c @ ''.tmp'') \<noteq> []"
  by (simp add: filename_def)

lemma stage_invisible: "p \<in> stage_paths d c \<Longrightarrow> parse_sst p = None"
  using parse_tmp [OF filename_tmp, of d 1] parse_tmp [of "sstPath d 1 _"]
  by (auto simp: stage_paths_def tmp_path_def sst_name_def simp del: append_assoc)

lemma stage_paths_fresh: "c < int_max \<Longrightarrow> out_tmp d c \<notin> stage_paths d (Suc c)"
proof
  assume c: "c < int_max" and "out_tmp d c \<in> stage_paths d (Suc c)"
  then obtain c' where c': "c < c'" "c' < int_max" "sstPath d 1 c = sstPath d 1 c' \<or> sstPath d 1 c = sstPath d 1 c' @ ''.tmp''"
    by (auto simp: stage_paths_def tmp_path_def Suc_le_eq)
  moreover have "sstPath d 1 c \<noteq> sstPath d 1 c'" using c c' by (simp add: sstPath_inject)
  moreover have "parse_sst (sstPath d 1 c) \<noteq> None" using c by (simp add: parse_sstPath)
  moreover have "parse_sst (sstPath d 1 c' @ ''.tmp'') = None" by (rule parse_tmp) (simp add: sst_name_def)
  ultimately show False by metis
qed

lemma stage_paths_mono: "stage_paths d (Suc c) \<subseteq> stage_paths d c"
  unfolding stage_paths_def using Suc_leD by blast

lemma flush_spec:
  assumes w: "writable b" and c: "ms_counter ms < int_max"
    and t_def: "t = out_tmp d (ms_counter ms)"
  obtains ms' ops err where "flushBuffer fp io d (ms\<lparr>ms_buffer := b\<rparr>) = Some (ms', err)" "ms_ops ms' = ms_ops ms @ ops"
    "\<forall>x \<in> set ops. op_paths x \<subseteq> stage_paths d (ms_counter ms)" "ms_counter ms' = ms_counter ms + 1"
    "ms_staged ms' = (if err = None then ms_staged ms @ [(t, sstPath d 1 (ms_counter ms))] else ms_staged ms)"
    "err = None \<longrightarrow> (\<forall>fs. run_ops ops fs t = Some (table_bytes fp b))"
proof -
  have b: "b \<noteq> []" using w by (simp add: writable_def)
  obtain ops err where s: "sst_write fp (write_of io (length (ms_staged ms))) t b = (ops, err)" by fastforce
  have in_stage: "{tmp_path t, t} \<subseteq> stage_paths d (ms_counter ms)" using c by (auto simp: stage_paths_def t_def)
  have sub: "\<forall>x \<in> set ops. op_paths x \<subseteq> stage_paths d (ms_counter ms)"
    using s in_stage
  proof (cases rule: sst_write_cases)
    case (published bs)
    then show ?thesis using in_stage fsyncParentDir_quiet by auto
  qed auto
  show thesis
  proof (cases err)
    case (Some e)
    show thesis
      by (rule that [of "ms\<lparr>ms_buffer := b, ms_counter := ms_counter ms + 1, ms_ops := ms_ops ms @ ops\<rparr>" err ops])
         (use b c s sub Some in \<open>simp_all add: flushBuffer_def Let_def t_def\<close>)
  next
    case None
    have "render_table fp b = (table_bytes fp b, None)"
      using w by (intro render_table_ok) (auto simp: writable_def l1_max_file_entries_def)
    then have run: "run_ops ops fs t = Some (table_bytes fp b)" for fs
      using sst_write_success_ops(2) [of fp _ t b ops fs] s None by auto
    let ?ops = "ops @ fsyncFile io t"
    show thesis
    proof (rule that [of "ms\<lparr>ms_counter := ms_counter ms + 1, ms_ops := ms_ops ms @ ?ops,
        ms_staged := ms_staged ms @ [(t, sstPath d 1 (ms_counter ms))], ms_buffer := []\<rparr>" err ?ops])
      show "\<forall>x \<in> set ?ops. op_paths x \<subseteq> stage_paths d (ms_counter ms)" using sub by (auto simp: fsyncFile_def)
      show "err = None \<longrightarrow> (\<forall>fs. run_ops ?ops fs t = Some (table_bytes fp b))" using run by (simp add: fsyncFile_def)
    qed (use b c s None in \<open>simp_all add: flushBuffer_def Let_def t_def\<close>)
  qed
qed

lemma stage_spec:
  assumes "\<forall>b \<in> set bs. writable b" "ms_counter ms + length bs \<le> int_max"
  shows "\<exists>ms' err ops j. stage_all fp io d bs ms = Some (ms', err) \<and> ms_ops ms' = ms_ops ms @ ops
    \<and> (\<forall>x \<in> set ops. op_paths x \<subseteq> stage_paths d (ms_counter ms))
    \<and> j \<le> length bs \<and> ms_staged ms' = ms_staged ms @ out_names d (ms_counter ms) j
    \<and> (err = None \<longrightarrow> j = length bs
         \<and> (\<forall>fs. \<forall>i < length bs. run_ops ops fs (out_tmp d (ms_counter ms + i)) = Some (table_bytes fp (bs ! i))))"
  using assms
proof (induction bs arbitrary: ms)
  case Nil
  then show ?case by (simp add: out_names_def exI [of _ "0 :: nat"])
next
  case (Cons b bs)
  let ?ms = "ms\<lparr>ms_buffer := b\<rparr>" and ?c = "ms_counter ms"
  have w: "writable b" "?c < int_max" using Cons.prems by auto
  obtain ms1 ops1 err1 where f: "flushBuffer fp io d ?ms = Some (ms1, err1)" "ms_ops ms1 = ms_ops ms @ ops1"
      "\<forall>x \<in> set ops1. op_paths x \<subseteq> stage_paths d ?c" "ms_counter ms1 = ?c + 1"
      "ms_staged ms1 = (if err1 = None then ms_staged ms @ [(out_tmp d ?c, sstPath d 1 ?c)] else ms_staged ms)"
      "err1 = None \<longrightarrow> (\<forall>fs. run_ops ops1 fs (out_tmp d ?c) = Some (table_bytes fp b))"
    by (rule flush_spec [OF w refl, where fp = fp and io = io and d = d]) blast
  show ?case
  proof (cases err1)
    case (Some e)
    then show ?thesis using f by (auto simp: out_names_def intro!: exI [of _ ms1] exI [of _ ops1] exI [of _ "0 :: nat"])
  next
    case None
    obtain ms' err ops j where IH: "stage_all fp io d bs ms1 = Some (ms', err)" "ms_ops ms' = ms_ops ms1 @ ops"
        "\<forall>x \<in> set ops. op_paths x \<subseteq> stage_paths d (Suc ?c)"
        "j \<le> length bs" "ms_staged ms' = ms_staged ms1 @ out_names d (Suc ?c) j"
        "err = None \<longrightarrow> j = length bs
           \<and> (\<forall>fs. \<forall>i < length bs. run_ops ops fs (out_tmp d (Suc ?c + i)) = Some (table_bytes fp (bs ! i)))"
      using Cons.IH [of ms1] Cons.prems f(4) by auto
    have "out_tmp d ?c \<notin> stage_paths d (Suc ?c)" using w(2) by (rule stage_paths_fresh)
    then have frame: "run_ops ops fs (out_tmp d ?c) = fs (out_tmp d ?c)" for fs
      using IH(3) by (intro run_ops_other) auto
    have files: "run_ops (ops1 @ ops) fs (out_tmp d (?c + i)) = Some (table_bytes fp ((b # bs) ! i))"
      if "err = None" "i < length (b # bs)" for fs i
      using that frame f(6) None IH(6) by (cases i) auto
    have "stage_all fp io d (b # bs) ms = Some (ms', err)" using f(1) None IH(1) by simp
    moreover have "ms_ops ms' = ms_ops ms @ (ops1 @ ops)" using f(2) IH(2) by simp
    moreover have "\<forall>x \<in> set (ops1 @ ops). op_paths x \<subseteq> stage_paths d ?c" using f(3) IH(3) stage_paths_mono [of d ?c] by auto
    moreover have "Suc j \<le> length (b # bs)" using IH(4) by simp
    moreover have "ms_staged ms' = ms_staged ms @ out_names d ?c (Suc j)" using f(5) None IH(5) by (simp add: out_names_Suc)
    moreover have "err = None \<longrightarrow> Suc j = length (b # bs)
         \<and> (\<forall>fs. \<forall>i < length (b # bs). run_ops (ops1 @ ops) fs (out_tmp d (?c + i)) = Some (table_bytes fp ((b # bs) ! i)))"
      using files IH(6) by auto
    ultimately show ?thesis by blast
  qed
qed

end
