(* ===== verification/CompactorSafety.thy ===== *)
theory CompactorSafety
  imports Compactor
begin

text \<open>
  What a compaction does to the directory. A run merges the tables of a store and replaces them by the
  chunks of their live entries; at every moment, whatever fails and wherever a crash cuts it, the
  directory is a store that gives every key the value it had.
\<close>

section \<open>Sizes\<close>

text \<open>The Bloom filter's sizing formula stays within reason (it asks for about ten bits per key).\<close>

definition fp_sane :: "(nat \<Rightarrow> nat) \<Rightarrow> bool" where
  "fp_sane fp \<longleftrightarrow> (\<forall>n. n \<le> 2 ^ 40 \<longrightarrow> fp n \<le> 2 ^ 60)"

lemma filter_size: "64 * num_blocks (table_bloom fp es) \<le> fp (max (length es) 1) + 128"
proof -
  have "num_blocks (fold bloom_insert ks bf) = num_blocks bf" for ks bf
    by (induction ks arbitrary: bf) (auto simp: bloom_insert_def Let_def case_prod_unfold)
  moreover have "64 * ((n + 511) div 512) \<le> n + 128" for n :: nat
    using div_times_less_eq_dividend [of "n + 511" 512] by linarith
  ultimately show ?thesis by (simp add: table_bloom_def mk_bloom_def Let_def)
qed

lemma index_bytes_le: "[] \<notin> set bs \<Longrightarrow> length (index_bytes (index_from off bs)) \<le> 4 * length (data_bytes (concat bs))"
proof (induction bs arbitrary: off)
  case (Cons b bs)
  then obtain e r where b: "b = e # r" by (cases b) auto
  have "length (string_bytes (fst (hd b))) + 8 \<le> 4 * length (data_bytes b)"
    using b by (simp add: data_bytes_def length_entry_bytes entry_size_def)
  then show ?case using Cons.IH [of "off + length (data_bytes b)"] Cons.prems by (auto simp: index_bytes_def data_bytes_def)
qed (simp add: index_bytes_def)

lemma table_size: "length (table_bytes fp es) \<le> 5 * length (data_bytes es) + fp (max (length es) 1) + 200"
  using filter_size [of fp es] index_bytes_le [OF blocks_of_nonempty, of 0 es]
  by (simp add: table_bytes_def Let_def bloom_bytes_def length_serialize table_index_def concat_blocks_of)

lemma data_size: "\<forall>e \<in> set es. entry_ok e \<Longrightarrow> length (data_bytes es) \<le> length es * 8589934599"
proof (induction es)
  case (Cons e es)
  then have "entry_size e \<le> 8589934599" by (auto simp: entry_ok_def entry_size_def split: option.splits)
  then show ?case using Cons by (simp add: data_bytes_def length_entry_bytes)
qed (simp add: data_bytes_def)

lemma writable_table_ok:
  assumes "writable b" "fp_sane fp"
  shows "table_ok fp b"
proof -
  have len: "length b \<le> 1000" using assms(1) by (simp add: writable_def l1_max_file_entries_def)
  then have "fp (max (length b) 1) \<le> 2 ^ 60" using assms(2) by (simp add: fp_sane_def)
  moreover have "length (data_bytes b) \<le> 8589934599000"
    using data_size [of b] assms(1) len by (simp add: writable_def)
  ultimately have "length (table_bytes fp b) < 2 ^ 63" using table_size [of fp b] by simp
  then show ?thesis using assms(1) len by (simp add: table_ok_def writable_def)
qed

section \<open>The outputs of a store\<close>

definition outputs :: "store \<Rightarrow> entry list list" where
  "outputs st = chunks l1_max_file_entries (live_entries (merged compact_prio (map snd st)))"

definition out_store :: "nat \<Rightarrow> entry list list \<Rightarrow> store" where
  "out_store c bs = map (\<lambda>i. ((1, c + i), bs ! i)) [0..<length bs]"

lemma store_sorted: "store_ok fp st \<Longrightarrow> all_sorted (map snd st)"
  by (auto simp: store_ok_def all_sorted_def table_ok_def)

lemma merged_store:
  assumes "store_ok fp st"
  shows "map_of (merged compact_prio (map snd st)) = look (map snd st)" "ssorted (merged compact_prio (map snd st))"
proof -
  have "compact_prio = (\<lambda>i. - int i)" by (simp add: compact_prio_def fun_eq_iff)
  then have "layered compact_prio = look" using layered_look by (intro ext) simp
  moreover have "inj compact_prio" by (simp add: inj_def compact_prio_def)
  ultimately show "map_of (merged compact_prio (map snd st)) = look (map snd st)" "ssorted (merged compact_prio (map snd st))"
    using merged_layered [OF store_sorted [OF assms], of compact_prio] by simp_all
qed

lemma map_of_live_entries:
  "distinct (keys es) \<Longrightarrow> map_of (live_entries es) k = (case map_of es k of Some (Some v) \<Rightarrow> Some (Some v) | _ \<Rightarrow> None)"
proof (induction es)
  case (Cons e es)
  then show ?case by (auto simp: live_entries_def map_of_eq_None_iff split: option.splits)
qed (simp add: live_entries_def)

lemma live_entries_sub: "set (live_entries es) \<subseteq> set es"
  by (auto simp: live_entries_def)

lemma merged_entry_ok:
  assumes "store_ok fp st" "e \<in> set (merged compact_prio (map snd st))"
  shows "entry_ok e"
proof -
  have "map_of (merged compact_prio (map snd st)) (fst e) = Some (snd e)"
    using merged_store(2) [OF assms(1)] assms(2) by (simp add: ssorted_distinct)
  then obtain i where "i < length st" "map_of (snd (st ! i)) (fst e) = Some (snd e)"
    using merged_store(1) [OF assms(1)] look_last_holder [of "map snd st" "fst e" "snd e"] by auto
  then have "e \<in> set (snd (st ! i))" "st ! i \<in> set st" by (auto dest!: map_of_SomeD)
  then show ?thesis using assms(1) by (auto simp: store_ok_def table_ok_def)
qed

lemma outputs_writable:
  assumes "store_ok fp st" "b \<in> set (outputs st)"
  shows "writable b"
proof -
  let ?es = "live_entries (merged compact_prio (map snd st))"
  have cat: "concat (outputs st) = ?es" unfolding outputs_def by (rule concat_chunks) (simp add: l1_max_file_entries_def)
  have sorted: "ssorted ?es" unfolding live_entries_def by (rule ssorted_filter [OF merged_store(2) [OF assms(1)]])
  obtain xs ys where "outputs st = xs @ b # ys" using assms(2) by (meson split_list)
  then have split: "?es = concat xs @ b @ concat ys" using cat by simp
  then have "ssorted b" using sorted by (simp add: sorted_wrt_append)
  moreover have "\<forall>e \<in> set b. entry_ok e"
    using split live_entries_sub [of "merged compact_prio (map snd st)"] merged_entry_ok [OF assms(1)] by auto
  moreover have "b \<noteq> [] \<and> length b \<le> l1_max_file_entries" using assms(2) chunks_size unfolding outputs_def by blast
  ultimately show ?thesis by (simp add: writable_def)
qed

lemma look_outputs:
  assumes "store_ok fp st"
  shows "look (outputs st) k = (case look (map snd st) k of Some (Some v) \<Rightarrow> Some (Some v) | _ \<Rightarrow> None)"
proof -
  let ?es = "live_entries (merged compact_prio (map snd st))"
  have cat: "concat (outputs st) = ?es" unfolding outputs_def by (rule concat_chunks) (simp add: l1_max_file_entries_def)
  have "ssorted ?es" unfolding live_entries_def by (rule ssorted_filter [OF merged_store(2) [OF assms]])
  then have "look (outputs st) = map_of ?es" using look_concat [of "outputs st"] cat by simp
  then show ?thesis using merged_store [OF assms] by (simp add: map_of_live_entries ssorted_distinct)
qed

lemma out_store_tables [simp]: "map snd (out_store c bs) = bs"
  by (simp add: out_store_def o_def map_nth)

lemma out_store_nth: "x \<in> set (out_store c bs) \<longleftrightarrow> (\<exists>i < length bs. x = ((1, c + i), bs ! i))"
  by (auto simp: out_store_def)

section \<open>Precedence\<close>

definition level :: "nat \<Rightarrow> store \<Rightarrow> store" where
  "level l st = filter (\<lambda>x. fst (fst x) = l) st"

lemma store_levels: "store_ok fp st \<Longrightarrow> st = level 1 st @ level 0 st"
proof (induction st)
  case (Cons x st)
  have ok: "store_ok fp st" using Cons.prems by (simp add: store_ok_def)
  have x: "fst (fst x) \<le> 1" "\<forall>y \<in> set st. load_key (fst x) < load_key (fst y)" using Cons.prems by (auto simp: store_ok_def)
  show ?case
  proof (cases "fst (fst x) = 1")
    case True
    then show ?thesis using Cons.IH [OF ok] by (simp add: level_def)
  next
    case False
    then have "fst (fst x) = 0" using x(1) by simp
    moreover from this have "fst (fst y) = 0" if "y \<in> set st" for y
      using x(2) that by (auto simp: load_key_def less_prod_def)
    then have "level 1 st = []" "level 0 st = st" by (auto simp: level_def filter_empty_conv)
    ultimately show ?thesis by (simp add: level_def)
  qed
qed (simp add: level_def)

definition with_outputs :: "nat \<Rightarrow> store \<Rightarrow> store" where
  "with_outputs c st = level 1 st @ out_store c (outputs st) @ level 0 st"

lemma with_outputs_ok:
  assumes ok: "store_ok fp st" and fp: "fp_sane fp" and c: "\<forall>x \<in> set st. fst (fst x) = 1 \<longrightarrow> snd (fst x) < c"
    and n: "c + length (outputs st) \<le> int_max"
  shows "store_ok fp (with_outputs c st)"
proof -
  have "store_ok fp (level 1 st @ level 0 st)" using ok store_levels [OF ok] by simp
  then have s: "sorted_wrt (<) (map (load_key \<circ> fst) (level 1 st))" "sorted_wrt (<) (map (load_key \<circ> fst) (level 0 st))"
    and t: "\<forall>x \<in> set (level 1 st @ level 0 st). fst (fst x) \<le> 1 \<and> snd (fst x) < int_max \<and> table_ok fp (snd x)"
    by (auto simp: store_ok_def sorted_wrt_append)
  have lv: "x \<in> set (level l st) \<Longrightarrow> fst (fst x) = l" for x l by (simp add: level_def)
  have "sorted_wrt (<) (map (load_key \<circ> fst) (out_store c bs))" for bs
    by (auto simp: out_store_def sorted_wrt_iff_nth_less load_key_def less_prod_def)
  moreover have "load_key (fst x) < load_key (fst y)" if "x \<in> set (level 1 st)" "y \<in> set (out_store c bs)" for x y bs
    using that c by (auto simp: out_store_nth load_key_def less_prod_def level_def)
  moreover have "load_key (fst x) < load_key (fst y)" if "x \<in> set (out_store c bs)" "y \<in> set (level 0 st)" for x y bs
    using that by (auto simp: out_store_nth load_key_def less_prod_def level_def)
  moreover have "load_key (fst x) < load_key (fst y)" if "x \<in> set (level 1 st)" "y \<in> set (level 0 st)" for x y
    using that by (auto simp: load_key_def less_prod_def level_def)
  ultimately have "sorted_wrt (<) (map (load_key \<circ> fst) (with_outputs c st))"
    using s by (auto simp: with_outputs_def sorted_wrt_append)
  moreover have "table_ok fp b" if "b \<in> set (outputs st)" for b
    using writable_table_ok [OF outputs_writable [OF ok that] fp] .
  then have "\<forall>x \<in> set (with_outputs c st). fst (fst x) \<le> 1 \<and> snd (fst x) < int_max \<and> table_ok fp (snd x)"
    using t n by (auto simp: with_outputs_def out_store_nth)
  ultimately show ?thesis by (simp add: store_ok_def)
qed

lemma store_ok_filter: "store_ok fp st \<Longrightarrow> store_ok fp (filter P st)"
  by (auto simp: store_ok_def sorted_wrt_filter sorted_wrt_map)

definition same_view :: "store \<Rightarrow> store \<Rightarrow> bool" where
  "same_view st st' \<longleftrightarrow> (\<forall>k. live (look (map snd st') k) = live (look (map snd st) k))"

lemma look_filter_out:
  assumes "store_ok fp st" "look (map snd (filter P (out_store c (outputs st)))) k = Some r"
  shows "look (map snd st) k = Some r \<and> r \<noteq> None"
proof -
  let ?O = "out_store c (outputs st)"
  obtain i where "i < length (filter P ?O)" "map_of (snd (filter P ?O ! i)) k = Some r"
    using look_last_holder [OF assms(2)] by auto
  then have "filter P ?O ! i \<in> set ?O" "(k, r) \<in> set (snd (filter P ?O ! i))"
    by (auto dest!: map_of_SomeD dest: nth_mem)
  then have "(k, r) \<in> set (concat (map snd ?O))" unfolding set_concat set_map by blast
  then have mem: "(k, r) \<in> set (concat (outputs st))" by simp
  have cat: "concat (outputs st) = live_entries (merged compact_prio (map snd st))"
    unfolding outputs_def by (rule concat_chunks) (simp add: l1_max_file_entries_def)
  then have "(k, r) \<in> set (merged compact_prio (map snd st))" "r \<noteq> None" using mem by (auto simp: live_entries_def)
  then show ?thesis using merged_store [OF assms(1)] by (metis map_of_is_SomeI ssorted_distinct)
qed

text \<open>Inputs and some of the outputs: the inputs of level 0 shadow the outputs, which agree with them and
  with the inputs of level 1 they shadow.\<close>

lemma view_publishing:
  assumes "store_ok fp st"
  shows "same_view st (level 1 st @ filter P (out_store c (outputs st)) @ level 0 st)"
  unfolding same_view_def
proof
  fix k
  let ?O = "filter P (out_store c (outputs st))"
  have M: "look (map snd st) = look (map snd (level 1 st)) ++ look (map snd (level 0 st))"
    by (subst store_levels [OF assms]) simp
  show "live (look (map snd (level 1 st @ ?O @ level 0 st)) k) = live (look (map snd st) k)"
    using look_filter_out [OF assms, of P c k] M by (cases "look (map snd (level 0 st)) k"; cases "look (map snd ?O) k") (auto simp: map_add_def)
qed

lemma live_removing:
  assumes "\<And>r. a' = Some r \<Longrightarrow> a = Some r" "\<And>r. b' = Some r \<Longrightarrow> b = Some r" "b' = b \<or> a' = None"
    and "out = (case (case b of None \<Rightarrow> a | Some r \<Rightarrow> Some r) of Some (Some v) \<Rightarrow> Some (Some v) | _ \<Rightarrow> None)"
  shows "live (case (case b' of None \<Rightarrow> out | Some r \<Rightarrow> Some r) of None \<Rightarrow> a' | Some r \<Rightarrow> Some r) = live (case b of None \<Rightarrow> a | Some r \<Rightarrow> Some r)"
  using assms by (cases a; cases b; cases a'; cases b') (auto split: option.splits)

text \<open>All outputs and a suffix of the inputs: inputs go oldest first, so a tombstone is never removed before
  the values it shadows.\<close>

lemma view_removing:
  assumes "store_ok fp st"
  shows "same_view st (drop i (level 1 st) @ out_store c (outputs st) @ drop (i - length (level 1 st)) (level 0 st))"
  unfolding same_view_def
proof
  fix k
  let ?O = "out_store c (outputs st)" and ?j = "i - length (level 1 st)"
  let ?A = "look (map snd (level 1 st))" and ?B = "look (map snd (level 0 st))"
  have M: "look (map snd st) = ?A ++ ?B" by (subst store_levels [OF assms]) simp
  have O: "look (map snd ?O) k = (case (?A ++ ?B) k of Some (Some v) \<Rightarrow> Some (Some v) | _ \<Rightarrow> None)"
    using look_outputs [OF assms, of k] M by simp
  have A: "look (map snd (drop i (level 1 st))) k = Some r \<Longrightarrow> ?A k = Some r" for r
    using look_drop [of i "map snd (level 1 st)" k r] by (simp add: drop_map)
  have B: "look (map snd (drop ?j (level 0 st))) k = Some r \<Longrightarrow> ?B k = Some r" for r
    using look_drop [of ?j "map snd (level 0 st)" k r] by (simp add: drop_map)
  have i: "look (map snd (drop ?j (level 0 st))) k = ?B k \<or> look (map snd (drop i (level 1 st))) k = None"
    by (cases "i \<le> length (level 1 st)") auto
  show "live (look (map snd (drop i (level 1 st) @ ?O @ drop ?j (level 0 st))) k) = live (look (map snd st) k)"
    unfolding M map_append look_append map_add_def by (rule live_removing [OF A B i O [unfolded map_add_def]])
qed

section \<open>Directory states during a run\<close>

definition plan :: "(nat \<Rightarrow> nat) \<Rightarrow> nat \<Rightarrow> store \<Rightarrow> bool" where
  "plan fp c st \<longleftrightarrow> store_ok fp st \<and> fp_sane fp \<and> (\<forall>x \<in> set st. fst (fst x) = 1 \<longrightarrow> snd (fst x) < c)
     \<and> c + length (outputs st) \<le> int_max"

lemma plan_ok: "plan fp c st \<Longrightarrow> store_ok fp (with_outputs c st)" "plan fp c st \<Longrightarrow> store_ok fp st"
  unfolding plan_def by (blast intro: with_outputs_ok)+

lemma set_with_outputs:
  assumes "store_ok fp st"
  shows "set (with_outputs c st) = set st \<union> set (out_store c (outputs st))"
proof -
  have "set st = set (level 1 st) \<union> set (level 0 st)" using store_levels [OF assms] by (metis set_append)
  then show ?thesis by (auto simp: with_outputs_def)
qed

text \<open>Only tables of \<open>S\<close> are visible in the directory.\<close>

definition only :: "path \<Rightarrow> fs \<Rightarrow> store \<Rightarrow> bool" where
  "only d f S \<longleftrightarrow> (\<forall>p. in_dir d p \<and> p \<in> dom f \<and> parse_sst p \<noteq> None \<longrightarrow> p \<in> store_path d ` set S)"

lemma onlyD: "only d f S \<Longrightarrow> in_dir d p \<Longrightarrow> f p \<noteq> None \<Longrightarrow> parse_sst p \<noteq> None \<Longrightarrow> p \<in> store_path d ` set S"
  unfolding only_def by blast

lemma only_mono:
  assumes "only d f S" "\<And>p. parse_sst p \<noteq> None \<Longrightarrow> g p \<noteq> None \<Longrightarrow> f p \<noteq> None"
  shows "only d g S"
  unfolding only_def using onlyD [OF assms(1)] assms(2) by blast

abbreviation shows_table :: "(nat \<Rightarrow> nat) \<Rightarrow> path \<Rightarrow> fs \<Rightarrow> (nat \<times> nat) \<times> entry list \<Rightarrow> bool" where
  "shows_table fp d f x \<equiv> f (store_path d x) = Some (table_bytes fp (snd x))"

lemma on_disk_present:
  assumes "store_ok fp S" "\<forall>x \<in> set S. f (store_path d x) = None \<or> shows_table fp d f x" "only d f S"
  shows "on_disk fp d f (filter (\<lambda>x. f (store_path d x) \<noteq> None) S)"
  using assms by (fastforce simp: on_disk_def only_def store_ok_filter)

text \<open>Publishing: the inputs are there, an output is absent or complete.\<close>

definition mid :: "(nat \<Rightarrow> nat) \<Rightarrow> path \<Rightarrow> nat \<Rightarrow> store \<Rightarrow> fs \<Rightarrow> bool" where
  "mid fp d c st f \<longleftrightarrow> (\<forall>x \<in> set st. shows_table fp d f x)
     \<and> (\<forall>x \<in> set (out_store c (outputs st)). f (store_path d x) = None \<or> shows_table fp d f x)
     \<and> only d f (with_outputs c st)"

lemma filter_mid:
  assumes "plan fp c st" "mid fp d c st f"
  shows "filter (\<lambda>x. f (store_path d x) \<noteq> None) (with_outputs c st)
    = level 1 st @ filter (\<lambda>x. f (store_path d x) \<noteq> None) (out_store c (outputs st)) @ level 0 st"
proof -
  have "\<forall>x \<in> set (level l st). f (store_path d x) \<noteq> None" for l
    using assms(2) by (auto simp: mid_def level_def)
  then show ?thesis by (simp add: with_outputs_def)
qed

lemma mid_on_disk:
  assumes "plan fp c st" "mid fp d c st f"
  shows "\<exists>st'. on_disk fp d f st' \<and> same_view st st'"
proof -
  have "on_disk fp d f (filter (\<lambda>x. f (store_path d x) \<noteq> None) (with_outputs c st))"
    using assms plan_ok [OF assms(1)]
    by (intro on_disk_present) (auto simp: mid_def set_with_outputs)
  then show ?thesis using view_publishing [OF plan_ok(2) [OF assms(1)]] unfolding filter_mid [OF assms] by blast
qed

lemma mid_unpublished:
  assumes "plan fp c st" "mid fp d c st f" "\<forall>x \<in> set (out_store c (outputs st)). f (store_path d x) = None"
  shows "on_disk fp d f st"
proof -
  have "on_disk fp d f (filter (\<lambda>x. f (store_path d x) \<noteq> None) (with_outputs c st))"
    using assms plan_ok [OF assms(1)]
    by (intro on_disk_present) (auto simp: mid_def set_with_outputs)
  moreover have "filter (\<lambda>x. f (store_path d x) \<noteq> None) (out_store c (outputs st)) = []"
    using assms(3) by (simp add: filter_empty_conv)
  ultimately show ?thesis
    using store_levels [OF plan_ok(2) [OF assms(1)]] unfolding filter_mid [OF assms(1,2)] by simp
qed

lemma on_disk_mid:
  assumes "plan fp c st" "on_disk fp d f st"
  shows "mid fp d c st f" "\<forall>x \<in> set (out_store c (outputs st)). f (store_path d x) = None"
proof -
  note ok = plan_ok [OF assms(1)]
  have new: "x \<notin> set st" if "x \<in> set (out_store c (outputs st))" for x
    using that assms(1) by (auto simp: plan_def out_store_nth)
  show none: "\<forall>x \<in> set (out_store c (outputs st)). f (store_path d x) = None"
  proof
    fix x assume x: "x \<in> set (out_store c (outputs st))"
    then have xw: "x \<in> set (with_outputs c st)" using set_with_outputs [OF ok(2)] by simp
    then have "parse_sst (store_path d x) \<noteq> None" using store_parse [OF ok(1)] by simp
    moreover have "store_path d x \<notin> store_path d ` set st"
      using store_path_inj [OF ok(1), of d] xw new [OF x] set_with_outputs [OF ok(2)] by (auto dest: inj_onD)
    ultimately show "f (store_path d x) = None" using onlyD [of d f st] assms(2) unfolding on_disk_def only_def [symmetric] by (meson in_dir_sst)
  qed
  then show "mid fp d c st f"
    using assms(2) by (auto simp: mid_def on_disk_def only_def set_with_outputs [OF ok(2)])
qed

text \<open>Operations that keep such a state: on invisible files, and removing outputs.\<close>

definition fins :: "path \<Rightarrow> nat \<Rightarrow> store \<Rightarrow> path set" where
  "fins d c st = store_path d ` set (out_store c (outputs st))"

lemma fins_not_inputs:
  assumes "plan fp c st" "x \<in> set st"
  shows "store_path d x \<notin> fins d c st"
proof
  note ok = plan_ok [OF assms(1)]
  assume "store_path d x \<in> fins d c st"
  then obtain y where y: "y \<in> set (out_store c (outputs st))" "store_path d x = store_path d y" by (auto simp: fins_def)
  then have "x = y" using store_path_inj [OF ok(1), of d] assms(2) set_with_outputs [OF ok(2), of c] by (auto dest: inj_onD)
  then show False using y(1) assms by (auto simp: plan_def out_store_nth)
qed

lemma only_parse: "store_ok fp S \<Longrightarrow> x \<in> set S \<Longrightarrow> parse_sst (store_path d x) \<noteq> None"
  by (simp add: store_parse)

lemma mid_upd:
  assumes "mid fp d c st f" "\<And>x. x \<in> set st \<Longrightarrow> g (store_path d x) = f (store_path d x)"
    and "\<And>x. x \<in> set (out_store c (outputs st)) \<Longrightarrow> g (store_path d x) = None \<or> g (store_path d x) = f (store_path d x)"
    and "\<And>p. parse_sst p \<noteq> None \<Longrightarrow> g p \<noteq> None \<Longrightarrow> f p \<noteq> None"
  shows "mid fp d c st g"
  unfolding mid_def
proof (intro conjI ballI)
  show "shows_table fp d g x" if "x \<in> set st" for x using assms(1) assms(2) [OF that] that unfolding mid_def by simp
  show "g (store_path d x) = None \<or> shows_table fp d g x" if "x \<in> set (out_store c (outputs st))" for x
    using assms(1) assms(3) [OF that] that unfolding mid_def by metis
  have "only d f (with_outputs c st)" using assms(1) unfolding mid_def by blast
  then show "only d g (with_outputs c st)" using assms(4) by (rule only_mono)
qed

lemma mid_quiet:
  assumes "plan fp c st" "mid fp d c st f" "\<And>p. parse_sst p \<noteq> None \<Longrightarrow> g p = f p"
  shows "mid fp d c st g"
proof -
  have "g (store_path d x) = f (store_path d x)" if "x \<in> set st \<union> set (out_store c (outputs st))" for x
    using that unfolding set_with_outputs [OF plan_ok(2) [OF assms(1)], symmetric]
    by (intro assms(3) only_parse [OF plan_ok(1) [OF assms(1)]])
  then show ?thesis by (intro mid_upd [OF assms(2)]) (simp_all add: assms(3))
qed

definition tidy :: "path \<Rightarrow> nat \<Rightarrow> store \<Rightarrow> fs_op \<Rightarrow> bool" where
  "tidy d c st x \<longleftrightarrow> (\<exists>p \<in> fins d c st. x = Remove p) \<or> (\<forall>p \<in> op_paths x. parse_sst p = None)"

lemma mid_tidy:
  assumes "plan fp c st" "mid fp d c st f" "\<forall>x \<in> set ops. tidy d c st x"
  shows "mid fp d c st (run_ops ops f)"
  using assms(2,3)
proof (induction ops arbitrary: f)
  case (Cons x ops)
  have "mid fp d c st (apply_op x f)"
  proof (cases "\<exists>p \<in> fins d c st. x = Remove p")
    case True
    then obtain p where p: "p \<in> fins d c st" "x = Remove p" by blast
    have "store_path d y \<noteq> p" if "y \<in> set st" for y using fins_not_inputs [OF assms(1) that, of d] p(1) by auto
    then show ?thesis using p(2) by (intro mid_upd [OF Cons.prems(1)]) (auto split: if_split_asm)
  next
    case False
    then have "\<forall>p \<in> op_paths x. parse_sst p = None" using Cons.prems(2) by (auto simp: tidy_def)
    then show ?thesis by (intro mid_quiet [OF assms(1) Cons.prems(1)] apply_op_other) auto
  qed
  then show ?case using Cons.IH Cons.prems(2) by simp
qed simp

lemma tidy_gone:
  assumes "\<forall>x \<in> set ops. tidy d c st x" "parse_sst p \<noteq> None" "f p = None \<or> Remove p \<in> set ops"
  shows "run_ops ops f p = None"
  using assms
proof (induction ops arbitrary: f)
  case (Cons x ops)
  have "apply_op x f p = None" if "f p = None"
  proof (cases "\<exists>q. x = Remove q")
    case False
    then have "p \<notin> op_paths x" using Cons.prems(1,2) by (auto simp: tidy_def)
    then show ?thesis using that by (simp add: apply_op_other)
  qed (use that in auto)
  then have "apply_op x f p = None \<or> Remove p \<in> set ops" using Cons.prems(3) by auto
  then show ?case using Cons.IH Cons.prems(1,2) by simp
qed simp

text \<open>Publishing the first \<open>m\<close> outputs.\<close>

definition rename_ops :: "(path \<times> path) list \<Rightarrow> fs_op list" where
  "rename_ops names = map (\<lambda>(t, f). Rename t f) names"

lemma renames_spec:
  assumes n: "c + n \<le> int_max" and tmp: "\<forall>i < n. f (out_tmp d (c + i)) = Some (T i)" and "m \<le> n"
  shows "(\<forall>i < m. run_ops (rename_ops (take m (out_names d c n))) f (sstPath d 1 (c + i)) = Some (T i))
    \<and> (\<forall>p. (\<forall>i < m. p \<noteq> sstPath d 1 (c + i) \<and> p \<noteq> out_tmp d (c + i)) \<longrightarrow> run_ops (rename_ops (take m (out_names d c n))) f p = f p)"
  using assms(3)
proof (induction m)
  case (Suc m)
  let ?g = "run_ops (rename_ops (take m (out_names d c n))) f"
  let ?t = "out_tmp d (c + m)" and ?f = "sstPath d 1 (c + m)"
  have m: "m < n" using Suc.prems by simp
  have IH: "\<forall>i < m. ?g (sstPath d 1 (c + i)) = Some (T i)"
      "\<forall>p. (\<forall>i < m. p \<noteq> sstPath d 1 (c + i) \<and> p \<noteq> out_tmp d (c + i)) \<longrightarrow> ?g p = f p"
    using Suc by auto
  have inj: "sstPath d 1 (c + i) = sstPath d 1 (c + j) \<longleftrightarrow> i = j" if "i < n" "j < n" for i j
    using that n by (simp add: sstPath_inject)
  have "parse_sst (sstPath d 1 (c + i)) \<noteq> None" if "i < n" for i using that n by (simp add: parse_sstPath)
  moreover have "parse_sst (out_tmp d (c + i)) = None" for i by (rule parse_tmp) (simp add: sst_name_def)
  ultimately have tf: "out_tmp d (c + j) \<noteq> sstPath d 1 (c + i)" if "i < n" for i j using that by metis
  have tt: "out_tmp d (c + i) = out_tmp d (c + j) \<longleftrightarrow> i = j" if "i < n" "j < n" for i j
    using inj [OF that] by (simp only: append_same_eq)
  have "?g ?t = f ?t" by (rule IH(2) [rule_format]) (use tf [of _ m] tt [of m] m in auto)
  then have t: "?g ?t = Some (T m)" using tmp m by simp
  have nth: "out_names d c n ! m = (?t, ?f)" "m < length (out_names d c n)" using m by (simp_all add: out_names_def)
  have g': "run_ops (rename_ops (take (Suc m) (out_names d c n))) f = (?g(?t := None))(?f \<mapsto> T m)"
    using t nth by (simp add: take_Suc_conv_app_nth rename_ops_def)
  show ?case
    unfolding g'
  proof (intro conjI allI impI)
    fix i assume "i < Suc m"
    then show "((?g(?t := None))(?f \<mapsto> T m)) (sstPath d 1 (c + i)) = Some (T i)"
      using IH(1) tf [of i m] inj [of i m] m by (cases "i = m") auto
  next
    fix p assume p: "\<forall>i < Suc m. p \<noteq> sstPath d 1 (c + i) \<and> p \<noteq> out_tmp d (c + i)"
    then have "p \<noteq> ?f" "p \<noteq> ?t" "?g p = f p" using IH(2) less_SucI by blast+
    then show "((?g(?t := None))(?f \<mapsto> T m)) p = f p" by (simp only: fun_upd_apply if_False)
  qed
qed (simp add: rename_ops_def)

lemma publish_spec:
  "publish io k staged = (ops, n, e) \<Longrightarrow>
     \<exists>m \<le> length staged. ops = rename_ops (take m staged) \<and> n = k + m \<and> (e = None \<longrightarrow> m = length staged)"
proof (induction io k staged arbitrary: ops n e rule: publish.induct)
  case (2 io k tmp fin staged)
  show ?case
  proof (cases "rename_ok io k")
    case False
    then show ?thesis using 2(2) by (auto simp: rename_ops_def)
  next
    case ok: True
    show ?thesis
    proof (cases "injected io ''compact.mid_publish'' k")
      case True
      then have "ops = rename_ops (take 1 ((tmp, fin) # staged))" "n = k + 1" "e \<noteq> None"
        using 2(2) ok by (auto simp: rename_ops_def)
      then show ?thesis by (intro exI [of _ 1]) auto
    next
      case False
      obtain ops' n' e' where p: "publish io (k + 1) staged = (ops', n', e')" by (metis prod_cases3)
      obtain m where "m \<le> length staged" "ops' = rename_ops (take m staged)" "n' = k + 1 + m" "e' = None \<longrightarrow> m = length staged"
        using 2(1) [OF _ False p] ok by blast
      then show ?thesis using 2(2) ok False p by (intro exI [of _ "Suc m"]) (auto simp: rename_ops_def)
    qed
  qed
qed (simp add: rename_ops_def)

text \<open>Removing the first \<open>i\<close> inputs, all outputs in place.\<close>

definition full :: "(nat \<Rightarrow> nat) \<Rightarrow> path \<Rightarrow> nat \<Rightarrow> store \<Rightarrow> fs \<Rightarrow> bool" where
  "full fp d c st f \<longleftrightarrow> (\<forall>x \<in> set (with_outputs c st). shows_table fp d f x) \<and> only d f (with_outputs c st)"

lemma run_removes: "run_ops (map Remove ps) f = (\<lambda>p. if p \<in> set ps then None else f p)"
  by (induction ps arbitrary: f) auto

lemma filter_not_taken:
  assumes "distinct xs"
  shows "filter (\<lambda>x. x \<notin> set (take i xs)) xs = drop i xs"
proof -
  have "filter (\<lambda>x. x \<notin> set (take i xs)) (take i xs @ drop i xs) = drop i xs"
    using set_take_disj_set_drop_if_distinct [OF assms, of i i] by (auto simp: filter_empty_conv filter_id_conv simp del: append_take_drop_id)
  then show ?thesis by simp
qed

lemma full_removed:
  assumes pl: "plan fp c st" and full: "full fp d c st f"
  shows "on_disk fp d (run_ops (map Remove (map (store_path d) (take i st))) f)
    (drop i (level 1 st) @ out_store c (outputs st) @ drop (i - length (level 1 st)) (level 0 st))"
proof -
  note ok = plan_ok [OF pl]
  let ?A = "level 1 st" and ?B = "level 0 st" and ?O = "out_store c (outputs st)" and ?j = "i - length (level 1 st)"
  let ?g = "run_ops (map Remove (map (store_path d) (take i st))) f"
  have st: "st = ?A @ ?B" by (rule store_levels [OF ok(2)])
  have take: "set (take i st) = set (take i ?A) \<union> set (take ?j ?B)" by (subst st) simp
  have w: "set (with_outputs c st) = set st \<union> set ?O" by (rule set_with_outputs [OF ok(2)])
  have inj: "store_path d x \<in> store_path d ` set (take i st) \<longleftrightarrow> x \<in> set (take i st)" if "x \<in> set (with_outputs c st)" for x
    using store_path_inj [OF ok(1), of d] that w by (auto dest: inj_onD in_set_takeD)
  have g: "?g (store_path d x) = (if x \<in> set (take i st) then None else Some (table_bytes fp (snd x)))"
    if "x \<in> set (with_outputs c st)" for x
    using full that inj [OF that] unfolding run_removes set_map full_def by simp
  have dist: "distinct (?A @ ?B)" using ok(2) st by (metis distinct_map store_ok_def strict_sorted_iff)
  have new: "x \<notin> set st" if "x \<in> set ?O" for x using that pl by (auto simp: plan_def out_store_nth)
  let ?P = "\<lambda>x. ?g (store_path d x) \<noteq> None"
  have P: "?P x \<longleftrightarrow> x \<notin> set (take i st)" if "x \<in> set (with_outputs c st)" for x using g [OF that] by simp
  have sub: "set ?A \<subseteq> set (with_outputs c st)" "set ?B \<subseteq> set (with_outputs c st)" using w by (auto simp: level_def)
  have "filter ?P ?A = filter (\<lambda>x. x \<notin> set (take i st)) ?A" using P sub(1) by (intro filter_cong) auto
  also have "\<dots> = drop i ?A"
    using dist take filter_not_taken [of ?A i]
    by (subst filter_cong [OF refl, of ?A _ "\<lambda>x. x \<notin> set (take i ?A)"]) (auto dest: in_set_takeD)
  finally have A: "filter ?P ?A = drop i ?A" .
  have "filter ?P ?B = filter (\<lambda>x. x \<notin> set (take i st)) ?B" using P sub(2) by (intro filter_cong) auto
  also have "\<dots> = drop ?j ?B"
    using dist take filter_not_taken [of ?B ?j]
    by (subst filter_cong [OF refl, of ?B _ "\<lambda>x. x \<notin> set (take ?j ?B)"]) (auto dest: in_set_takeD)
  finally have B: "filter ?P ?B = drop ?j ?B" .
  have O: "filter ?P ?O = ?O" using P w new by (intro filter_True) (auto dest: in_set_takeD)
  have "on_disk fp d ?g (filter ?P (with_outputs c st))"
  proof (rule on_disk_present [OF ok(1)])
    show "\<forall>x \<in> set (with_outputs c st). ?g (store_path d x) = None \<or> shows_table fp d ?g x" using g by simp
    show "only d ?g (with_outputs c st)"
      by (rule only_mono [of d f]) (use full in \<open>simp_all add: full_def run_removes del: map_map split: if_split_asm\<close>)
  qed
  then show ?thesis unfolding with_outputs_def filter_append A B O .
qed

section \<open>The phases\<close>

lemma sweep_quiet: "x \<in> set (sweep io) \<Longrightarrow> p \<in> op_paths x \<Longrightarrow> parse_sst p = None"
  by (auto simp: sweep_def parse_sst_def)

lemma fill_store:
  assumes "on_disk fp d f st"
  shows "\<exists>heap its. fill_heap iter_adv [0..<length st] [] (map (createIterator f) (store_tables fp d st)) = Some (heap, its)
    \<and> iters_ok (length st) its \<and> heap_holds (\<lambda>its i. it_entries (its ! i)) {..<length st} heap its (map snd st)"
proof -
  let ?its = "map (createIterator f) (store_tables fp d st)"
  have at: "iter_at (?its ! i) (snd (st ! i))" and ok: "\<forall>e \<in> set (snd (st ! i)). entry_ok e" if "i < length st" for i
  proof -
    have "st ! i \<in> set st" using that by simp
    then have "table_ok fp (snd (st ! i))" "shows_table fp d f (st ! i)" using assms unfolding on_disk_def store_ok_def by blast+
    then show "iter_at (?its ! i) (snd (st ! i))" "\<forall>e \<in> set (snd (st ! i)). entry_ok e"
      using that by (auto simp: store_tables_def table_ok_def intro!: createIterator_at)
  qed
  have len: "length ?its = length st" by (simp add: store_tables_def)
  have "iters_ok (length (map snd st)) ?its" using at ok len unfolding iters_ok_def by auto
  moreover have "\<forall>i \<in> set [0..<length st]. it_entries (?its ! i) = map snd st ! i"
    using at ok by (simp add: it_entries_at)
  ultimately show ?thesis
    using iters.fill_heap_ok [OF heap_holds_empty, of "map snd st" ?its "[0..<length st]"] by (auto simp: atLeast0LessThan)
qed

lemma out_tmp_stage: "c + i < int_max \<Longrightarrow> out_tmp d (c + i) \<in> stage_paths d c"
  unfolding stage_paths_def using le_add1 by blast

lemma merge_phase_spec:
  assumes disk: "on_disk fp d f st" and n: "start + length (outputs st) \<le> int_max"
  obtains ops staged err where "merge_phase fp io d f (store_tables fp d st) start = Some (ops, staged, err)"
    "\<forall>x \<in> set ops. op_paths x \<subseteq> stage_paths d start"
    "err = None \<longrightarrow> staged = out_names d start (length (outputs st))
       \<and> (\<forall>i < length (outputs st). run_ops ops f (out_tmp d (start + i)) = Some (table_bytes fp (outputs st ! i)))"
proof -
  have ok: "store_ok fp st" using disk by (simp add: on_disk_def)
  let ?ms = "\<lparr>ms_buffer = [], ms_counter = start, ms_staged = [], ms_ops = []\<rparr>"
  obtain heap its where fill: "fill_heap iter_adv [0..<length st] [] (map (createIterator f) (store_tables fp d st)) = Some (heap, its)"
      "iters_ok (length st) its" "heap_holds (\<lambda>its i. it_entries (its ! i)) {..<length st} heap its (map snd st)"
    using fill_store [OF disk] by blast
  have "compact_loop fp io d heap its ?ms = stream_all fp io d (merged compact_prio (map snd st)) ?ms"
    using fill(2,3) store_sorted [OF ok] by (intro compact_loop_streams) simp_all
  also have "\<dots> = stage_all fp io d (outputs st) ?ms"
    by (subst stream_all_chunks) (simp_all add: outputs_def l1_max_file_entries_def)
  finally have loop: "compact_loop fp io d heap its ?ms = stage_all fp io d (outputs st) ?ms" .
  obtain ms err ops j where st: "stage_all fp io d (outputs st) ?ms = Some (ms, err)" "ms_ops ms = ops"
      "\<forall>x \<in> set ops. op_paths x \<subseteq> stage_paths d start" "ms_staged ms = out_names d start j" "j \<le> length (outputs st)"
      "err = None \<longrightarrow> j = length (outputs st)
         \<and> (\<forall>fs. \<forall>i < length (outputs st). run_ops ops fs (out_tmp d (start + i)) = Some (table_bytes fp (outputs st ! i)))"
    using stage_spec [of "outputs st" ?ms fp io d] outputs_writable [OF ok] n by auto
  have len: "length (store_tables fp d st) = length st" by (simp add: store_tables_def)
  have j: "\<forall>x \<in> set (ops @ map Remove (filter (cleanup_ok io) (map fst (ms_staged ms)))). op_paths x \<subseteq> stage_paths d start"
    using st(3,4,5) n out_tmp_stage [of start _ d] by (auto simp: out_names_def)
  show thesis
  proof (cases "err = None \<and> \<not> injected io ''compact.after_merge'' 0")
    case True
    then show thesis using that [of ops "ms_staged ms" None] fill(1) loop st len by (simp add: merge_phase_def Let_def)
  next
    case False
    then obtain e where "merge_phase fp io d f (store_tables fp d st) start =
        Some (ops @ map Remove (filter (cleanup_ok io) (map fst (ms_staged ms))), ms_staged ms, Some e)"
      using fill(1) loop st(1,2) len by (cases err) (auto simp: merge_phase_def Let_def)
    then show thesis using that j by simp
  qed
qed

lemma fins_eq: "fins d c st = {sstPath d 1 (c + i) | i. i < length (outputs st)}"
  by (force simp: fins_def out_store_def image_image)

text \<open>After the first \<open>m\<close> renames.\<close>

lemma renamed_mid:
  assumes pl: "plan fp c st" and disk: "on_disk fp d f st" and m: "m \<le> length (outputs st)"
    and tmp: "\<forall>i < length (outputs st). f (out_tmp d (c + i)) = Some (table_bytes fp (outputs st ! i))"
  defines "g \<equiv> run_ops (rename_ops (take m (out_names d c (length (outputs st))))) f"
  shows "mid fp d c st g" "\<forall>i. m \<le> i \<and> i < length (outputs st) \<longrightarrow> g (sstPath d 1 (c + i)) = None"
    and "m = length (outputs st) \<Longrightarrow> full fp d c st g"
proof -
  note ok = plan_ok [OF pl] and om = on_disk_mid [OF pl disk]
  have n: "c + length (outputs st) \<le> int_max" using pl by (simp add: plan_def)
  note r = renames_spec [where f = f and d = d and T = "\<lambda>i. table_bytes fp (outputs st ! i)", OF n tmp m, folded g_def]
  have fin: "g (sstPath d 1 (c + i)) = Some (table_bytes fp (outputs st ! i))" if "i < m" for i using r that by blast
  have tmp_inv: "parse_sst (out_tmp d (c + i)) = None" for i by (rule parse_tmp) (simp add: sst_name_def)
  have keep: "g p = f p" if "parse_sst p \<noteq> None" "\<forall>i < m. p \<noteq> sstPath d 1 (c + i)" for p
    using r that tmp_inv by metis
  have late: "sstPath d 1 (c + j) \<noteq> sstPath d 1 (c + i)" if "i < m" "m \<le> j" "j < length (outputs st)" for i j
    using that n m by (simp add: sstPath_inject)
  have absent: "f (sstPath d 1 (c + i)) = None" if "i < length (outputs st)" for i
    using om(2) [rule_format, of "((1, c + i), outputs st ! i)"] that by (simp add: out_store_nth)
  show none: "\<forall>i. m \<le> i \<and> i < length (outputs st) \<longrightarrow> g (sstPath d 1 (c + i)) = None"
  proof (intro allI impI)
    fix i assume i: "m \<le> i \<and> i < length (outputs st)"
    have "parse_sst (sstPath d 1 (c + i)) \<noteq> None" using i n by (simp add: parse_sstPath)
    then show "g (sstPath d 1 (c + i)) = None" using keep late i absent by metis
  qed
  have inputs: "shows_table fp d g x" if "x \<in> set st" for x
  proof -
    have "store_path d x \<noteq> sstPath d 1 (c + i)" if "i < m" for i
      using fins_not_inputs [OF pl \<open>x \<in> set st\<close>, of d] that m by (auto simp: fins_eq)
    then have "g (store_path d x) = f (store_path d x)" using only_parse [OF ok(2) that] by (intro keep) auto
    then show ?thesis using om(1) that by (simp add: mid_def)
  qed
  have outs: "g (store_path d x) = None \<or> shows_table fp d g x" if x: "x \<in> set (out_store c (outputs st))" for x
  proof -
    obtain i where i: "i < length (outputs st)" "x = ((1, c + i), outputs st ! i)" using x by (auto simp: out_store_nth)
    then show ?thesis using fin [of i] none by (cases "i < m") auto
  qed
  have only: "only d g (with_outputs c st)"
    unfolding only_def
  proof (intro allI impI)
    fix p assume p: "in_dir d p \<and> p \<in> dom g \<and> parse_sst p \<noteq> None"
    show "p \<in> store_path d ` set (with_outputs c st)"
    proof (cases "p \<in> fins d c st")
      case True
      then show ?thesis unfolding fins_def set_with_outputs [OF ok(2)] by blast
    next
      case False
      then have "g p = f p" using p m by (intro keep) (auto simp: fins_eq)
      then show ?thesis using p om(1) onlyD [of d f "with_outputs c st" p] unfolding mid_def by (simp add: domIff)
    qed
  qed
  show "mid fp d c st g" unfolding mid_def using inputs outs only by blast
  show "full fp d c st g" if "m = length (outputs st)"
    using inputs only fin that unfolding full_def set_with_outputs [OF ok(2)] by (auto simp: out_store_nth)
qed

lemma out_names_store:
  "out_names d c (length bs) = map (\<lambda>x. (store_path d x @ ''.tmp'', store_path d x)) (out_store c bs)"
  by (simp add: out_names_def out_store_def)

lemma sst_open_path: "sst_open a b fs p = Inr t \<Longrightarrow> sst_path t = p \<and> a \<and> b"
  by (auto simp: sst_open_def Let_def split: option.splits if_split_asm prod.splits sum.splits)

lemma open_fresh_paths: "open_fresh io f k staged = (ts, e) \<Longrightarrow> t \<in> set ts \<Longrightarrow> sst_path t \<in> snd ` set staged"
proof (induction io f k staged arbitrary: ts e rule: open_fresh.induct)
  case (2 io f k tmp fin staged)
  then show ?case by (force split: sum.splits prod.splits dest: sst_open_path)
qed simp

lemma open_fresh_tables:
  assumes "\<forall>x \<in> set S. shows_table fp d f x \<and> table_ok fp (snd x)"
    and "open_fresh io f k (map (\<lambda>x. (store_path d x @ ''.tmp'', store_path d x)) S) = (ts, None)"
  shows "ts = store_tables fp d S"
  using assms
proof (induction S arbitrary: k ts)
  case (Cons x S)
  obtain t ts' where t: "sst_open (fst (open_ok io k)) (snd (open_ok io k)) f (store_path d x) = Inr t" "ts = t # ts'"
      "open_fresh io f (k + 1) (map (\<lambda>x. (store_path d x @ ''.tmp'', store_path d x)) S) = (ts', None)"
    using Cons.prems(2) by (auto split: sum.splits prod.splits)
  have "t = table_of fp (store_path d x) (snd x)"
    using t(1) sst_open_path [OF t(1)] sst_open_table [of f "store_path d x" fp "snd x"] Cons.prems(1) by simp
  moreover have "ts' = store_tables fp d S" using Cons.IH [of "k + 1" ts'] Cons.prems(1) t(3) by simp
  ultimately show ?case using t(2) by (simp add: store_tables_def)
qed (simp add: store_tables_def)

lemma undo_tidy:
  assumes "x \<in> set (undo io m (out_names d c (length (outputs st))))"
  shows "tidy d c st x"
proof -
  let ?N = "length (outputs st)"
  obtain i where "i < ?N" "x = Remove (sstPath d 1 (c + i)) \<or> x = Remove (out_tmp d (c + i))"
    using assms by (auto simp: undo_def out_names_def dest!: in_set_takeD in_set_dropD)
  then show ?thesis using parse_tmp [OF filename_tmp, of d 1] parse_tmp [of "sstPath d 1 (c + i)"]
    by (auto simp: tidy_def fins_eq sst_name_def)
qed

lemma undo_removes:
  assumes "\<forall>p. cleanup_ok io p" "i < m" "i < n"
  shows "Remove (sstPath d 1 (c + i)) \<in> set (undo io m (out_names d c n))"
proof -
  have "out_names d c n ! i \<in> set (take m (out_names d c n))"
    using assms by (auto simp: in_set_conv_nth out_names_def intro!: exI [of _ i])
  then have "sstPath d 1 (c + i) \<in> snd ` set (take m (out_names d c n))"
    using assms(3) by (force simp: out_names_def)
  then show ?thesis using assms(1) by (auto simp: undo_def)
qed

lemma prefix_take: "prefix xs ys \<Longrightarrow> \<exists>n \<le> length ys. xs = take n ys"
  by (auto simp: prefix_def intro!: exI [of _ "length xs"])

lemma prefix_renames: "prefix pre (rename_ops xs) \<Longrightarrow> \<exists>m \<le> length xs. pre = rename_ops (take m xs)"
  using prefix_take [of pre "rename_ops xs"] by (auto simp: rename_ops_def take_map)

text \<open>Phase 2: at every moment an output is absent or complete; an exception undoes everything, success
  opens exactly the outputs.\<close>

lemma publish_phase_spec:
  assumes pl: "plan fp c st" and disk: "on_disk fp d f st"
    and tmp: "\<forall>i < length (outputs st). f (out_tmp d (c + i)) = Some (table_bytes fp (outputs st ! i))"
    and ph: "publish_phase io d f (out_names d c (length (outputs st))) = (ops, r, closed)"
  shows "prefix pre ops \<Longrightarrow> mid fp d c st (run_ops pre f)"
    and "r = Inl e \<Longrightarrow> \<forall>p. cleanup_ok io p \<Longrightarrow> on_disk fp d (run_ops ops f) st"
    and "r = Inr fresh \<Longrightarrow> full fp d c st (run_ops ops f) \<and> fresh = store_tables fp d (out_store c (outputs st))"
    and "t \<in> set closed \<Longrightarrow> sst_path t \<in> fins d c st"
proof -
  let ?N = "length (outputs st)" and ?names = "out_names d c (length (outputs st))"
  have len: "length ?names = ?N" by (simp add: out_names_def)
  obtain ops1 n e1 where p: "publish io 0 ?names = (ops1, n, e1)" by (metis prod_cases3)
  obtain m where m: "m \<le> ?N" "ops1 = rename_ops (take m ?names)" "n = m" "e1 = None \<longrightarrow> m = ?N"
    using publish_spec [OF p] len by auto
  note ren = renamed_mid [OF pl disk m(1) tmp, folded m(2)]
  have dir: "x \<in> set (fsyncDir io d) \<Longrightarrow> tidy d c st x" for x by (auto simp: fsyncDir_def tidy_def split: if_split_asm)
  have nul: "run_ops (fsyncDir io d) g = g" for g by (simp add: fsyncDir_def)
  have td: "\<forall>x \<in> set (fsyncDir io d) \<union> set (undo io m ?names). tidy d c st x" using undo_tidy dir by blast
  obtain tail where tail: "ops = ops1 @ tail" "\<forall>x \<in> set tail. tidy d c st x"
      "r = Inl e \<Longrightarrow> set (undo io m ?names) \<subseteq> set tail" "r = Inr fresh \<Longrightarrow> tail = fsyncDir io d \<and> e1 = None"
  proof (cases e1)
    case (Some x)
    then show thesis using that [of "undo io m ?names"] ph p m(3) td by (auto simp: publish_phase_def)
  next
    case None
    then show thesis
      using that [of "fsyncDir io d @ undo io m ?names"] that [of "fsyncDir io d"] ph p m(3) td
      by (auto simp: publish_phase_def Let_def split: prod.splits option.splits if_split_asm)
  qed
  show "mid fp d c st (run_ops pre f)" if pre: "prefix pre ops"
  proof -
    consider "prefix pre ops1" | us where "pre = ops1 @ us" "prefix us tail" using pre unfolding tail(1) by (auto simp: prefix_append)
    then show ?thesis
    proof cases
      case 1
      then obtain m' where m': "m' \<le> m" "pre = rename_ops (take m' ?names)"
        using prefix_renames [of pre "take m ?names"] m(1,2) len by (auto simp: min_absorb1)
      then show ?thesis using renamed_mid(1) [OF pl disk _ tmp, of m'] m(1) by simp
    next
      case 2
      then have "\<forall>x \<in> set us. tidy d c st x" using tail(2) set_mono_prefix by blast
      then show ?thesis using 2(1) ren(1) by (simp add: mid_tidy [OF pl])
    qed
  qed
  show "on_disk fp d (run_ops ops f) st" if e: "r = Inl e" and cl: "\<forall>p. cleanup_ok io p"
  proof (rule mid_unpublished [OF pl])
    show "mid fp d c st (run_ops ops f)" using mid_tidy [OF pl ren(1) tail(2)] tail(1) by simp
    show "\<forall>x \<in> set (out_store c (outputs st)). run_ops ops f (store_path d x) = None"
    proof
      fix x assume "x \<in> set (out_store c (outputs st))"
      then obtain i where i: "i < ?N" "store_path d x = sstPath d 1 (c + i)" by (auto simp: out_store_nth)
      have vis: "parse_sst (sstPath d 1 (c + i)) \<noteq> None" using i pl by (simp add: plan_def parse_sstPath)
      have "run_ops ops1 f (sstPath d 1 (c + i)) = None \<or> Remove (sstPath d 1 (c + i)) \<in> set tail"
        using ren(2) undo_removes [OF cl, of i m ?N d c] i tail(3) [OF e] by (cases "i < m") auto
      then show "run_ops ops f (store_path d x) = None" unfolding tail(1) i(2) run_ops_append by (rule tidy_gone [OF tail(2) vis])
    qed
  qed
  show "full fp d c st (run_ops ops f) \<and> fresh = store_tables fp d (out_store c (outputs st))" if r: "r = Inr fresh"
  proof -
    have t: "tail = fsyncDir io d" "e1 = None" using tail(4) r by auto
    have full: "full fp d c st (run_ops ops f)" using ren(3) m(4) t nul tail(1) by simp
    have "open_fresh io (run_ops ops f) 0 ?names = (fresh, None)"
      using ph p t r tail(1) by (auto simp: publish_phase_def Let_def split: prod.splits option.splits if_split_asm)
    moreover have "\<forall>x \<in> set (out_store c (outputs st)). shows_table fp d (run_ops ops f) x \<and> table_ok fp (snd x)"
      using full plan_ok(1) [OF pl] set_with_outputs [OF plan_ok(2) [OF pl], of c] unfolding full_def store_ok_def by blast
    ultimately show ?thesis using full open_fresh_tables unfolding out_names_store by blast
  qed
  show "sst_path t \<in> fins d c st" if tc: "t \<in> set closed"
  proof -
    obtain g e' where "open_fresh io g 0 ?names = (closed, e')"
      using tc ph p by (auto simp: publish_phase_def Let_def split: prod.splits option.splits if_split_asm)
    then show ?thesis using open_fresh_paths tc unfolding out_names_store fins_def by fastforce
  qed
qed

section \<open>The block cache\<close>

definition store_blocks :: "path \<Rightarrow> store \<Rightarrow> path \<times> nat \<rightharpoonup> entry list" where
  "store_blocks d st k = Option.bind (map_of (map (\<lambda>x. (store_path d x, snd x)) st) (fst k)) (\<lambda>es. table_blocks es (snd k))"

lemma destroy_view:
  assumes "cache_ok c"
  shows "cache_ok (fold sst_destroy ts c)
    \<and> cache_view (fold sst_destroy ts c) = (\<lambda>k. if fst k \<in> sst_path ` set ts then None else cache_view c k)"
  using assms
proof (induction ts arbitrary: c)
  case (Cons t ts)
  then show ?case by (auto simp: sst_destroy_def invalidatePath_spec fun_eq_iff)
qed simp

lemma destroy_coherent:
  assumes "cache_coherent src c" "\<And>k. fst k \<notin> sst_path ` set ts \<Longrightarrow> src k \<noteq> None \<Longrightarrow> src' k = src k"
  shows "cache_coherent src' (fold sst_destroy ts c)"
proof -
  have ok: "cache_ok c" and le: "cache_view c \<subseteq>\<^sub>m src" using assms(1) by (simp_all add: lru.coherent_def)
  have "cache_view (fold sst_destroy ts c) \<subseteq>\<^sub>m src'"
    unfolding map_le_def
  proof
    fix k assume "k \<in> dom (cache_view (fold sst_destroy ts c))"
    then obtain b where k: "fst k \<notin> sst_path ` set ts" "cache_view c k = Some b"
      using destroy_view [OF ok, of ts] by (auto split: if_split_asm)
    then have "src k = Some b" using map_le_Some [OF le] by blast
    then show "cache_view (fold sst_destroy ts c) k = src' k" using destroy_view [OF ok, of ts] k assms(2) by simp
  qed
  then show ?thesis using destroy_view [OF ok, of ts] by (simp add: lru.coherent_def)
qed

section \<open>A whole run\<close>

definition result_ok :: "(nat \<Rightarrow> nat) \<Rightarrow> compact_io \<Rightarrow> path \<Rightarrow> store \<Rightarrow> nat \<Rightarrow> fs \<Rightarrow> block_cache
    \<Rightarrow> compact_error + (sstable list \<times> nat) \<Rightarrow> bool" where
  "result_ok fp io d st cnt f c r =
     (case r of
        Inl e \<Rightarrow> cache_coherent (store_blocks d st) c \<and> ((\<forall>p. cleanup_ok io p) \<longrightarrow> on_disk fp d f st)
      | Inr (ts, cnt') \<Rightarrow> (\<exists>st'. ts = store_tables fp d st' \<and> on_disk fp d f st' \<and> same_view st st'
           \<and> cache_coherent (store_blocks d st') c \<and> (st' = st \<and> cnt' = cnt \<or> level 0 st' = [] \<and> cnt' = 0)))"

lemma same_view_refl [simp]: "same_view st st"
  by (simp add: same_view_def)

lemma crash_states_append:
  "f' \<in> crash_states (xs @ ys) f \<longleftrightarrow> f' \<in> crash_states xs f \<or> f' \<in> crash_states ys (run_ops xs f)"
  by (auto simp: crash_states_def prefix_append) (metis run_ops_append)

lemma crash_quiet:
  assumes "plan fp c st" "mid fp d c st f" "\<forall>x \<in> set ops. \<forall>p \<in> op_paths x. parse_sst p = None" "f' \<in> crash_states ops f"
  shows "mid fp d c st f'"
proof -
  obtain pre where pre: "f' = run_ops pre f" "prefix pre ops" using assms(4) by (auto simp: crash_states_def)
  then have "\<forall>x \<in> set pre. tidy d c st x" using assms(3) set_mono_prefix [OF pre(2)] by (auto simp: tidy_def)
  then show ?thesis unfolding pre(1) by (rule mid_tidy [OF assms(1,2)])
qed

lemma crash_fsyncDir: "crash_states (fsyncDir io d) f = {f}"
proof -
  have "run_ops pre f = f" if "prefix pre (fsyncDir io d)" for pre
    using that by (auto simp: fsyncDir_def prefix_Cons split: if_split_asm)
  then show ?thesis by (force simp: crash_states_def)
qed

lemma removals_spec:
  assumes pl: "plan fp c st" and full: "full fp d c st f" and rm: "\<forall>p. remove_ok io p"
  shows "f' \<in> crash_states (remove_inputs io d (store_tables fp d st)) f \<Longrightarrow> \<exists>st'. on_disk fp d f' st' \<and> same_view st st'"
    and "on_disk fp d (run_ops (remove_inputs io d (store_tables fp d st)) f) (out_store c (outputs st))"
proof -
  let ?R = "\<lambda>i. map Remove (map (store_path d) (take i st))"
  note ok = plan_ok(2) [OF pl]
  have "map sst_path (store_tables fp d st) = map (store_path d) st" by (simp add: store_tables_def)
  moreover have "remove_ok io = (\<lambda>_. True)" using rm by auto
  ultimately have ops: "remove_inputs io d (store_tables fp d st) = ?R (length st) @ fsyncDir io d"
    by (simp add: remove_inputs_def)
  have len: "length st = length (level 1 st) + length (level 0 st)" 
    unfolding length_append [symmetric] by (rule arg_cong [OF store_levels [OF ok]])
  have all_gone: "on_disk fp d (run_ops (?R (length st)) f) (out_store c (outputs st))"
    using full_removed [OF pl full, of "length st"] unfolding len by simp
  show "\<exists>st'. on_disk fp d f' st' \<and> same_view st st'"
    if f': "f' \<in> crash_states (remove_inputs io d (store_tables fp d st)) f"
  proof -
    have "\<exists>i. f' = run_ops (?R i) f"
    proof (cases "f' \<in> crash_states (?R (length st)) f")
      case True
      then obtain pre where pre: "f' = run_ops pre f" "prefix pre (?R (length st))" by (auto simp: crash_states_def)
      obtain n where "pre = take n (?R (length st))" using prefix_take [OF pre(2)] by blast
      then have "pre = ?R n" by (simp add: take_map)
      then show ?thesis using pre(1) by blast
    next
      case False
      then show ?thesis using f' unfolding ops crash_states_append crash_fsyncDir by blast
    qed
    then obtain i where "f' = run_ops (?R i) f" by blast
    then show ?thesis using full_removed [OF pl full, of i] view_removing [OF ok, of i c] by blast
  qed
  show "on_disk fp d (run_ops (remove_inputs io d (store_tables fp d st)) f) (out_store c (outputs st))"
    using all_gone unfolding ops run_ops_append by (simp add: fsyncDir_def)
qed

lemma run_plan:
  assumes disk: "on_disk fp d f st" and fp: "fp_sane fp" and names: "lists_dir d f (dir_names io)"
    and start: "l1_start io (store_tables fp d st) = Some n" and n: "n + length (outputs st) \<le> int_max"
  shows "plan fp n st"
proof -
  have "snd (fst x) < n" if x: "x \<in> set st" "fst (fst x) = 1" for x
  proof (rule l1_start_past [OF start, of d])
    have "f (store_path d x) \<noteq> None" "snd (fst x) < int_max" using disk x(1) unfolding on_disk_def store_ok_def by auto
    then show "sstPath d 1 (snd (fst x)) \<in> set (dir_names io)" "snd (fst x) \<le> int_max"
      using names x(2) by (auto simp: lists_dir_def dom_def)
  qed
  then show ?thesis using disk fp n by (simp add: plan_def on_disk_def)
qed

lemma on_disk_quiet:
  assumes "on_disk fp d f st" "\<And>p. parse_sst p \<noteq> None \<Longrightarrow> g p = f p"
  shows "on_disk fp d g st"
proof -
  have ok: "store_ok fp st" using assms(1) by (simp add: on_disk_def)
  have "only d f st" using assms(1) unfolding on_disk_def only_def by blast
  then have "only d g st" by (rule only_mono) (simp add: assms(2))
  moreover have "shows_table fp d g x" if "x \<in> set st" for x
    using assms(1) assms(2) [OF only_parse [OF ok that]] that unfolding on_disk_def by simp
  ultimately show ?thesis using ok unfolding on_disk_def only_def by blast
qed

lemma on_disk_quiet_ops:
  assumes "on_disk fp d f st" "\<forall>x \<in> set ops. \<forall>p \<in> op_paths x. parse_sst p = None"
  shows "on_disk fp d (run_ops ops f) st"
  using assms(1)
proof (rule on_disk_quiet)
  show "run_ops ops f p = f p" if "parse_sst p \<noteq> None" for p
    using assms(2) that by (intro run_ops_other) auto
qed

lemma store_blocks_path: "store_blocks d st k \<noteq> None \<Longrightarrow> fst k \<in> store_path d ` set st"
  by (auto simp: store_blocks_def bind_eq_Some_conv dest!: map_of_SomeD)

lemma outputs_view:
  assumes "store_ok fp st"
  shows "same_view st (out_store n (outputs st))"
  unfolding same_view_def by (simp add: look_outputs [OF assms] live_def split: option.splits)

text \<open>What the phases amount to, once the temporaries are staged.\<close>

lemma publish_and_remove:
  assumes pl: "plan fp n st" and disk: "on_disk fp d f st"
    and tmp: "\<forall>i < length (outputs st). f (out_tmp d (n + i)) = Some (table_bytes fp (outputs st ! i))"
    and ph: "publish_phase io d f (out_names d n (length (outputs st))) = (ops, r, closed)"
    and rm: "\<forall>p. remove_ok io p" and coh: "cache_coherent (store_blocks d st) c"
  shows "f' \<in> crash_states ops f \<Longrightarrow> \<exists>st'. on_disk fp d f' st' \<and> same_view st st'"
    and "r = Inl e \<Longrightarrow> result_ok fp io d st cnt (run_ops ops f) (fold sst_destroy closed c) (Inl e)"
    and "r = Inr fresh \<Longrightarrow> f' \<in> crash_states (remove_inputs io d (store_tables fp d st)) (run_ops ops f) \<Longrightarrow>
      \<exists>st'. on_disk fp d f' st' \<and> same_view st st'"
    and "r = Inr fresh \<Longrightarrow> result_ok fp io d st cnt (run_ops (remove_inputs io d (store_tables fp d st)) (run_ops ops f))
      (fold sst_destroy (store_tables fp d st) c) (Inr (fresh, 0))"
proof -
  note ps = publish_phase_spec [OF pl disk tmp ph] and ok = plan_ok(2) [OF pl]
  show "\<exists>st'. on_disk fp d f' st' \<and> same_view st st'" if cr: "f' \<in> crash_states ops f"
  proof -
    obtain pre where pre: "f' = run_ops pre f" "prefix pre ops" using cr by (auto simp: crash_states_def)
    show ?thesis unfolding pre(1) by (rule mid_on_disk [OF pl ps(1) [OF pre(2)]])
  qed
  show "result_ok fp io d st cnt (run_ops ops f) (fold sst_destroy closed c) (Inl e)" if "r = Inl e"
  proof -
    have "cache_coherent (store_blocks d st) (fold sst_destroy closed c)" by (rule destroy_coherent [OF coh refl])
    then show ?thesis using ps(2) [OF that] unfolding result_ok_def sum.case by blast
  qed
  show "\<exists>st'. on_disk fp d f' st' \<and> same_view st st'"
    if "r = Inr fresh" "f' \<in> crash_states (remove_inputs io d (store_tables fp d st)) (run_ops ops f)"
    by (rule removals_spec(1) [OF pl conjunct1 [OF ps(3) [OF that(1)]] rm that(2)])
  show "result_ok fp io d st cnt (run_ops (remove_inputs io d (store_tables fp d st)) (run_ops ops f))
      (fold sst_destroy (store_tables fp d st) c) (Inr (fresh, 0))" if "r = Inr fresh"
  proof -
    let ?st' = "out_store n (outputs st)"
    have paths: "sst_path ` set (store_tables fp d st) = store_path d ` set st" by (simp add: store_tables_def image_image)
    have "cache_coherent (store_blocks d ?st') (fold sst_destroy (store_tables fp d st) c)"
    proof (rule destroy_coherent [OF coh])
      fix k assume "fst k \<notin> sst_path ` set (store_tables fp d st)" "store_blocks d st k \<noteq> None"
      then show "store_blocks d ?st' k = store_blocks d st k" using store_blocks_path [of d st k] unfolding paths by simp
    qed
    moreover have "level 0 ?st' = []" by (auto simp: level_def filter_empty_conv out_store_nth)
    moreover have "on_disk fp d (run_ops (remove_inputs io d (store_tables fp d st)) (run_ops ops f)) ?st'"
      by (rule removals_spec(2) [OF pl conjunct1 [OF ps(3) [OF that]] rm])
    moreover have "fresh = store_tables fp d ?st'" by (rule conjunct2 [OF ps(3) [OF that]])
    ultimately show ?thesis using outputs_view [OF ok, of n] unfolding result_ok_def sum.case prod.case by blast
  qed
qed

lemma compact_run_spec:
  assumes disk: "on_disk fp d fs st" and fp: "fp_sane fp"
    and names: "lists_dir d (run_ops (sweep io) fs) (dir_names io)"
    and start: "l1_start io (store_tables fp d st) = Some n" and n: "n + length (outputs st) \<le> int_max"
    and rm: "\<forall>p. remove_ok io p" and coh: "cache_coherent (store_blocks d st) c"
  shows "\<exists>ops r c'. compact_run fp io d fs (store_tables fp d st) cnt c = Some (ops, r, c')
    \<and> (\<forall>f' \<in> crash_states ops fs. \<exists>st'. on_disk fp d f' st' \<and> same_view st st')
    \<and> result_ok fp io d st cnt (run_ops ops fs) c' r"
proof (cases "length (l0_paths (store_tables fp d st)) < l0_threshold")
  case True
  then show ?thesis using disk coh by (auto simp: compact_run_def result_ok_def crash_states_def)
next
  case False
  let ?ts = "store_tables fp d st" and ?f0 = "run_ops (sweep io) fs"
  have disk0: "on_disk fp d ?f0 st" using disk by (rule on_disk_quiet_ops) (use sweep_quiet in blast)
  note pl = run_plan [OF disk0 fp names start n]
  have crash0: "\<exists>st'. on_disk fp d f' st' \<and> same_view st st'" if "f' \<in> crash_states (sweep io) fs" for f'
    using mid_on_disk [OF pl crash_quiet [OF pl on_disk_mid(1) [OF pl disk] _ that]] sweep_quiet by blast
  obtain ops1 staged err where m: "merge_phase fp io d ?f0 ?ts n = Some (ops1, staged, err)"
      "\<forall>x \<in> set ops1. op_paths x \<subseteq> stage_paths d n"
      "err = None \<longrightarrow> staged = out_names d n (length (outputs st))
         \<and> (\<forall>i < length (outputs st). run_ops ops1 ?f0 (out_tmp d (n + i)) = Some (table_bytes fp (outputs st ! i)))"
    using merge_phase_spec [OF disk0 n] by metis
  have quiet1: "\<forall>x \<in> set ops1. \<forall>p \<in> op_paths x. parse_sst p = None" using m(2) stage_invisible by blast
  have crash1: "\<exists>st'. on_disk fp d f' st' \<and> same_view st st'" if "f' \<in> crash_states ops1 ?f0" for f'
    using mid_on_disk [OF pl crash_quiet [OF pl on_disk_mid(1) [OF pl disk0] quiet1 that]] .
  have disk1: "on_disk fp d (run_ops ops1 ?f0) st" using disk0 quiet1 by (rule on_disk_quiet_ops)
  show ?thesis
  proof (cases err)
    case (Some e)
    then have "compact_run fp io d fs ?ts cnt c = Some (sweep io @ ops1, Inl e, c)"
      using False start m(1) by (simp add: compact_run_def)
    then show ?thesis using crash0 crash1 disk1 coh by (auto simp: result_ok_def crash_states_append)
  next
    case None
    obtain ops2 r closed where ph: "publish_phase io d (run_ops ops1 ?f0) (out_names d n (length (outputs st))) = (ops2, r, closed)"
      by (metis prod_cases3)
    note pr = publish_and_remove [OF pl disk1 _ ph rm coh]
    have tmp: "\<forall>i < length (outputs st). run_ops ops1 ?f0 (out_tmp d (n + i)) = Some (table_bytes fp (outputs st ! i))"
      using m(3) None by simp
    show ?thesis
    proof (cases r)
      case (Inl e)
      then have "compact_run fp io d fs ?ts cnt c = Some (sweep io @ ops1 @ ops2, Inl e, fold sst_destroy closed c)"
        using False start m(1,3) None ph by (simp add: compact_run_def)
      then show ?thesis using crash0 crash1 pr(1,2) [OF tmp] Inl by (auto simp: crash_states_append)
    next
      case (Inr fresh)
      then have "compact_run fp io d fs ?ts cnt c
          = Some (sweep io @ ops1 @ ops2 @ remove_inputs io d ?ts, Inr (fresh, 0), fold sst_destroy ?ts c)"
        using False start m(1,3) None ph by (simp add: compact_run_def)
      then show ?thesis using crash0 crash1 pr(1,3,4) [OF tmp] Inr by (auto simp: crash_states_append)
    qed
  qed
qed

section \<open>Properties\<close>

text \<open>C5. Compaction is crash safe. Take a directory that holds the engine's tables and a run of the
  compactor on it, whatever the environment does to the run short of refusing to delete an input. At
  every moment of the run, on success, on every exception and wherever the process is killed, loading the
  directory succeeds and gives every key the live value it had before.\<close>

theorem compact_crash_safe:
  assumes "on_disk fp d fs st" "fp_sane fp" "lists_dir d (run_ops (sweep io) fs) (dir_names io)"
    and "l1_start io (store_tables fp d st) = Some n" "n + length (outputs st) \<le> int_max"
    and "\<forall>p. remove_ok io p" "cache_coherent (store_blocks d st) c"
    and "compact_run fp io d fs (store_tables fp d st) cnt c = Some (ops, r, c')"
    and "fs' \<in> crash_states ops fs" "lists_dir d fs' names"
  shows "\<exists>st'. loadSSTables (\<lambda>_. (True, True)) names fs' = Inr (store_tables fp d st', next_counter st')
     \<and> (\<forall>k. live (look (map snd st') k) = live (look (map snd st) k))"
proof -
  obtain st' where "on_disk fp d fs' st'" "same_view st st'"
    using compact_run_spec [OF assms(1-7), of cnt] assms(8,9) by fastforce
  then show ?thesis using load_store [OF _ assms(10)] unfolding same_view_def by blast
qed


section \<open>A concrete directory\<close>

text \<open>Four level-0 tables over one key, the newest a tombstone.\<close>

definition ex_store :: store where
  "ex_store = [((0, 0), [([107], Some [1])]), ((0, 1), [([107], Some [2])]), ((0, 2), [([97], Some [3])]), ((0, 3), [([107], None)])]"

definition ex_dir :: fs where
  "ex_dir = map_of (map (\<lambda>x. (store_path ''/d'' x, table_bytes (\<lambda>n. 10 * n) (snd x))) ex_store)"

definition ex_cio :: compact_io where
  "ex_cio = \<lparr>sweep_names = [], sweep_ok = (\<lambda>_. True), dir_names = map (store_path ''/d'') ex_store,
     write_of = (\<lambda>_. ex_io), sync_ok = (\<lambda>_. True), rename_ok = (\<lambda>_. True), open_ok = (\<lambda>_. (True, True)),
     injected = (\<lambda>_ _. False), cleanup_ok = (\<lambda>_. True), remove_ok = (\<lambda>_. True)\<rparr>"

lemma ex_fp_sane: "fp_sane (\<lambda>n. 10 * n)"
  by (simp add: fp_sane_def)

lemma ex_store_ok: "store_ok (\<lambda>n. 10 * n) ex_store"
proof -
  have "table_ok (\<lambda>n. 10 * n) b" if "b \<in> set (map snd ex_store)" for b
    by (rule writable_table_ok [OF _ ex_fp_sane])
       (use that in \<open>auto simp: ex_store_def writable_def entry_ok_def l1_max_file_entries_def\<close>)
  then show ?thesis by (auto simp: store_ok_def ex_store_def load_key_def less_prod_def)
qed

lemma ex_paths_distinct: "distinct (map (store_path ''/d'') ex_store)"
proof -
  have "distinct ex_store" by (simp add: ex_store_def)
  then show ?thesis using store_path_inj [OF ex_store_ok] by (simp only: distinct_map)
qed

lemma ex_on_disk: "on_disk (\<lambda>n. 10 * n) ''/d'' ex_dir ex_store"
proof -
  have "ex_dir (store_path ''/d'' x) = Some (table_bytes (\<lambda>n. 10 * n) (snd x))" if "x \<in> set ex_store" for x
    unfolding ex_dir_def using that ex_paths_distinct by (intro map_of_is_SomeI) (auto simp: o_def)
  moreover have "dom ex_dir = store_path ''/d'' ` set ex_store"
    unfolding ex_dir_def by (simp add: dom_map_of_conv_image_fst image_image)
  ultimately show ?thesis using ex_store_ok unfolding on_disk_def by blast
qed

lemma ex_lists: "lists_dir ''/d'' ex_dir (dir_names ex_cio)"
proof -
  have "dom ex_dir = store_path ''/d'' ` set ex_store"
    unfolding ex_dir_def by (simp add: dom_map_of_conv_image_fst image_image)
  moreover have "in_dir ''/d'' (store_path ''/d'' x)" for x by simp
  ultimately show ?thesis using ex_paths_distinct by (auto simp: lists_dir_def ex_cio_def)
qed

lemma ex_start: "l1_start ex_cio (store_tables (\<lambda>n. 10 * n) ''/d'' ex_store) = Some 0"
  by (simp add: l1_start_def l1_paths_def store_tables_def ex_store_def ex_cio_def sst_path_parts sst_name_def)

lemma ex_outputs: "outputs ex_store = [[([97], Some [3])]]"
  by code_simp


lemma finite_dom_run: "finite (dom f) \<Longrightarrow> finite (dom (run_ops ops f))"
proof (induction ops arbitrary: f)
  case (Cons x ops)
  have "finite (dom (apply_op x f))" using Cons.prems by (cases x) (auto split: option.splits)
  then show ?case using Cons.IH by simp
qed simp

lemma lists_dir_exists: "finite (dom f) \<Longrightarrow> \<exists>names. lists_dir d f names"
  using finite_distinct_list [of "{p \<in> dom f. in_dir d p}"] by (auto simp: lists_dir_def)

theorem compact_crash_safe_witness:
  "\<exists>ops r c' names st'. compact_run (\<lambda>n. 10 * n) ex_cio ''/d'' ex_dir (store_tables (\<lambda>n. 10 * n) ''/d'' ex_store) 4 globalInstance = Some (ops, r, c')
     \<and> loadSSTables (\<lambda>_. (True, True)) names (run_ops ops ex_dir) = Inr (store_tables (\<lambda>n. 10 * n) ''/d'' st', next_counter st')
     \<and> live (look (map snd st') [107]) = None \<and> live (look (map snd st') [97]) = Some [3]"
proof -
  have sw: "run_ops (sweep ex_cio) ex_dir = ex_dir" by (simp add: sweep_def ex_cio_def)
  have coh: "cache_coherent (store_blocks ''/d'' ex_store) globalInstance"
    by (simp add: lru.coherent_def globalInstance_def mk_cache_def cache_ok_def cache_view_def node_refs_def total_bytes_def)
  obtain ops r c' where r: "compact_run (\<lambda>n. 10 * n) ex_cio ''/d'' ex_dir (store_tables (\<lambda>n. 10 * n) ''/d'' ex_store) 4 globalInstance = Some (ops, r, c')"
    using compact_run_spec [OF ex_on_disk ex_fp_sane _ ex_start _ _ coh, of 4] sw ex_lists ex_outputs by (auto simp: ex_cio_def)
  have cr: "run_ops ops ex_dir \<in> crash_states ops ex_dir" by (auto simp: crash_states_def)
  have "finite (dom ex_dir)" by (simp add: ex_dir_def finite_dom_map_of)
  then obtain names where names: "lists_dir ''/d'' (run_ops ops ex_dir) names"
    using lists_dir_exists [OF finite_dom_run] by blast
  obtain st' where st': "loadSSTables (\<lambda>_. (True, True)) names (run_ops ops ex_dir) = Inr (store_tables (\<lambda>n. 10 * n) ''/d'' st', next_counter st')"
      "\<forall>k. live (look (map snd st') k) = live (look (map snd ex_store) k)"
    using compact_crash_safe [OF ex_on_disk ex_fp_sane _ ex_start _ _ coh r cr names] sw ex_lists ex_outputs by (auto simp: ex_cio_def)
  have "live (look (map snd ex_store) [107]) = None" "live (look (map snd ex_store) [97]) = Some [3]"
    by (simp_all add: ex_store_def map_add_def)
  with st'(2) have "live (look (map snd st') [107]) = None" "live (look (map snd st') [97]) = Some [3]" by simp_all
  then show ?thesis using r st'(1) by blast
qed

end
