(* ===== verification/WalWriter.thy ===== *)
theory WalWriter
  imports WalFormat
begin

text \<open>
  The writer of the log (src/wal/wal_writer.cpp): submission of records through an io_uring, harvesting
  of completions with retry of cancelled requests, draining, and clearing the log.

  The ring is modelled by its documented contract: requests wait in the submission queue (8 slots),
  \<open>io_uring_submit\<close> moves them to the kernel or fails and leaves them queued, and the kernel completes
  what it holds in any order with any result. What the kernel decides is an argument: one \<open>cqe_ev\<close> per
  completion delivered to \<open>reap\<close> (which request, its result, how many of its bytes reached the file, and the
  outcome of the submission a retry makes). A result \<open>None\<close> is no behaviour of the code: an event that
  names no request, or a wait that has not returned.

  The main invariant \<open>log_inv\<close> says where every record of the current log is: in flight with its buffer
  intact, or complete at its offset, unless a failure is recorded. So once the writer has drained without
  a failure the file is exactly the records in the order they were appended.
\<close>

section \<open>State\<close>

datatype durability = Async | Durable

record ticket =
  tk_epoch :: nat
  tk_end :: nat

record pending_write =
  pw_buf :: bytes
  pw_offset :: nat
  pw_attempts :: nat

text \<open>A submission queue entry: where it writes what, and its tag, a reference to a \<open>PendingWrite\<close>.\<close>

record sqe =
  sq_offset :: nat
  sq_buf :: bytes
  sq_data :: "nat option"

datatype wal_failure =
    WriteCancelled nat nat
  | CqeFailed int
  | ShortWrite nat nat
  | ResubmitFailed int nat
  | DrainFailed int

record wal =
  wl_durability :: durability
  wl_fd :: bool
  wl_write_offset :: nat
  wl_ring_ready :: bool
  wl_failure :: "wal_failure option"
  wl_pending_cqes :: nat
  wl_epoch :: nat
  wl_durable_end :: nat
  wl_sync_in_progress :: bool
  wl_sync_calls :: nat
  wl_cancel_retries :: nat
  wl_sq :: "sqe list"
  wl_flight :: "sqe list"
  wl_heap :: "nat \<rightharpoonup> pending_write"
  wl_next :: nat
  wl_file :: bytes

datatype wal_error =
    RefusingToWrite wal_failure
  | FieldTooLong
  | MemalignFailed
  | SubmitFailedDraining int
  | QueueFull
  | SubmitFailed int
  | LogCannotOpen
  | LogCannotStat
  | RingInitFailed
  | RemoveFailed
  | InjectedAt string
  | SyncFailed
  | LogFailed wal_failure

definition kMaxWriteAttempts :: nat where
  "kMaxWriteAttempts = 6"

abbreviation ring_entries :: nat where
  "ring_entries \<equiv> 8"

abbreviation EINTR :: int where
  "EINTR \<equiv> 4"

abbreviation EIO :: int where
  "EIO \<equiv> 5"

abbreviation ECANCELED :: int where
  "ECANCELED \<equiv> 125"

section \<open>The ring and the file\<close>

text \<open>\<open>pwrite\<close> at an offset: a gap reads as zeros.\<close>

definition write_at :: "nat \<Rightarrow> bytes \<Rightarrow> bytes \<Rightarrow> bytes" where
  "write_at off bs f =
     (if bs = [] then f
      else take off f @ replicate (off - length f) 0 @ bs @ drop (off + length bs) f)"

text \<open>\<open>io_uring_submit\<close> with result \<open>n\<close>.\<close>

definition io_submit :: "int \<Rightarrow> wal \<Rightarrow> wal" where
  "io_submit n w =
     (if n < 0 then w
      else w\<lparr>wl_sq := drop (nat n) (wl_sq w), wl_flight := wl_flight w @ take (nat n) (wl_sq w)\<rparr>)"

record cqe_ev =
  ev_index :: nat
  ev_res :: int
  ev_landed :: nat
  ev_submit :: int
  ev_cqe_error :: bool
  ev_short_write :: bool
  ev_cqe_cancel :: bool

definition remove_nth :: "nat \<Rightarrow> 'a list \<Rightarrow> 'a list" where
  "remove_nth i xs = take i xs @ drop (Suc i) xs"

section \<open>Completions\<close>

definition recordFailure :: "wal_failure \<Rightarrow> wal \<Rightarrow> wal" where
  "recordFailure detail w = (if wl_failure w = None then w\<lparr>wl_failure := Some detail\<rparr> else w)"

definition count_down :: "wal \<Rightarrow> wal" where
  "count_down w = (if wl_pending_cqes w > 0 then w\<lparr>wl_pending_cqes := wl_pending_cqes w - 1\<rparr> else w)"

text \<open>The result 1, 0 or -1 of \<open>resubmit\<close>; \<open>pid\<close> refers to the pending write \<open>p\<close>.\<close>

definition resubmit :: "int \<Rightarrow> nat \<Rightarrow> pending_write \<Rightarrow> wal \<Rightarrow> int \<times> wal" where
  "resubmit submitted pid p w =
     (if length (wl_sq w) \<ge> ring_entries then (0, w)
      else
        (let p = p\<lparr>pw_attempts := pw_attempts p + 1\<rparr>;
             w = w\<lparr>wl_heap := (wl_heap w)(pid \<mapsto> p)\<rparr>;
             sqe = \<lparr>sq_offset = pw_offset p, sq_buf = pw_buf p, sq_data = Some pid\<rparr>
         in if submitted < 0
            then (-1, recordFailure (ResubmitFailed (- submitted) (pw_offset p))
                        (w\<lparr>wl_sq := wl_sq w @ [sqe\<lparr>sq_data := None\<rparr>]\<rparr>))
            else (1, io_submit submitted (w\<lparr>wl_sq := wl_sq w @ [sqe]\<rparr>))))"

definition free_pending :: "nat \<Rightarrow> wal \<Rightarrow> wal" where
  "free_pending pid w = w\<lparr>wl_heap := (wl_heap w)(pid := None)\<rparr>"

definition final_result :: "nat \<Rightarrow> pending_write \<Rightarrow> int \<Rightarrow> wal \<Rightarrow> wal" where
  "final_result pid p res w =
     (let w = (if res < 0 then recordFailure (CqeFailed (- res)) w
               else if nat res < length (pw_buf p) then recordFailure (ShortWrite (nat res) (length (pw_buf p))) w
               else w)
      in count_down (free_pending pid w))"

text \<open>The body of the loop of \<open>reap\<close> for one completion of a tagged request.\<close>

definition complete :: "cqe_ev \<Rightarrow> nat \<Rightarrow> pending_write \<Rightarrow> wal \<Rightarrow> wal" where
  "complete ev pid p w =
     (let res = ev_res ev;
          res = (if ev_cqe_error ev then - EIO else res);
          res = (if ev_short_write ev then int (length (pw_buf p) div 2) else res);
          res = (if ev_cqe_cancel ev then - ECANCELED else res);
          give_up = (\<lambda>p w. count_down (free_pending pid (recordFailure (WriteCancelled (pw_attempts p) (pw_offset p)) w)))
      in if res = - ECANCELED
         then
           (if pw_attempts p < kMaxWriteAttempts
            then
              (case resubmit (ev_submit ev) pid p w of (r, w) \<Rightarrow>
               let w = w\<lparr>wl_cancel_retries := wl_cancel_retries w + 1\<rparr>
               in if r = 1 then w
                  else if r < 0 then count_down w
                  else give_up p w)
            else give_up p w)
         else final_result pid p res w)"

text \<open>The kernel's part of a completion: the request leaves the kernel and some of its bytes have landed.\<close>

definition land :: "cqe_ev \<Rightarrow> sqe \<Rightarrow> wal \<Rightarrow> wal" where
  "land ev q w = w\<lparr>wl_flight := remove_nth (ev_index ev) (wl_flight w),
                   wl_file := write_at (sq_offset q) (take (ev_landed ev) (sq_buf q)) (wl_file w)\<rparr>"

fun reap :: "cqe_ev list \<Rightarrow> wal \<Rightarrow> wal option" where
  "reap [] w = Some w"
| "reap (ev # evs) w =
     (if ev_index ev \<ge> length (wl_flight w) then None
      else
        (let q = wl_flight w ! ev_index ev; w = land ev q w in
         case sq_data q of
           None \<Rightarrow> reap evs (count_down w)
         | Some pid \<Rightarrow>
             (case wl_heap w pid of
                None \<Rightarrow> None
              | Some p \<Rightarrow> reap evs (complete ev pid p w))))"

text \<open>\<open>drain\<close>: the completions found first, then one pair per \<open>io_uring_wait_cqe_timeout\<close>: its result and the
  completions reaped after it.\<close>

fun drain_loop :: "(int \<times> cqe_ev list) list \<Rightarrow> wal \<Rightarrow> wal option" where
  "drain_loop [] w = (if wl_pending_cqes w > 0 \<and> wl_ring_ready w then None else Some w)"
| "drain_loop ((ret, evs) # waits) w =
     (if wl_pending_cqes w > 0 \<and> wl_ring_ready w
      then (if ret = - EINTR then drain_loop waits w
            else if ret < 0 then Some (recordFailure (DrainFailed (- ret)) w)
            else Option.bind (reap evs w) (drain_loop waits))
      else Some w)"

type_synonym drain_env = "cqe_ev list \<times> (int \<times> cqe_ev list) list"

definition drain :: "drain_env \<Rightarrow> wal \<Rightarrow> wal option" where
  "drain env w = Option.bind (reap (fst env) w) (drain_loop (snd env))"

section \<open>Appending\<close>

record append_env =
  ae_before :: bool
  ae_memalign :: bool
  ae_flush :: int
  ae_flush_reap :: "cqe_ev list"
  ae_submit :: int
  ae_reap :: "cqe_ev list"
  ae_after :: bool

text \<open>Everything after the buffer is built and a queue slot is held.\<close>

definition submit_record :: "append_env \<Rightarrow> bytes \<Rightarrow> wal \<Rightarrow> ((wal_error + ticket) \<times> wal) option" where
  "submit_record env buf w =
     (let offset = wl_write_offset w;
          pid = wl_next w;
          sqe = \<lparr>sq_offset = offset, sq_buf = buf, sq_data = Some pid\<rparr>;
          w = w\<lparr>wl_write_offset := offset + length buf, wl_next := pid + 1,
                wl_heap := (wl_heap w)(pid \<mapsto> \<lparr>pw_buf = buf, pw_offset = offset, pw_attempts = 1\<rparr>)\<rparr>;
          submitted = ae_submit env
      in if submitted < 0
         then Some (Inl (SubmitFailed (- submitted)), w\<lparr>wl_sq := wl_sq w @ [sqe\<lparr>sq_data := None\<rparr>]\<rparr>)
         else
           (let w = io_submit submitted (w\<lparr>wl_sq := wl_sq w @ [sqe]\<rparr>);
                w = w\<lparr>wl_pending_cqes := wl_pending_cqes w + nat submitted\<rparr>
            in case reap (ae_reap env) w of
                 None \<Rightarrow> None
               | Some w \<Rightarrow>
                   if ae_after env then Some (Inl (InjectedAt ''wal.after_append''), w)
                   else Some (Inr \<lparr>tk_epoch = wl_epoch w, tk_end = wl_write_offset w\<rparr>, w)))"

definition wal_writeEntry :: "append_env \<Rightarrow> etype \<Rightarrow> bytes \<Rightarrow> bytes \<Rightarrow> wal \<Rightarrow> ((wal_error + ticket) \<times> wal) option" where
  "wal_writeEntry env type key value w =
     (case wl_failure w of
        Some f \<Rightarrow> Some (Inl (RefusingToWrite f), w)
      | None \<Rightarrow>
          if length key > uint32_max \<or> length value > uint32_max then Some (Inl FieldTooLong, w)
          else if ae_before env then Some (Inl (InjectedAt ''wal.before_append''), w)
          else if \<not> ae_memalign env then Some (Inl MemalignFailed, w)
          else
            (let buf = encode_record (type_byte type) key value in
             if length (wl_sq w) < ring_entries then submit_record env buf w
             else if ae_flush env < 0 then Some (Inl (SubmitFailedDraining (- ae_flush env)), w)
             else
               (let w = io_submit (ae_flush env) w;
                    w = w\<lparr>wl_pending_cqes := wl_pending_cqes w + nat (ae_flush env)\<rparr>
                in case reap (ae_flush_reap env) w of
                     None \<Rightarrow> None
                   | Some w \<Rightarrow>
                       if length (wl_sq w) < ring_entries then submit_record env buf w
                       else Some (Inl QueueFull, w))))"

definition appendPut :: "append_env \<Rightarrow> bytes \<Rightarrow> bytes \<Rightarrow> wal \<Rightarrow> ((wal_error + ticket) \<times> wal) option" where
  "appendPut env key value w = wal_writeEntry env PUT key value w"

definition appendDel :: "append_env \<Rightarrow> bytes \<Rightarrow> wal \<Rightarrow> ((wal_error + ticket) \<times> wal) option" where
  "appendDel env key w = wal_writeEntry env DEL key [] w"

section \<open>Opening, clearing, closing\<close>

record open_env =
  oe_open :: bool
  oe_stat :: bool
  oe_ring :: bool

text \<open>The constructor, on a log with the given contents (empty when the file is created).\<close>

definition mk_wal :: "open_env \<Rightarrow> durability \<Rightarrow> bytes \<Rightarrow> wal_error + wal" where
  "mk_wal env dur file =
     (if \<not> oe_open env then Inl LogCannotOpen
      else if \<not> oe_stat env then Inl LogCannotStat
      else if \<not> oe_ring env then Inl RingInitFailed
      else Inr \<lparr>wl_durability = dur, wl_fd = True, wl_write_offset = length file, wl_ring_ready = True,
                wl_failure = None, wl_pending_cqes = 0, wl_epoch = 0, wl_durable_end = 0,
                wl_sync_in_progress = False, wl_sync_calls = 0, wl_cancel_retries = 0,
                wl_sq = [], wl_flight = [], wl_heap = Map.empty, wl_next = 0, wl_file = file\<rparr>)"

record clear_env =
  ce_drain :: drain_env
  ce_remove :: bool
  ce_open :: bool
  ce_ring :: bool

text \<open>\<open>clear\<close> after its wait for the group-commit leader. Exiting the ring abandons what the kernel still holds.\<close>

definition wal_clear :: "clear_env \<Rightarrow> wal \<Rightarrow> (wal_error option \<times> wal) option" where
  "wal_clear env w =
     (if wl_sync_in_progress w then None
      else
        (case drain (ce_drain env) (w\<lparr>wl_durable_end := 0, wl_epoch := wl_epoch w + 1\<rparr>) of
           None \<Rightarrow> None
         | Some w \<Rightarrow>
             (let w = w\<lparr>wl_ring_ready := False, wl_sq := [], wl_flight := [], wl_fd := False\<rparr> in
              if \<not> ce_remove env then Some (Some RemoveFailed, w)
              else if \<not> ce_open env then Some (Some LogCannotOpen, w\<lparr>wl_file := []\<rparr>)
              else
                (let w = w\<lparr>wl_fd := True, wl_file := [], wl_write_offset := 0\<rparr> in
                 if \<not> ce_ring env then Some (Some RingInitFailed, w\<lparr>wl_fd := False\<rparr>)
                 else Some (None, w\<lparr>wl_ring_ready := True, wl_pending_cqes := 0, wl_failure := None\<rparr>)))))"

text \<open>The destructor leaves the file with what had landed when it returned.\<close>

definition destroy_wal :: "drain_env \<Rightarrow> wal \<Rightarrow> bytes option" where
  "destroy_wal env w = map_option wl_file (drain env w)"

section \<open>Bytes at an offset\<close>

definition holds_at :: "nat \<Rightarrow> bytes \<Rightarrow> bytes \<Rightarrow> bool" where
  "holds_at off bs f \<longleftrightarrow> off + length bs \<le> length f \<and> (\<forall>j < length bs. f ! (off + j) = bs ! j)"

lemma length_write_at: "length (write_at off bs f) = (if bs = [] then length f else max (length f) (off + length bs))"
  by (auto simp: write_at_def)

lemma nth_write_at:
  assumes "i < length (write_at off bs f)"
  shows "write_at off bs f ! i =
    (if off \<le> i \<and> i < off + length bs then bs ! (i - off) else if i < length f then f ! i else 0)"
proof (cases "bs = []")
  case True
  then show ?thesis using assms by (auto simp: write_at_def)
next
  case False
  have "length (take off f @ replicate (off - length f) (0 :: byte)) = off" by simp
  then show ?thesis
    using False assms by (auto simp: write_at_def nth_append min_def add.commute)
qed

lemma holds_at_write_other:
  assumes "holds_at a xs f" "a + length xs \<le> off \<or> off + length bs \<le> a"
  shows "holds_at a xs (write_at off bs f)"
  using assms by (auto simp: holds_at_def length_write_at nth_write_at)

lemma holds_at_write_self: "bs \<noteq> [] \<Longrightarrow> holds_at off bs (write_at off bs f)"
  by (auto simp: holds_at_def length_write_at nth_write_at)

lemma holds_at_append: "holds_at off (xs @ ys) f \<longleftrightarrow> holds_at off xs f \<and> holds_at (off + length xs) ys f"
proof -
  have "(\<forall>j < length xs + length ys. f ! (off + j) = (xs @ ys) ! j) \<longleftrightarrow>
      (\<forall>j < length xs. f ! (off + j) = xs ! j) \<and> (\<forall>j < length ys. f ! (off + length xs + j) = ys ! j)"
    (is "?l \<longleftrightarrow> ?r")
  proof
    assume l: ?l
    have "f ! (off + length xs + j) = ys ! j" if "j < length ys" for j
      using l [rule_format, of "length xs + j"] that by (simp add: add.assoc)
    then show ?r using l by (auto simp: nth_append)
  next
    assume r: ?r
    show ?l
    proof (intro allI impI)
      fix j assume j: "j < length xs + length ys"
      show "f ! (off + j) = (xs @ ys) ! j"
      proof (cases "j < length xs")
        case False
        then show ?thesis using r j conjunct2 [OF r, rule_format, of "j - length xs"] by (simp add: nth_append add.assoc)
      qed (use r in \<open>simp add: nth_append\<close>)
    qed
  qed
  then show ?thesis by (auto simp: holds_at_def)
qed

lemma holds_at_0: "holds_at 0 bs f \<Longrightarrow> length f \<le> length bs \<Longrightarrow> f = bs"
  by (rule nth_equalityI) (auto simp: holds_at_def)

section \<open>Where the records are\<close>

text \<open>The log started as \<open>pre\<close>; since then the records \<open>bufs\<close> were appended.\<close>

definition rec_off :: "bytes \<Rightarrow> bytes list \<Rightarrow> nat \<Rightarrow> nat" where
  "rec_off pre bufs i = length pre + length (concat (take i bufs))"

definition placed :: "bytes \<Rightarrow> bytes list \<Rightarrow> nat \<Rightarrow> bytes \<Rightarrow> bool" where
  "placed pre bufs off buf \<longleftrightarrow> (\<exists>i < length bufs. off = rec_off pre bufs i \<and> buf = bufs ! i)"

definition tag_ok :: "wal \<Rightarrow> sqe \<Rightarrow> bool" where
  "tag_ok w q \<longleftrightarrow> (\<forall>pid. sq_data q = Some pid \<longrightarrow> pid < wl_next w
     \<and> (\<exists>p. wl_heap w pid = Some p \<and> pw_buf p = sq_buf q \<and> pw_offset p = sq_offset q))"

abbreviation requests :: "wal \<Rightarrow> sqe list" where
  "requests w \<equiv> wl_flight w @ wl_sq w"

definition tags :: "sqe list \<Rightarrow> nat list" where
  "tags qs = List.map_filter sq_data qs"

text \<open>What always holds, failures or not.\<close>

definition ring_inv :: "bytes \<Rightarrow> bytes list \<Rightarrow> wal \<Rightarrow> bool" where
  "ring_inv pre bufs w \<longleftrightarrow> holds_at 0 pre (wl_file w) \<and> wl_write_offset w = length pre + length (concat bufs)
     \<and> length (wl_file w) \<le> wl_write_offset w \<and> [] \<notin> set bufs
     \<and> (\<forall>q \<in> set (requests w). placed pre bufs (sq_offset q) (sq_buf q) \<and> tag_ok w q) \<and> distinct (tags (requests w))"

text \<open>What holds as long as no failure is recorded: every record is in flight or complete.\<close>

definition all_there :: "bytes \<Rightarrow> bytes list \<Rightarrow> wal \<Rightarrow> bool" where
  "all_there pre bufs w \<longleftrightarrow> wl_sq w = [] \<and> wl_pending_cqes w = length (wl_flight w)
     \<and> (\<forall>q \<in> set (wl_flight w). sq_data q \<noteq> None)
     \<and> (\<forall>i < length bufs. (\<exists>q \<in> set (wl_flight w). sq_offset q = rec_off pre bufs i)
          \<or> holds_at (rec_off pre bufs i) (bufs ! i) (wl_file w))"

definition log_inv :: "bytes \<Rightarrow> bytes list \<Rightarrow> wal \<Rightarrow> bool" where
  "log_inv pre bufs w \<longleftrightarrow> ring_inv pre bufs w \<and> (wl_failure w = None \<longrightarrow> all_there pre bufs w)"

text \<open>The kernel's promise: a completion's non-negative result is how many bytes were written, and a
  submission that succeeds submits.\<close>

definition ev_lawful :: "cqe_ev \<Rightarrow> bool" where
  "ev_lawful ev \<longleftrightarrow> (ev_res ev \<ge> 0 \<longrightarrow> nat (ev_res ev) \<le> ev_landed ev) \<and> (ev_submit ev < 0 \<or> ev_submit ev \<ge> 1)"

lemma rec_off_Suc: "i < length bufs \<Longrightarrow> rec_off pre bufs (Suc i) = rec_off pre bufs i + length (bufs ! i)"
  by (simp add: rec_off_def take_Suc_conv_app_nth)

lemma rec_off_mono: "i \<le> j \<Longrightarrow> rec_off pre bufs i \<le> rec_off pre bufs j"
  by (auto simp: rec_off_def le_iff_add take_add)

lemma rec_off_disjoint:
  assumes "i < length bufs" "j < length bufs" "i \<noteq> j"
  shows "rec_off pre bufs i + length (bufs ! i) \<le> rec_off pre bufs j \<or> rec_off pre bufs j + length (bufs ! j) \<le> rec_off pre bufs i"
proof (cases "i < j")
  case True
  then show ?thesis using rec_off_mono [of "Suc i" j pre bufs] rec_off_Suc [OF assms(1)] by simp
next
  case False
  then show ?thesis using rec_off_mono [of "Suc j" i pre bufs] rec_off_Suc [OF assms(2)] assms(3) by simp
qed

lemma rec_off_inject:
  assumes "[] \<notin> set bufs" "i < length bufs" "j < length bufs" "rec_off pre bufs i = rec_off pre bufs j"
  shows "i = j"
proof -
  have "bufs ! i \<noteq> []" "bufs ! j \<noteq> []" using assms(1-3) by (metis nth_mem)+
  then show ?thesis using rec_off_disjoint [OF assms(2,3), of pre] assms(4) by (cases "i = j") auto
qed

lemma rec_off_bounds:
  assumes "i < length bufs"
  shows "length pre \<le> rec_off pre bufs i" "rec_off pre bufs i + length (bufs ! i) \<le> length pre + length (concat bufs)"
  using rec_off_mono [of "Suc i" "length bufs" pre bufs] assms by (simp_all add: rec_off_def take_Suc_conv_app_nth)

text \<open>When everything is complete the file is the records in order.\<close>

lemma all_complete:
  assumes "ring_inv pre bufs w" "\<forall>i < length bufs. holds_at (rec_off pre bufs i) (bufs ! i) (wl_file w)"
  shows "wl_file w = pre @ concat bufs"
proof -
  have "holds_at (length pre) (concat (take n bufs)) (wl_file w)" if "n \<le> length bufs" for n
    using that
  proof (induction n)
    case (Suc n)
    then show ?case using assms(2) by (simp add: take_Suc_conv_app_nth holds_at_append rec_off_def)
  qed (use assms(1) in \<open>simp add: ring_inv_def holds_at_def\<close>)
  from this [of "length bufs"] have "holds_at 0 (pre @ concat bufs) (wl_file w)"
    using assms(1) by (simp add: holds_at_append ring_inv_def)
  then show ?thesis using assms(1) by (intro holds_at_0) (simp_all add: ring_inv_def)
qed

section \<open>Completions keep the invariant\<close>

lemma tag_ok_upd [simp]:
  "tag_ok (w\<lparr>wl_pending_cqes := n\<rparr>) q = tag_ok w q" "tag_ok (w\<lparr>wl_failure := f\<rparr>) q = tag_ok w q"
  "tag_ok (w\<lparr>wl_cancel_retries := n\<rparr>) q = tag_ok w q" "tag_ok (w\<lparr>wl_epoch := n\<rparr>) q = tag_ok w q"
  "tag_ok (w\<lparr>wl_durable_end := n\<rparr>) q = tag_ok w q" "tag_ok (w\<lparr>wl_sync_in_progress := b\<rparr>) q = tag_ok w q"
  "tag_ok (w\<lparr>wl_sync_calls := n\<rparr>) q = tag_ok w q" "tag_ok (w\<lparr>wl_sq := qs\<rparr>) q = tag_ok w q"
  "tag_ok (w\<lparr>wl_flight := qs\<rparr>) q = tag_ok w q" "tag_ok (w\<lparr>wl_file := g\<rparr>) q = tag_ok w q"
  by (simp_all add: tag_ok_def)

lemma ring_inv_upd [simp]:
  "ring_inv pre bufs (w\<lparr>wl_pending_cqes := n\<rparr>) = ring_inv pre bufs w" "ring_inv pre bufs (w\<lparr>wl_failure := f\<rparr>) = ring_inv pre bufs w"
  "ring_inv pre bufs (w\<lparr>wl_cancel_retries := n\<rparr>) = ring_inv pre bufs w" "ring_inv pre bufs (w\<lparr>wl_epoch := n\<rparr>) = ring_inv pre bufs w"
  "ring_inv pre bufs (w\<lparr>wl_durable_end := n\<rparr>) = ring_inv pre bufs w"
  "ring_inv pre bufs (w\<lparr>wl_sync_in_progress := b\<rparr>) = ring_inv pre bufs w" "ring_inv pre bufs (w\<lparr>wl_sync_calls := n\<rparr>) = ring_inv pre bufs w"
  by (simp_all add: ring_inv_def)

lemma ring_inv_simps [simp]:
  "ring_inv pre bufs (recordFailure f w) = ring_inv pre bufs w" "ring_inv pre bufs (count_down w) = ring_inv pre bufs w"
  by (simp_all add: recordFailure_def count_down_def)

lemma failure_simps [simp]:
  "wl_failure (recordFailure f w) = Some (case wl_failure w of None \<Rightarrow> f | Some g \<Rightarrow> g)" "wl_failure (count_down w) = wl_failure w" "wl_failure (free_pending pid w) = wl_failure w"
  by (auto simp: recordFailure_def count_down_def free_pending_def split: option.splits)

lemma remove_nth_split:
  assumes "i < length xs"
  shows "xs = take i xs @ xs ! i # drop (Suc i) xs" "set (remove_nth i xs) \<subseteq> set xs" "length (remove_nth i xs) = length xs - 1"
  using assms by (auto simp: remove_nth_def id_take_nth_drop dest: in_set_takeD in_set_dropD)

lemma tags_append [simp]: "tags (xs @ ys) = tags xs @ tags ys" "tags [] = []"
  "tags (q # qs) = (case sq_data q of None \<Rightarrow> tags qs | Some pid \<Rightarrow> pid # tags qs)"
  by (simp_all add: tags_def map_filter_def split: option.splits)

lemma tag_in: "q \<in> set qs \<Longrightarrow> sq_data q = Some pid \<Longrightarrow> pid \<in> set (tags qs)"
  by (induction qs) (auto split: option.splits)

text \<open>The kernel's part.\<close>

lemma land_ring_inv:
  assumes inv: "ring_inv pre bufs w" and i: "ev_index ev < length (wl_flight w)" and q: "q = wl_flight w ! ev_index ev"
  shows "ring_inv pre bufs (land ev q w)" "placed pre bufs (sq_offset q) (sq_buf q)" "tag_ok w q"
    and "sq_data q = Some pid \<Longrightarrow> pid \<notin> set (tags (requests (land ev q w)))"
    and "\<lbrakk>j < length bufs; rec_off pre bufs j \<noteq> sq_offset q; holds_at (rec_off pre bufs j) (bufs ! j) (wl_file w)\<rbrakk>
      \<Longrightarrow> holds_at (rec_off pre bufs j) (bufs ! j) (wl_file (land ev q w))"
proof -
  note sp = remove_nth_split [OF i]
  have q_in: "q \<in> set (requests w)" using i q by simp
  then show pl: "placed pre bufs (sq_offset q) (sq_buf q)" "tag_ok w q" using inv unfolding ring_inv_def by blast+
  obtain k where k: "k < length bufs" "sq_offset q = rec_off pre bufs k" "sq_buf q = bufs ! k"
    using pl(1) by (auto simp: placed_def)
  have len: "length (take n (sq_buf q)) \<le> length (bufs ! k)" for n using k by simp
  note b = rec_off_bounds [OF k(1), of pre]
  have pre: "holds_at 0 pre (wl_file (land ev q w))"
    using inv b(1) k by (auto simp: land_def ring_inv_def intro: holds_at_write_other)
  have "length (wl_file (land ev q w)) \<le> wl_write_offset w"
    using inv b(2) k by (auto simp: land_def length_write_at ring_inv_def)
  moreover have sub: "set (requests (land ev q w)) \<subseteq> set (requests w)" using sp(2) by (auto simp: land_def)
  have eq: "requests w = take (ev_index ev) (wl_flight w) @ q # drop (Suc (ev_index ev)) (wl_flight w) @ wl_sq w"
    using sp(1) q by simp
  have d: "distinct (tags (requests w))" using inv by (simp add: ring_inv_def)
  have req': "requests (land ev q w) = take (ev_index ev) (wl_flight w) @ drop (Suc (ev_index ev)) (wl_flight w) @ wl_sq w"
    by (simp add: land_def remove_nth_def)
  have d': "distinct (tags (requests (land ev q w)))" using d unfolding eq req' by (auto split: option.splits)
  have ok: "tag_ok (land ev q w) r = tag_ok w r" for r by (simp add: land_def)
  have sel: "wl_write_offset (land ev q w) = wl_write_offset w" by (simp add: land_def)
  ultimately show "ring_inv pre bufs (land ev q w)"
    using inv pre d' sub unfolding ring_inv_def ok sel by blast
  show "pid \<notin> set (tags (requests (land ev q w)))" if "sq_data q = Some pid"
    using d that unfolding eq req' by auto
  show "holds_at (rec_off pre bufs j) (bufs ! j) (wl_file (land ev q w))"
    if "j < length bufs" "rec_off pre bufs j \<noteq> sq_offset q" "holds_at (rec_off pre bufs j) (bufs ! j) (wl_file w)"
  proof -
    have "j \<noteq> k" using that(2) k(2) by auto
    from rec_off_disjoint [OF that(1) k(1) this, of pre] show ?thesis
      using that(3) k len [of "ev_landed ev"] by (auto simp: land_def intro!: holds_at_write_other)
  qed
qed

lemma ring_inv_free:
  assumes "ring_inv pre bufs w" "pid \<notin> set (tags (requests w))"
  shows "ring_inv pre bufs (free_pending pid w)"
proof -
  have "tag_ok (free_pending pid w) q" if "q \<in> set (requests w)" "tag_ok w q" for q
    using that tag_in [OF that(1)] assms(2) by (auto simp: tag_ok_def free_pending_def)
  then show ?thesis using assms(1) by (auto simp: ring_inv_def free_pending_def)
qed

text \<open>Queueing a request for a record again, with its tag, and submitting.\<close>

lemma ring_inv_queue:
  assumes inv: "ring_inv pre bufs w" and new: "\<forall>pid. sq_data q = Some pid \<longrightarrow> pid \<notin> set (tags (requests w))"
    and q: "placed pre bufs (sq_offset q) (sq_buf q)" "tag_ok w q"
  shows "ring_inv pre bufs (w\<lparr>wl_sq := wl_sq w @ [q]\<rparr>)"
  using assms by (auto simp: ring_inv_def split: option.splits)

lemma ring_inv_submit: "ring_inv pre bufs w \<Longrightarrow> ring_inv pre bufs (io_submit n w)"
proof -
  assume inv: "ring_inv pre bufs w"
  have "requests (w\<lparr>wl_sq := drop k (wl_sq w), wl_flight := wl_flight w @ take k (wl_sq w)\<rparr>) = requests w" for k by simp
  then show ?thesis using inv unfolding ring_inv_def io_submit_def by (cases "n < 0") auto
qed

lemma ring_inv_heap:
  assumes "ring_inv pre bufs w" "pid \<notin> set (tags (requests w))"
  shows "ring_inv pre bufs (w\<lparr>wl_heap := (wl_heap w)(pid := x)\<rparr>)"
proof -
  have "tag_ok (w\<lparr>wl_heap := (wl_heap w)(pid := x)\<rparr>) q" if "q \<in> set (requests w)" "tag_ok w q" for q
    using that tag_in [OF that(1)] assms(2) by (auto simp: tag_ok_def)
  then show ?thesis using assms(1) by (auto simp: ring_inv_def)
qed

lemma there_others:
  assumes inv: "ring_inv pre bufs w" and th: "all_there pre bufs w" and i: "ev_index ev < length (wl_flight w)"
    and q: "q = wl_flight w ! ev_index ev"
  shows "wl_sq (land ev q w) = []" "wl_pending_cqes (land ev q w) = length (wl_flight (land ev q w)) + 1"
    and "\<forall>r \<in> set (wl_flight (land ev q w)). sq_data r \<noteq> None"
    and "\<lbrakk>j < length bufs; rec_off pre bufs j \<noteq> sq_offset q\<rbrakk> \<Longrightarrow>
      (\<exists>r \<in> set (wl_flight (land ev q w)). sq_offset r = rec_off pre bufs j)
      \<or> holds_at (rec_off pre bufs j) (bufs ! j) (wl_file (land ev q w))"
proof -
  note sp = remove_nth_split [OF i]
  have fl: "wl_flight (land ev q w) = remove_nth (ev_index ev) (wl_flight w)" by (simp add: land_def)
  show "wl_sq (land ev q w) = []" using th by (simp add: all_there_def land_def)
  show "wl_pending_cqes (land ev q w) = length (wl_flight (land ev q w)) + 1"
    using th i sp(3) by (simp add: all_there_def land_def)
  show "\<forall>r \<in> set (wl_flight (land ev q w)). sq_data r \<noteq> None" using th sp(2) unfolding fl all_there_def by blast
  assume j: "j < length bufs" "rec_off pre bufs j \<noteq> sq_offset q"
  show "(\<exists>r \<in> set (wl_flight (land ev q w)). sq_offset r = rec_off pre bufs j)
      \<or> holds_at (rec_off pre bufs j) (bufs ! j) (wl_file (land ev q w))"
  proof (cases "\<exists>r \<in> set (wl_flight w). sq_offset r = rec_off pre bufs j")
    case True
    then obtain r where r: "r \<in> set (wl_flight w)" "sq_offset r = rec_off pre bufs j" by blast
    then have "r \<noteq> q" using j(2) by auto
    then have "r \<in> set (remove_nth (ev_index ev) (wl_flight w))"
      using r(1) sp(1) unfolding remove_nth_def q by (metis UnE UnI1 UnI2 set_ConsD set_append)
    then show ?thesis using r(2) unfolding fl by blast
  next
    case False
    then have "holds_at (rec_off pre bufs j) (bufs ! j) (wl_file w)" using th j(1) by (auto simp: all_there_def)
    then show ?thesis using land_ring_inv(5) [OF inv i q j] by blast
  qed
qed

text \<open>A retried request is back in flight, as it was.\<close>

lemma resubmit_inv:
  assumes inv: "ring_inv pre bufs w" and pid: "pid \<notin> set (tags (requests w))" "pid < wl_next w"
    and p: "placed pre bufs (pw_offset p) (pw_buf p)" and r: "resubmit n pid p w = (r, w')"
  shows "ring_inv pre bufs w'" "r = 0 \<Longrightarrow> w' = w" "r \<noteq> 0 \<Longrightarrow> r \<noteq> 1 \<Longrightarrow> r < 0 \<and> wl_failure w' \<noteq> None"
    and "r = 1 \<Longrightarrow> n \<ge> 0 \<and> wl_failure w' = wl_failure w"
    and "r = 1 \<Longrightarrow> n \<ge> 1 \<Longrightarrow> wl_sq w = [] \<Longrightarrow> wl_sq w' = [] \<and> wl_file w' = wl_file w
      \<and> wl_pending_cqes w' = wl_pending_cqes w
      \<and> wl_flight w' = wl_flight w @ [\<lparr>sq_offset = pw_offset p, sq_buf = pw_buf p, sq_data = Some pid\<rparr>]"
proof -
  let ?p = "p\<lparr>pw_attempts := pw_attempts p + 1\<rparr>"
  let ?w = "w\<lparr>wl_heap := (wl_heap w)(pid \<mapsto> ?p)\<rparr>"
  let ?q = "\<lparr>sq_offset = pw_offset p, sq_buf = pw_buf p, sq_data = Some pid\<rparr>"
  have h: "ring_inv pre bufs ?w" by (rule ring_inv_heap [OF inv pid(1)])
  have q1: "ring_inv pre bufs (?w\<lparr>wl_sq := wl_sq ?w @ [?q]\<rparr>)"
    by (rule ring_inv_queue [OF h]) (use pid p in \<open>simp_all add: tag_ok_def\<close>)
  have q2: "ring_inv pre bufs (?w\<lparr>wl_sq := wl_sq ?w @ [?q\<lparr>sq_data := None\<rparr>]\<rparr>)"
    by (rule ring_inv_queue [OF h]) (use p in \<open>simp_all add: tag_ok_def\<close>)
  show "ring_inv pre bufs w'"
    using r inv ring_inv_submit [OF q1] q2 by (auto simp: resubmit_def Let_def split: if_split_asm)
  show "r = 0 \<Longrightarrow> w' = w" "r \<noteq> 0 \<Longrightarrow> r \<noteq> 1 \<Longrightarrow> r < 0 \<and> wl_failure w' \<noteq> None"
    using r by (auto simp: resubmit_def Let_def split: if_split_asm)
  show "r = 1 \<Longrightarrow> n \<ge> 0 \<and> wl_failure w' = wl_failure w"
    using r by (auto simp: resubmit_def Let_def io_submit_def split: if_split_asm)
  show "wl_sq w' = [] \<and> wl_file w' = wl_file w \<and> wl_pending_cqes w' = wl_pending_cqes w
      \<and> wl_flight w' = wl_flight w @ [?q]" if "r = 1" "n \<ge> 1" "wl_sq w = []"
    using r that by (auto simp: resubmit_def Let_def io_submit_def take_Cons' drop_Cons' split: if_split_asm)
qed

lemma complete_inv:
  assumes inv: "log_inv pre bufs w" and i: "ev_index ev < length (wl_flight w)" and q: "q = wl_flight w ! ev_index ev"
    and tag: "sq_data q = Some pid" "wl_heap w pid = Some p" and law: "ev_lawful ev"
  shows "log_inv pre bufs (complete ev pid p (land ev q w))"
proof -
  let ?w = "land ev q w"
  have ri: "ring_inv pre bufs w" using inv by (simp add: log_inv_def)
  note l = land_ring_inv [OF ri i q] and pid = land_ring_inv(4) [OF ri i q tag(1)]
  have p: "pw_buf p = sq_buf q" "pw_offset p = sq_offset q" "pid < wl_next ?w"
    using l(3) tag by (auto simp: tag_ok_def land_def)
  obtain k where k: "k < length bufs" "sq_offset q = rec_off pre bufs k" "sq_buf q = bufs ! k" using l(2) by (auto simp: placed_def)
  have ne: "[] \<notin> set bufs" using ri by (simp add: ring_inv_def)
  then have buf: "pw_buf p \<noteq> []" using p(1) k by (metis nth_mem)
  have pl: "placed pre bufs (pw_offset p) (pw_buf p)" using l(2) p by simp
  have fail: "wl_failure ?w = wl_failure w" by (simp add: land_def)
  have gu: "log_inv pre bufs (count_down (free_pending pid (recordFailure f w')))" if "ring_inv pre bufs w'" "pid \<notin> set (tags (requests w'))" for f w'
  proof -
    have "requests (recordFailure f w') = requests w'" by (simp add: recordFailure_def)
    then show ?thesis using that by (simp add: log_inv_def ring_inv_free)
  qed
  define res where "res = (if ev_cqe_cancel ev then - ECANCELED else if ev_short_write ev then int (length (pw_buf p) div 2)
      else if ev_cqe_error ev then - EIO else ev_res ev)"
  show ?thesis
  proof (cases "res = - ECANCELED \<and> pw_attempts p < kMaxWriteAttempts")
    case True
    obtain r w' where r: "resubmit (ev_submit ev) pid p ?w = (r, w')" by fastforce
    note rs = resubmit_inv [OF l(1) pid p(3) pl r]
    have eq: "complete ev pid p ?w = (let w = w'\<lparr>wl_cancel_retries := wl_cancel_retries w' + 1\<rparr>
        in if r = 1 then w else if r < 0 then count_down w
           else count_down (free_pending pid (recordFailure (WriteCancelled (pw_attempts p) (pw_offset p)) w)))"
      using True r by (simp add: complete_def Let_def res_def split: if_split_asm)
    consider "r = 1" | "r = 0" | "r < 0" "wl_failure w' \<noteq> None" using rs(3) by blast
    then show ?thesis
    proof cases
      case 1
      have "all_there pre bufs w'" if "wl_failure w' = None"
      proof -
        have "wl_failure w = None" "ev_submit ev \<ge> 1" using that rs(4) [OF 1] fail law by (auto simp: ev_lawful_def)
        then have th: "all_there pre bufs w" using inv by (simp add: log_inv_def)
        note o = there_others [OF ri th i q]
        have w': "wl_sq w' = []" "wl_file w' = wl_file ?w" "wl_pending_cqes w' = wl_pending_cqes ?w"
            "wl_flight w' = wl_flight ?w @ [\<lparr>sq_offset = pw_offset p, sq_buf = pw_buf p, sq_data = Some pid\<rparr>]"
          using rs(5) [OF 1 \<open>ev_submit ev \<ge> 1\<close> o(1)] by blast+
        have "(\<exists>r \<in> set (wl_flight w'). sq_offset r = rec_off pre bufs j) \<or> holds_at (rec_off pre bufs j) (bufs ! j) (wl_file w')"
          if "j < length bufs" for j
          using o(4) [OF that] p(2) unfolding w' by (cases "rec_off pre bufs j = sq_offset q") auto
        then show ?thesis unfolding all_there_def using w' o(2,3) by simp
      qed
      then show ?thesis using 1 rs(1) by (simp add: eq log_inv_def all_there_def)
    next
      case 2
      then have w': "w' = ?w" using rs(2) by simp
      show ?thesis unfolding eq Let_def w' using 2 gu [of "?w\<lparr>wl_cancel_retries := wl_cancel_retries ?w + 1\<rparr>"] l(1) pid by simp
    next
      case 3
      then show ?thesis using rs(1) by (auto simp: eq log_inv_def)
    qed
  next
    case not_retry: False
    show ?thesis
    proof (cases "res = - ECANCELED")
      case True
      then have "complete ev pid p ?w = count_down (free_pending pid (recordFailure (WriteCancelled (pw_attempts p) (pw_offset p)) ?w))"
        using not_retry by (simp add: complete_def Let_def res_def split: if_split_asm)
      then show ?thesis using gu l(1) pid by simp
    next
      case False
      then have eq: "complete ev pid p ?w = final_result pid p res ?w"
        by (auto simp: complete_def Let_def res_def)
      show ?thesis
      proof (cases "res < 0 \<or> nat res < length (pw_buf p)")
        case True
        then show ?thesis using gu [OF l(1) pid] by (auto simp: eq final_result_def Let_def)
      next
        case ok: False
        then have "res = ev_res ev" using buf by (auto simp: res_def split: if_split_asm)
        then have "length (sq_buf q) \<le> ev_landed ev" using ok law p(1) by (auto simp: ev_lawful_def)
        then have own: "holds_at (rec_off pre bufs k) (bufs ! k) (wl_file ?w)"
          using k buf p(1) by (simp add: land_def holds_at_write_self)
        have w': "complete ev pid p ?w = count_down (free_pending pid ?w)" using ok by (simp add: eq final_result_def)
        have "all_there pre bufs (count_down (free_pending pid ?w))" if "wl_failure w = None"
        proof -
          have th: "all_there pre bufs w" using inv that by (simp add: log_inv_def)
          note o = there_others [OF ri th i q]
          let ?v = "count_down (free_pending pid ?w)"
          have v: "wl_sq ?v = []" "wl_file ?v = wl_file ?w" "wl_flight ?v = wl_flight ?w" "wl_pending_cqes ?v = length (wl_flight ?w)"
            using o(1,2) by (simp_all add: count_down_def free_pending_def)
          have "(\<exists>r \<in> set (wl_flight ?v). sq_offset r = rec_off pre bufs j) \<or> holds_at (rec_off pre bufs j) (bufs ! j) (wl_file ?v)"
            if "j < length bufs" for j
          proof (cases "rec_off pre bufs j = sq_offset q")
            case True
            then have "j = k" using rec_off_inject [OF ne that k(1)] k(2) by simp
            then show ?thesis using own v(2) by simp
          qed (use o(4) [OF that] v in simp)
          then show ?thesis unfolding all_there_def using v o(3) by simp
        qed
        then show ?thesis using fail ring_inv_free [OF l(1) pid] by (simp add: w' log_inv_def)
      qed
    qed
  qed
qed

lemma reap_inv:
  assumes "log_inv pre bufs w" "\<forall>ev \<in> set evs. ev_lawful ev" "reap evs w = Some w'"
  shows "log_inv pre bufs w'"
  using assms
proof (induction evs w rule: reap.induct)
  case (2 ev evs w)
  let ?q = "wl_flight w ! ev_index ev"
  have i: "ev_index ev < length (wl_flight w)" using 2(5) by (simp split: if_split_asm)
  have hp: "wl_heap (land ev ?q w) = wl_heap w" by (simp add: land_def)
  show ?case
  proof (cases "sq_data ?q")
    case None
    have ri: "ring_inv pre bufs w" using 2(3) by (simp add: log_inv_def)
    have "?q \<in> set (wl_flight w)" using i by simp
    then have "wl_failure w \<noteq> None" using 2(3) None unfolding log_inv_def all_there_def by auto
    then have "log_inv pre bufs (count_down (land ev ?q w))"
      using land_ring_inv(1) [OF ri i refl] by (auto simp: log_inv_def land_def)
    then show ?thesis using 2(1) [OF _ refl refl None] 2(4,5) i None by simp
  next
    case (Some pid)
    then obtain p where p: "wl_heap w pid = Some p" using 2(5) i hp by (auto simp: Let_def split: option.splits)
    have "log_inv pre bufs (complete ev pid p (land ev ?q w))"
      using 2(4) by (intro complete_inv [OF 2(3) i refl Some p]) simp
    then show ?thesis using 2(2) [OF _ refl refl Some] 2(4,5) i Some p hp by simp
  qed
qed simp

text \<open>What completions never touch.\<close>

definition wal_frame :: "wal \<Rightarrow> nat \<times> nat \<times> nat \<times> bool \<times> bool \<times> nat \<times> nat" where
  "wal_frame w = (wl_epoch w, wl_write_offset w, wl_durable_end w, wl_sync_in_progress w, wl_ring_ready w, wl_next w, wl_sync_calls w)"

lemma frame_simps [simp]:
  "wal_frame (recordFailure f w) = wal_frame w" "wal_frame (count_down w) = wal_frame w" "wal_frame (free_pending pid w) = wal_frame w"
  "wal_frame (land ev q w) = wal_frame w" "wal_frame (io_submit z w) = wal_frame w" "wal_frame (w\<lparr>wl_cancel_retries := n\<rparr>) = wal_frame w"
  "wal_frame (w\<lparr>wl_sq := qs\<rparr>) = wal_frame w" "wal_frame (w\<lparr>wl_heap := h\<rparr>) = wal_frame w"
  by (simp_all add: wal_frame_def recordFailure_def count_down_def free_pending_def land_def io_submit_def)

lemma resubmit_frame: "wal_frame (snd (resubmit n pid p w)) = wal_frame w"
  by (simp add: resubmit_def Let_def)

lemma complete_frame [simp]: "wal_frame (complete ev pid p w) = wal_frame w"
  using resubmit_frame [of "ev_submit ev" pid p w]
  by (cases "resubmit (ev_submit ev) pid p w") (simp add: complete_def final_result_def Let_def)

lemma reap_frame: "reap evs w = Some w' \<Longrightarrow> wal_frame w' = wal_frame w"
  by (induction evs w rule: reap.induct) (auto simp: Let_def split: if_split_asm option.splits)

lemma drain_frame: "drain env w = Some w' \<Longrightarrow> wal_frame w' = wal_frame w"
proof -
  have "drain_loop waits w = Some w' \<Longrightarrow> wal_frame w' = wal_frame w" for waits w
    by (induction waits w rule: drain_loop.induct) (auto simp: bind_eq_Some_conv dest: reap_frame split: if_split_asm)
  then show "drain env w = Some w' \<Longrightarrow> wal_frame w' = wal_frame w"
    by (auto simp: drain_def bind_eq_Some_conv dest: reap_frame)
qed

lemma drain_loop_inv:
  assumes "log_inv pre bufs w" "\<forall>x \<in> set waits. \<forall>ev \<in> set (snd x). ev_lawful ev" "drain_loop waits w = Some w'"
  shows "log_inv pre bufs w' \<and> (wl_failure w' = None \<longrightarrow> wl_ring_ready w' \<longrightarrow> wl_pending_cqes w' = 0)"
  using assms
proof (induction waits w rule: drain_loop.induct)
  case (2 ret evs waits w)
  show ?case
  proof (cases "wl_pending_cqes w > 0 \<and> wl_ring_ready w")
    case busy: True
    consider "ret = - EINTR" | "ret \<noteq> - EINTR" "ret < 0" | "ret \<ge> 0" by linarith
    then show ?thesis
    proof cases
      case 1
      then show ?thesis using 2 busy by simp
    next
      case 2
      then show ?thesis using \<open>log_inv pre bufs w\<close> \<open>drain_loop ((ret, evs) # waits) w = Some w'\<close> busy
        by (auto simp: log_inv_def)
    next
      case 3
      then obtain w1 where w1: "reap evs w = Some w1" "drain_loop waits w1 = Some w'"
        using 2(5) busy by (auto simp: bind_eq_Some_conv)
      have "log_inv pre bufs w1" using reap_inv [OF 2(3) _ w1(1)] 2(4) by simp
      then show ?thesis using 2(2) [of w1] 3 busy w1 2(4) by simp
    qed
  next
    case False
    then show ?thesis using 2 by auto
  qed
qed (auto split: if_split_asm)

definition drain_lawful :: "drain_env \<Rightarrow> bool" where
  "drain_lawful env \<longleftrightarrow> (\<forall>ev \<in> set (fst env). ev_lawful ev) \<and> (\<forall>x \<in> set (snd env). \<forall>ev \<in> set (snd x). ev_lawful ev)"

text \<open>After a drain without a failure the file is complete.\<close>

lemma drain_complete:
  assumes inv: "log_inv pre bufs w" and env: "drain_lawful env" and d: "drain env w = Some w'"
  shows "log_inv pre bufs w'"
    and "wl_failure w' = None \<Longrightarrow> wl_ring_ready w' \<Longrightarrow> wl_file w' = pre @ concat bufs"
    and "wl_failure w' = None \<Longrightarrow> wl_ring_ready w' \<Longrightarrow> wl_flight w' = []"
proof -
  obtain w1 where w1: "reap (fst env) w = Some w1" "drain_loop (snd env) w1 = Some w'"
    using d by (auto simp: drain_def bind_eq_Some_conv)
  have "log_inv pre bufs w1" using reap_inv [OF inv _ w1(1)] env by (simp add: drain_lawful_def)
  then have dl: "log_inv pre bufs w' \<and> (wl_failure w' = None \<longrightarrow> wl_ring_ready w' \<longrightarrow> wl_pending_cqes w' = 0)"
    using drain_loop_inv [OF _ _ w1(2)] env by (simp add: drain_lawful_def)
  then show "log_inv pre bufs w'" by simp
  assume "wl_failure w' = None" "wl_ring_ready w'"
  then show idle: "wl_flight w' = []" using dl by (auto simp: log_inv_def all_there_def)
  have "all_there pre bufs w'" using dl \<open>wl_failure w' = None\<close> by (simp add: log_inv_def)
  with idle show "wl_file w' = pre @ concat bufs" using dl by (intro all_complete) (auto simp: log_inv_def all_there_def)
qed

section \<open>Appending keeps the invariant\<close>

lemma mk_wal_inv: "mk_wal env dur f = Inr w \<Longrightarrow> log_inv f [] w \<and> wl_failure w = None \<and> wl_ring_ready w"
  by (auto simp: mk_wal_def log_inv_def ring_inv_def all_there_def holds_at_def split: if_split_asm)

lemma rec_off_append: "i \<le> length bufs \<Longrightarrow> rec_off pre (bufs @ bs) i = rec_off pre bufs i"
  by (simp add: rec_off_def)

lemma placed_append: "placed pre bufs off buf \<Longrightarrow> placed pre (bufs @ bs) off buf"
  unfolding placed_def by (metis length_append nth_append rec_off_append less_imp_le trans_less_add1)

text \<open>Handing a new record to the ring.\<close>

definition enqueue :: "bytes \<Rightarrow> wal \<Rightarrow> wal" where
  "enqueue buf w =
     (let q = \<lparr>sq_offset = wl_write_offset w, sq_buf = buf, sq_data = Some (wl_next w)\<rparr>;
          p = \<lparr>pw_buf = buf, pw_offset = wl_write_offset w, pw_attempts = 1\<rparr>
      in w\<lparr>wl_write_offset := wl_write_offset w + length buf, wl_next := wl_next w + 1,
           wl_heap := (wl_heap w)(wl_next w \<mapsto> p), wl_sq := [], wl_flight := wl_flight w @ [q],
           wl_pending_cqes := wl_pending_cqes w + 1\<rparr>)"

lemma enqueue_inv:
  assumes inv: "log_inv pre bufs w" and f: "wl_failure w = None" and b: "buf \<noteq> []"
  shows "log_inv pre (bufs @ [buf]) (enqueue buf w)"
proof -
  let ?w = "enqueue buf w" and ?bufs = "bufs @ [buf]"
  let ?q = "\<lparr>sq_offset = wl_write_offset w, sq_buf = buf, sq_data = Some (wl_next w)\<rparr>"
  have ri: "ring_inv pre bufs w" and th: "all_there pre bufs w" using inv f by (simp_all add: log_inv_def)
  have sq: "wl_sq w = []" using th by (simp add: all_there_def)
  have off: "wl_write_offset w = rec_off pre ?bufs (length bufs)" using ri by (simp add: ring_inv_def rec_off_def)
  have req: "requests ?w = wl_flight w @ [?q]" by (simp add: enqueue_def)
  have old: "tag_ok w r" "placed pre bufs (sq_offset r) (sq_buf r)" if "r \<in> set (wl_flight w)" for r
    using ri that by (auto simp: ring_inv_def)
  then have "tag_ok ?w r" if "r \<in> set (wl_flight w)" for r
    using old(1) [OF that] by (fastforce simp: tag_ok_def enqueue_def)
  moreover have "tag_ok ?w ?q" by (simp add: tag_ok_def enqueue_def)
  moreover have "placed pre ?bufs (sq_offset ?q) (sq_buf ?q)" unfolding placed_def using off by (intro exI [of _ "length bufs"]) simp
  ultimately have qs: "\<forall>r \<in> set (requests ?w). placed pre ?bufs (sq_offset r) (sq_buf r) \<and> tag_ok ?w r"
    unfolding req using old(2) placed_append by auto
  have "wl_next w \<notin> set (tags (wl_flight w))"
  proof
    assume "wl_next w \<in> set (tags (wl_flight w))"
    then obtain r where "r \<in> set (wl_flight w)" "sq_data r = Some (wl_next w)" by (auto simp: tags_def map_filter_def)
    then show False using old(1) by (auto simp: tag_ok_def)
  qed
  then have d: "distinct (tags (requests ?w))" unfolding req using ri sq by (simp add: ring_inv_def)
  have "ring_inv pre ?bufs ?w"
    using ri qs d b unfolding ring_inv_def by (simp add: enqueue_def)
  moreover have "all_there pre ?bufs ?w"
  proof -
    have "(\<exists>r \<in> set (wl_flight ?w). sq_offset r = rec_off pre ?bufs j) \<or> holds_at (rec_off pre ?bufs j) (?bufs ! j) (wl_file ?w)"
      if "j < length ?bufs" for j
    proof (cases "j = length bufs")
      case True
      then show ?thesis using off by (simp add: enqueue_def)
    next
      case False
      then have j: "j < length bufs" using that by simp
      then show ?thesis using th rec_off_append [of j bufs pre "[buf]"] by (auto simp: all_there_def enqueue_def nth_append)
    qed
    then show ?thesis using th by (auto simp: all_there_def enqueue_def)
  qed
  ultimately show ?thesis by (simp add: log_inv_def)
qed

lemma submit_record_enqueue:
  assumes "wl_sq w = []" "ae_submit env = 1"
  shows "submit_record env buf w =
    (case reap (ae_reap env) (enqueue buf w) of
       None \<Rightarrow> None
     | Some w \<Rightarrow> Some (if ae_after env then Inl (InjectedAt ''wal.after_append'') else Inr \<lparr>tk_epoch = wl_epoch w, tk_end = wl_write_offset w\<rparr>, w))"
  using assms by (simp add: submit_record_def enqueue_def Let_def io_submit_def split: option.splits)

definition append_lawful :: "append_env \<Rightarrow> bool" where
  "append_lawful env \<longleftrightarrow> ae_submit env = 1 \<and> (\<forall>ev \<in> set (ae_reap env). ev_lawful ev)"

definition mk_entry :: "etype \<Rightarrow> bytes \<Rightarrow> bytes \<Rightarrow> wal_entry" where
  "mk_entry t k v = \<lparr>we_type = t, we_key = k, we_value = v\<rparr>"

lemma encode_nonempty: "encode_entry e \<noteq> []"
  using align512_pos [of "record_size (we_key e) (we_value e)"] length_encode_record [of "type_byte (we_type e)" "we_key e" "we_value e"]
  by (auto simp: encode_entry_def record_size_def)

text \<open>An append either changes nothing and throws, or hands exactly its record to the ring and reaps.\<close>

lemma writeEntry_cases:
  assumes inv: "log_inv pre bufs w" and env: "append_lawful env" and wr: "wal_writeEntry env t k v w = Some (r, w')"
  shows "(w' = w \<and> (\<exists>e. r = Inl e \<and> e \<noteq> InjectedAt ''wal.after_append''))
    \<or> (entry_fits (mk_entry t k v) \<and> wl_failure w = None \<and> reap (ae_reap env) (enqueue (encode_entry (mk_entry t k v)) w) = Some w'
        \<and> (r = Inr \<lparr>tk_epoch = wl_epoch w', tk_end = wl_write_offset w'\<rparr> \<or> r = Inl (InjectedAt ''wal.after_append'')))"
proof (cases "wl_failure w = None \<and> length k \<le> uint32_max \<and> length v \<le> uint32_max \<and> \<not> ae_before env \<and> ae_memalign env")
  case False
  then have "w' = w \<and> (\<exists>e. r = Inl e \<and> e \<noteq> InjectedAt ''wal.after_append'')" using wr unfolding wal_writeEntry_def by (auto split: option.splits if_split_asm)
  then show ?thesis by blast
next
  case True
  let ?e = "mk_entry t k v"
  have sq: "wl_sq w = []" using inv True by (simp add: log_inv_def all_there_def)
  have buf: "encode_record (type_byte t) k v = encode_entry ?e" by (simp add: encode_entry_def mk_entry_def)
  have "wal_writeEntry env t k v w = submit_record env (encode_entry ?e) w"
    using True sq unfolding wal_writeEntry_def buf Let_def by (simp add: not_le)
  then have "reap (ae_reap env) (enqueue (encode_entry ?e) w) = Some w'
      \<and> (r = Inr \<lparr>tk_epoch = wl_epoch w', tk_end = wl_write_offset w'\<rparr> \<or> r = Inl (InjectedAt ''wal.after_append''))"
    using wr submit_record_enqueue [OF sq] env by (auto simp: append_lawful_def split: option.splits)
  then show ?thesis using True by (simp add: entry_fits_def mk_entry_def)
qed

lemma reap_enqueue_inv:
  assumes "log_inv pre bufs w" "append_lawful env" "wl_failure w = None" "reap (ae_reap env) (enqueue (encode_entry e) w) = Some w'"
  shows "log_inv pre (bufs @ [encode_entry e]) w'" "wl_epoch w' = wl_epoch w" "wl_durable_end w' = wl_durable_end w"
    "wl_sync_in_progress w' = wl_sync_in_progress w" "wl_ring_ready w' = wl_ring_ready w"
    "wl_write_offset w' = wl_write_offset w + length (encode_entry e)"
  using reap_inv [OF enqueue_inv [OF assms(1,3) encode_nonempty] _ assms(4)] assms(2) reap_frame [OF assms(4)]
  by (simp_all add: append_lawful_def wal_frame_def enqueue_def Let_def)

lemma writeEntry_spec:
  assumes inv: "log_inv pre bufs w" and env: "append_lawful env" and wr: "wal_writeEntry env t k v w = Some (r, w')"
  shows "(w' = w \<and> (\<exists>e. r = Inl e \<and> e \<noteq> InjectedAt ''wal.after_append''))
    \<or> (entry_fits (mk_entry t k v) \<and> log_inv pre (bufs @ [encode_entry (mk_entry t k v)]) w' \<and> wl_epoch w' = wl_epoch w
        \<and> wl_durable_end w' = wl_durable_end w \<and> wl_sync_in_progress w' = wl_sync_in_progress w \<and> wl_ring_ready w' = wl_ring_ready w
        \<and> (r = Inr \<lparr>tk_epoch = wl_epoch w', tk_end = wl_write_offset w'\<rparr> \<or> r = Inl (InjectedAt ''wal.after_append'')))"
  using writeEntry_cases [OF assms] reap_enqueue_inv [OF inv env] by blast

section \<open>Failures stick\<close>

lemma sticky_simps [simp]:
  "wl_failure w = Some f \<Longrightarrow> recordFailure g w = w" "wl_failure (land ev q w) = wl_failure w" "wl_failure (io_submit n w) = wl_failure w"
  by (simp_all add: recordFailure_def land_def io_submit_def)

lemma complete_sticky: "wl_failure w = Some f \<Longrightarrow> wl_failure (complete ev pid p w) = Some f"
  by (simp add: complete_def resubmit_def final_result_def Let_def)

lemma reap_sticky: "wl_failure w = Some f \<Longrightarrow> reap evs w = Some w' \<Longrightarrow> wl_failure w' = Some f"
  by (induction evs w rule: reap.induct) (auto simp: Let_def complete_sticky split: if_split_asm option.splits)

lemma drain_sticky: "wl_failure w = Some f \<Longrightarrow> drain env w = Some w' \<Longrightarrow> wl_failure w' = Some f"
proof -
  have "wl_failure w = Some f \<Longrightarrow> drain_loop waits w = Some w' \<Longrightarrow> wl_failure w' = Some f" for waits w
    by (induction waits w rule: drain_loop.induct) (auto simp: bind_eq_Some_conv dest: reap_sticky split: if_split_asm)
  then show "wl_failure w = Some f \<Longrightarrow> drain env w = Some w' \<Longrightarrow> wl_failure w' = Some f"
    by (auto simp: drain_def bind_eq_Some_conv dest: reap_sticky)
qed

section \<open>Histories\<close>

text \<open>A sequence of appends, with the entries that made it into the log.\<close>

fun append_all :: "(append_env \<times> wal_entry) list \<Rightarrow> wal \<Rightarrow> (wal_entry list \<times> wal) option" where
  "append_all [] w = Some ([], w)"
| "append_all ((env, e) # rest) w =
     (case wal_writeEntry env (we_type e) (we_key e) (we_value e) w of
        None \<Rightarrow> None
      | Some (r, w) \<Rightarrow>
          (let accepted = (case r of Inr _ \<Rightarrow> [e] | Inl err \<Rightarrow> if err = InjectedAt ''wal.after_append'' then [e] else [])
           in map_option (\<lambda>(es, w). (accepted @ es, w)) (append_all rest w)))"

section \<open>Retries end\<close>

text \<open>How many more completions a request can still cause.\<close>

definition budget :: "wal \<Rightarrow> sqe \<Rightarrow> nat" where
  "budget w q =
     (case sq_data q of
        None \<Rightarrow> 1
      | Some pid \<Rightarrow> (case wl_heap w pid of None \<Rightarrow> 1 | Some p \<Rightarrow> kMaxWriteAttempts + 1 - pw_attempts p))"

definition total_budget :: "wal \<Rightarrow> nat" where
  "total_budget w = sum_list (map (budget w) (requests w))"

definition attempts_ok :: "wal \<Rightarrow> bool" where
  "attempts_ok w \<longleftrightarrow> (\<forall>pid p. wl_heap w pid = Some p \<longrightarrow> 1 \<le> pw_attempts p \<and> pw_attempts p \<le> kMaxWriteAttempts)
     \<and> distinct (tags (requests w)) \<and> (\<forall>pid \<in> set (tags (requests w)). pid < wl_next w)"

lemma budget_other: "sq_data q \<noteq> Some pid \<Longrightarrow> budget (w\<lparr>wl_heap := (wl_heap w)(pid := x)\<rparr>) q = budget w q"
  by (auto simp: budget_def split: option.splits)

lemma budget_heap: "wl_heap w' = wl_heap w \<Longrightarrow> budget w' = budget w"
  by (rule ext) (simp add: budget_def split: option.splits)

lemma budget_map_other:
  "pid \<notin> set (tags qs) \<Longrightarrow> map (budget (w\<lparr>wl_heap := (wl_heap w)(pid := x)\<rparr>)) qs = map (budget w) qs"
  by (rule map_cong [OF refl]) (use budget_other tag_in in blast)

lemma heap_simps [simp]:
  "wl_heap (recordFailure f w) = wl_heap w" "wl_heap (count_down w) = wl_heap w" "wl_heap (io_submit n w) = wl_heap w" "wl_heap (land ev q w) = wl_heap w"
  "wl_heap (free_pending pid w) = (wl_heap w)(pid := None)"
  by (simp_all add: recordFailure_def count_down_def io_submit_def land_def free_pending_def)

lemma requests_simps [simp]:
  "requests (recordFailure f w) = requests w" "requests (count_down w) = requests w" "requests (io_submit n w) = requests w"
  "requests (free_pending pid w) = requests w" "requests (w\<lparr>wl_cancel_retries := k\<rparr>) = requests w"
  by (simp_all add: recordFailure_def count_down_def io_submit_def free_pending_def)

text \<open>The state after a completion: the request is gone, or queued again with one more attempt.\<close>

lemma complete_requests:
  assumes "wl_heap w pid = Some p"
  shows "(requests (complete ev pid p w) = requests w \<and> wl_heap (complete ev pid p w) = (wl_heap w)(pid := None))
    \<or> (pw_attempts p < kMaxWriteAttempts \<and> (\<exists>d. (d = None \<or> d = Some pid)
        \<and> requests (complete ev pid p w) = requests w @ [\<lparr>sq_offset = pw_offset p, sq_buf = pw_buf p, sq_data = d\<rparr>]
        \<and> wl_heap (complete ev pid p w) = (wl_heap w)(pid \<mapsto> p\<lparr>pw_attempts := pw_attempts p + 1\<rparr>)))"
  unfolding complete_def final_result_def resubmit_def Let_def
  by simp

lemma land_requests:
  assumes "ev_index ev < length (wl_flight w)" "q = wl_flight w ! ev_index ev" "distinct (tags (requests w))"
  shows "total_budget w = budget w q + total_budget (land ev q w)"
    "distinct (tags (requests (land ev q w)))" "set (tags (requests (land ev q w))) \<subseteq> set (tags (requests w))"
    "sq_data q = Some pid \<Longrightarrow> pid \<notin> set (tags (requests (land ev q w)))"
proof -
  have a: "requests w = take (ev_index ev) (wl_flight w) @ q # drop (Suc (ev_index ev)) (wl_flight w) @ wl_sq w"
    using remove_nth_split(1) [OF assms(1)] assms(2) by simp
  have b: "requests (land ev q w) = take (ev_index ev) (wl_flight w) @ drop (Suc (ev_index ev)) (wl_flight w) @ wl_sq w"
    by (simp add: land_def remove_nth_def)
  have "budget (land ev q w) = budget w" by (rule budget_heap) simp
  then show "total_budget w = budget w q + total_budget (land ev q w)" unfolding total_budget_def a b by simp
  show "distinct (tags (requests (land ev q w)))" "set (tags (requests (land ev q w))) \<subseteq> set (tags (requests w))"
    "sq_data q = Some pid \<Longrightarrow> pid \<notin> set (tags (requests (land ev q w)))"
    using assms(3) unfolding a b by (auto split: option.splits)
qed

lemma next_simps: "wl_next (complete ev pid p w) = wl_next w" "wl_next (land ev q w) = wl_next w" "wl_next (count_down w) = wl_next w"
  using complete_frame [of ev pid p w] frame_simps(4) [of ev q w] frame_simps(2) [of w] by (simp_all only: wal_frame_def prod.inject)

lemma sum_snoc: "sum_list (map f (xs @ [x])) = sum_list (map f xs) + (f x :: nat)"
  by simp

lemma complete_budget:
  assumes ok: "attempts_ok w" and p: "wl_heap w pid = Some p" "pid \<notin> set (tags (requests w))" "pid < wl_next w"
  shows "attempts_ok (complete ev pid p w) \<and> total_budget (complete ev pid p w) < total_budget w + (kMaxWriteAttempts + 1 - pw_attempts p)"
proof (cases "requests (complete ev pid p w) = requests w \<and> wl_heap (complete ev pid p w) = (wl_heap w)(pid := None)")
  case True
  let ?w = "complete ev pid p w"
  have a: "requests ?w = requests w" "wl_heap ?w = (wl_heap w)(pid := None)" using True by simp_all
  have "budget ?w = budget (w\<lparr>wl_heap := (wl_heap w)(pid := None)\<rparr>)" by (rule budget_heap) (simp add: a)
  then have "total_budget ?w = total_budget w" unfolding total_budget_def a(1) by (simp only: budget_map_other [OF p(2)])
  moreover have "pw_attempts p \<le> kMaxWriteAttempts" using ok p(1) by (auto simp: attempts_ok_def)
  ultimately show ?thesis using ok unfolding attempts_ok_def a next_simps by (auto split: if_split_asm)
next
  case False
  let ?w = "complete ev pid p w" and ?p = "p\<lparr>pw_attempts := pw_attempts p + 1\<rparr>"
  obtain d where lt: "pw_attempts p < kMaxWriteAttempts" and d: "d = None \<or> d = Some pid"
    and a: "requests ?w = requests w @ [\<lparr>sq_offset = pw_offset p, sq_buf = pw_buf p, sq_data = d\<rparr>]" "wl_heap ?w = (wl_heap w)(pid \<mapsto> ?p)"
    using complete_requests [OF p(1), of ev] False by blast
  let ?q = "\<lparr>sq_offset = pw_offset p, sq_buf = pw_buf p, sq_data = d\<rparr>"
  have b: "budget ?w = budget (w\<lparr>wl_heap := (wl_heap w)(pid \<mapsto> ?p)\<rparr>)" by (rule budget_heap) (simp add: a)
  have "total_budget ?w = total_budget w + budget ?w ?q"
    unfolding total_budget_def a(1) sum_snoc b budget_map_other [OF p(2)] ..
  moreover have "budget ?w ?q \<le> kMaxWriteAttempts - pw_attempts p" using d lt by (auto simp: budget_def a(2))
  moreover have "attempts_ok ?w"
    using ok d p(2,3) lt unfolding attempts_ok_def a next_simps by (auto split: option.splits if_split_asm)
  ultimately show ?thesis using lt by linarith
qed

lemma reap_budget:
  assumes "attempts_ok w" "reap evs w = Some w'"
  shows "attempts_ok w' \<and> length evs + total_budget w' \<le> total_budget w"
  using assms
proof (induction evs arbitrary: w)
  case (Cons ev evs)
  let ?q = "wl_flight w ! ev_index ev" and ?l = "land ev (wl_flight w ! ev_index ev) w"
  have i: "ev_index ev < length (wl_flight w)" using Cons.prems(2) by (simp split: if_split_asm)
  have d: "distinct (tags (requests w))" using Cons.prems(1) by (simp add: attempts_ok_def)
  note l = land_requests [OF i refl d]
  have ok: "attempts_ok ?l" using Cons.prems(1) l(2,3) unfolding attempts_ok_def heap_simps next_simps by blast
  show ?case
  proof (cases "sq_data ?q")
    case None
    have c: "attempts_ok (count_down ?l)" "total_budget (count_down ?l) = total_budget ?l"
      using ok budget_heap [of "count_down ?l" ?l] by (simp_all add: attempts_ok_def next_simps total_budget_def)
    have "reap evs (count_down ?l) = Some w'" using Cons.prems(2) i None by (simp add: Let_def)
    moreover have "budget w ?q = 1" using None by (simp add: budget_def)
    ultimately show ?thesis using Cons.IH [OF c(1)] c(2) l(1) by simp
  next
    case (Some pid)
    then obtain p where p: "wl_heap w pid = Some p" "reap evs (complete ev pid p ?l) = Some w'"
      using Cons.prems(2) i by (auto simp: Let_def split: option.splits)
    have "?q \<in> set (requests w)" using i by simp
    then have "pid < wl_next w" using Cons.prems(1) tag_in [OF _ Some] by (auto simp: attempts_ok_def)
    then have c: "attempts_ok (complete ev pid p ?l)"
        "total_budget (complete ev pid p ?l) < total_budget ?l + (kMaxWriteAttempts + 1 - pw_attempts p)"
      using complete_budget [OF ok, of pid p ev] p(1) l(4) [OF Some] by (simp_all add: next_simps)
    moreover have "budget w ?q = kMaxWriteAttempts + 1 - pw_attempts p" using Some p(1) by (simp add: budget_def)
    ultimately show ?thesis using Cons.IH [OF c(1) p(2)] l(1) by simp
  qed
qed simp

lemma budget_le: "attempts_ok w \<Longrightarrow> total_budget w \<le> kMaxWriteAttempts * length (requests w)"
proof -
  assume ok: "attempts_ok w"
  have "budget w q \<le> kMaxWriteAttempts" for q
    using ok by (auto simp: budget_def attempts_ok_def kMaxWriteAttempts_def split: option.splits) fastforce
  then have "sum_list (map (budget w) qs) \<le> kMaxWriteAttempts * length qs" for qs
    by (induction qs) (simp_all add: add_mono)
  then show ?thesis unfolding total_budget_def .
qed

text \<open>Appends, whatever their outcome, keep the counts.\<close>

lemma attempts_ok_cong:
  "requests w' = requests w \<Longrightarrow> wl_heap w' = wl_heap w \<Longrightarrow> wl_next w' = wl_next w \<Longrightarrow> attempts_ok w' = attempts_ok w"
  unfolding attempts_ok_def by (simp only:)

lemma attempts_ok_submit: "attempts_ok ((io_submit n w)\<lparr>wl_pending_cqes := m\<rparr>) = attempts_ok w"
  by (rule attempts_ok_cong) (simp_all add: io_submit_def)

lemma submit_record_budget:
  assumes ok: "attempts_ok w" and s: "submit_record env buf w = Some (r, w')"
  shows "attempts_ok w'"
proof -
  let ?p = "\<lparr>pw_buf = buf, pw_offset = wl_write_offset w, pw_attempts = 1\<rparr>"
  let ?w = "w\<lparr>wl_write_offset := wl_write_offset w + length buf, wl_next := wl_next w + 1, wl_heap := (wl_heap w)(wl_next w \<mapsto> ?p)\<rparr>"
  let ?q = "\<lambda>d. \<lparr>sq_offset = wl_write_offset w, sq_buf = buf, sq_data = d\<rparr>"
  have n: "wl_next w \<notin> set (tags (requests w))" using ok by (auto simp: attempts_ok_def)
  have a: "attempts_ok (?w\<lparr>wl_sq := wl_sq w @ [?q d]\<rparr>)" if "d = None \<or> d = Some (wl_next w)" for d
    using ok n that by (auto simp: attempts_ok_def kMaxWriteAttempts_def less_Suc_eq split: if_split_asm)
  have b: "attempts_ok ((io_submit k (?w\<lparr>wl_sq := wl_sq w @ [?q (Some (wl_next w))]\<rparr>))\<lparr>wl_pending_cqes := m\<rparr>)" for k m
    unfolding attempts_ok_submit by (rule a) simp
  show ?thesis
    using s a [of None] reap_budget [OF b] by (auto simp: submit_record_def Let_def split: if_split_asm option.splits)
qed

lemma writeEntry_budget:
  assumes ok: "attempts_ok w" and s: "wal_writeEntry env t k v w = Some (r, w')"
  shows "attempts_ok w'"
proof -
  have b: "attempts_ok w1" if "reap evs ((io_submit n w)\<lparr>wl_pending_cqes := m\<rparr>) = Some w1" for evs n m w1
    using reap_budget [OF _ that] ok by (simp add: attempts_ok_submit)
  show ?thesis
    using s ok by (auto simp: wal_writeEntry_def Let_def dest: b submit_record_budget [OF b] submit_record_budget [OF ok]
        split: if_split_asm option.splits)
qed

lemma append_all_budget: "attempts_ok w \<Longrightarrow> append_all xs w = Some (es, w') \<Longrightarrow> attempts_ok w'"
  by (induction xs arbitrary: w es) (auto simp: Let_def split: option.splits, metis writeEntry_budget)

section \<open>Histories keep the invariant\<close>

lemma append_all_inv:
  assumes "log_inv pre (map encode_entry es0) w" "\<forall>e \<in> set es0. entry_fits e" "\<forall>x \<in> set xs. append_lawful (fst x)" "append_all xs w = Some (es, w')"
  shows "log_inv pre (map encode_entry (es0 @ es)) w' \<and> (\<forall>e \<in> set (es0 @ es). entry_fits e) \<and> wl_ring_ready w' = wl_ring_ready w"
  using assms
proof (induction xs arbitrary: es0 w es)
  case (Cons x xs)
  obtain env e where x: "x = (env, e)" by fastforce
  obtain r w1 es1 where w1: "wal_writeEntry env (we_type e) (we_key e) (we_value e) w = Some (r, w1)"
      "append_all xs w1 = Some (es1, w')"
      "es = (case r of Inr _ \<Rightarrow> [e] | Inl err \<Rightarrow> if err = InjectedAt ''wal.after_append'' then [e] else []) @ es1"
    using Cons.prems(4) unfolding x by (auto simp: Let_def split: option.splits)
  have e: "mk_entry (we_type e) (we_key e) (we_value e) = e" by (simp add: mk_entry_def)
  have law: "append_lawful env" "\<forall>x \<in> set xs. append_lawful (fst x)" using Cons.prems(3) by (auto simp: x)
  from writeEntry_spec [OF Cons.prems(1) law(1) w1(1), unfolded e]
  consider (none) "w1 = w" "\<exists>err. r = Inl err \<and> err \<noteq> InjectedAt ''wal.after_append''"
    | (some) "entry_fits e" "log_inv pre (map encode_entry (es0 @ [e])) w1" "wl_ring_ready w1 = wl_ring_ready w"
        "(\<exists>t. r = Inr t) \<or> r = Inl (InjectedAt ''wal.after_append'')"
    by auto
  then show ?case
  proof cases
    case some
    then have "es = e # es1" using w1(3) by auto
    then show ?thesis using Cons.IH [OF some(2) _ law(2) w1(2)] some(1,3) Cons.prems(2) by simp
  next
    case none
    then have "es = es1" using w1(3) by auto
    then show ?thesis using Cons.IH [of es0 w1 es1] none(1) Cons.prems(1,2) law(2) w1(2) by simp
  qed
qed simp

section \<open>Properties\<close>



text \<open>\<open>clear\<close> that returns normally leaves an empty log with nothing in flight, at offset 0, in a new
  epoch, and accepting writes again.\<close>

theorem clear_starts_new_log:
  assumes "wal_clear env w = Some (None, w')"
  shows "log_inv [] [] w' \<and> wl_failure w' = None \<and> wl_ring_ready w' \<and> wl_write_offset w' = 0 \<and> wl_file w' = []
     \<and> wl_epoch w' = wl_epoch w + 1 \<and> wl_durable_end w' = 0"
proof -
  obtain w1 where w1: "drain (ce_drain env) (w\<lparr>wl_durable_end := 0, wl_epoch := wl_epoch w + 1\<rparr>) = Some w1"
      "w' = w1\<lparr>wl_ring_ready := True, wl_sq := [], wl_flight := [], wl_fd := True, wl_file := [], wl_write_offset := 0,
               wl_pending_cqes := 0, wl_failure := None\<rparr>"
    using assms by (auto simp: wal_clear_def Let_def split: if_split_asm option.splits)
  have "wl_epoch w1 = wl_epoch w + 1" "wl_durable_end w1 = 0" using drain_frame [OF w1(1)] by (simp_all add: wal_frame_def)
  then show ?thesis unfolding w1(2) by (simp add: log_inv_def ring_inv_def all_there_def holds_at_def)
qed

text \<open>C15. Retries end: whatever the outcomes of the appends before, a log with \<open>n\<close> requests queued or in flight delivers at
  most \<open>n * kMaxWriteAttempts\<close> completions before nothing is left, however often the kernel cancels, and no
  record is ever submitted more than \<open>kMaxWriteAttempts\<close> times.\<close>

theorem retries_bounded:
  assumes "mk_wal oe dur f = Inr w0" "append_all xs w0 = Some (es, w)" "reap evs w = Some w'"
  shows "length evs \<le> kMaxWriteAttempts * length (requests w)
    \<and> (\<forall>pid p. wl_heap w' pid = Some p \<longrightarrow> pw_attempts p \<le> kMaxWriteAttempts)"
proof -
  have "attempts_ok w0" using assms(1) by (auto simp: mk_wal_def attempts_ok_def split: if_split_asm)
  then have ok: "attempts_ok w" using append_all_budget assms(2) by blast
  note r = reap_budget [OF ok assms(3)]
  then have "length evs \<le> kMaxWriteAttempts * length (requests w)" using budget_le [OF ok] by linarith
  then show ?thesis using r by (auto simp: attempts_ok_def)
qed

section \<open>A completion counted for the wrong write\<close>

definition ex_append :: append_env where
  "ex_append = \<lparr>ae_before = False, ae_memalign = True, ae_flush = 0, ae_flush_reap = [], ae_submit = 1, ae_reap = [], ae_after = False\<rparr>"

definition ex_ev :: cqe_ev where
  "ex_ev = \<lparr>ev_index = 0, ev_res = 512, ev_landed = 512, ev_submit = 1, ev_cqe_error = False, ev_short_write = False, ev_cqe_cancel = False\<rparr>"

definition ex_oe :: open_env where
  "ex_oe = \<lparr>oe_open = True, oe_stat = True, oe_ring = True\<rparr>"

definition ex_wal :: wal where
  "ex_wal = (case mk_wal ex_oe Durable [] of Inr w \<Rightarrow> w)"

lemma ex_wal_eq: "ex_wal = \<lparr>wl_durability = Durable, wl_fd = True, wl_write_offset = 0, wl_ring_ready = True,
                wl_failure = None, wl_pending_cqes = 0, wl_epoch = 0, wl_durable_end = 0,
                wl_sync_in_progress = False, wl_sync_calls = 0, wl_cancel_retries = 0,
                wl_sq = [], wl_flight = [], wl_heap = Map.empty, wl_next = 0, wl_file = []\<rparr>"
  by (simp add: ex_wal_def mk_wal_def ex_oe_def)


section \<open>Examples\<close>



theorem clear_starts_new_log_witness:
  "\<exists>w'. wal_clear \<lparr>ce_drain = ([], []), ce_remove = True, ce_open = True, ce_ring = True\<rparr> ex_wal = Some (None, w')
     \<and> wl_epoch w' = 1 \<and> wl_file w' = []"
proof -
  obtain w' where w': "wal_clear \<lparr>ce_drain = ([], []), ce_remove = True, ce_open = True, ce_ring = True\<rparr> ex_wal = Some (None, w')"
    by (simp add: wal_clear_def drain_def ex_wal_eq)
  then show ?thesis using clear_starts_new_log [OF w'] by (simp add: ex_wal_eq)
qed

theorem retries_bounded_witness:
  "\<exists>w w'. append_all [(ex_append, mk_entry PUT [1] [1])] ex_wal = Some ([mk_entry PUT [1] [1]], w)
     \<and> reap [ex_ev\<lparr>ev_res := -125\<rparr>, ex_ev] w = Some w'
     \<and> length [ex_ev\<lparr>ev_res := -125\<rparr>, ex_ev] \<le> kMaxWriteAttempts * length (requests w)"
proof -
  have m: "mk_wal ex_oe Durable [] = Inr ex_wal" by (simp add: ex_wal_def mk_wal_def ex_oe_def)
  have len: "length (encode_record 1 [1] [1]) = 512" by (simp add: length_encode_record record_size_def align512_def)
  obtain w w' where w: "append_all [(ex_append, mk_entry PUT [1] [1])] ex_wal = Some ([mk_entry PUT [1] [1]], w)"
      "reap [ex_ev\<lparr>ev_res := -125\<rparr>, ex_ev] w = Some w'"
    unfolding ex_wal_eq
    by (simp add: mk_entry_def wal_writeEntry_def submit_record_def Let_def ex_append_def io_submit_def len
        ex_ev_def land_def complete_def resubmit_def final_result_def count_down_def free_pending_def remove_nth_def kMaxWriteAttempts_def)
  then show ?thesis using retries_bounded [OF m w] by blast
qed

end
