(* ===== verification/GroupCommit.thy ===== *)
theory GroupCommit
  imports WalWriter
begin

text \<open>
  Group commit (\<open>WAL::waitDurable\<close>, \<open>sync\<close>, \<open>logPut\<close> and \<open>logDel\<close> of src/wal/wal_writer.cpp) with several threads. Each
  critical section of \<open>waitDurable\<close> is one definition: the test at the head of its loop, the leader's drain,
  its fdatasync outside the locks, its return to the loop, and its way out on an exception. \<open>gc_step\<close>
  interleaves them with appends, with \<open>clear\<close> and with the kernel's writes of requests in flight.

  \<open>gc_stable\<close> is what an fdatasync has made stable of the current log. After a power failure every
  byte up to its length reads as it was then or as it has been overwritten since, and anything may follow. The
  ghost \<open>gc_pre\<close> and \<open>gc_entries\<close> are the content the log was opened with and the records appended since.

  The theorems: a waiter returns normally only when its record is stable or its log was cleared, so what it
  was told survives a power failure, and there is never more than one leader.
\<close>

section \<open>The critical sections\<close>

datatype phase =
    Idle
  | Check ticket
  | Waiting ticket
  | Draining ticket nat
  | Syncing ticket nat nat
  | Finishing ticket nat nat "wal_error option"
  | Unwinding ticket wal_error
  | Returned ticket "wal_error option"

definition wd_check :: "ticket \<Rightarrow> wal \<Rightarrow> phase \<times> wal" where
  "wd_check t w =
     (if tk_epoch t \<noteq> wl_epoch w then (Returned t None, w)
      else if wl_durable_end w \<ge> tk_end t then (Returned t None, w)
      else if wl_sync_in_progress w then (Waiting t, w)
      else (Draining t (wl_epoch w), w\<lparr>wl_sync_in_progress := True\<rparr>))"

definition wd_drain :: "drain_env \<Rightarrow> ticket \<Rightarrow> nat \<Rightarrow> wal \<Rightarrow> (phase \<times> wal) option" where
  "wd_drain env t epoch w =
     map_option (\<lambda>w. (case wl_failure w of
                          Some f \<Rightarrow> Finishing t epoch (wl_write_offset w) (Some (LogFailed f))
                        | None \<Rightarrow> Syncing t epoch (wl_write_offset w), w))
       (drain env w)"

record sync_env =
  se_before :: bool
  se_error :: bool
  se_fdatasync :: bool
  se_after :: bool

text \<open>The last component tells whether an fdatasync succeeded.\<close>

definition wd_sync :: "sync_env \<Rightarrow> ticket \<Rightarrow> nat \<Rightarrow> nat \<Rightarrow> wal \<Rightarrow> phase \<times> wal \<times> bool" where
  "wd_sync env t epoch target w =
     (if se_before env then (Unwinding t (InjectedAt ''wal.before_fdatasync''), w, False)
      else
        (let w = w\<lparr>wl_sync_calls := wl_sync_calls w + 1\<rparr> in
         if se_error env \<or> \<not> se_fdatasync env then (Finishing t epoch target (Some SyncFailed), w, False)
         else if se_after env then (Unwinding t (InjectedAt ''wal.after_fdatasync''), w, True)
         else (Finishing t epoch target None, w, True)))"

definition wd_finish :: "ticket \<Rightarrow> nat \<Rightarrow> nat \<Rightarrow> wal_error option \<Rightarrow> wal \<Rightarrow> phase \<times> wal" where
  "wd_finish t epoch target error w =
     (let w = w\<lparr>wl_sync_in_progress := False,
                wl_durable_end := (if error = None \<and> wl_epoch w = epoch then max (wl_durable_end w) target else wl_durable_end w)\<rparr>
      in (case error of None \<Rightarrow> Check t | Some e \<Rightarrow> Returned t (Some e), w))"

definition wd_unwind :: "ticket \<Rightarrow> wal_error \<Rightarrow> wal \<Rightarrow> phase \<times> wal" where
  "wd_unwind t e w = (Returned t (Some e), w\<lparr>wl_sync_in_progress := False\<rparr>)"

definition sync_ticket :: "wal \<Rightarrow> ticket" where
  "sync_ticket w = \<lparr>tk_epoch = wl_epoch w, tk_end = wl_write_offset w\<rparr>"

text \<open>\<open>waitDurable\<close> of a thread that runs alone: one pair of outcomes per turn as leader.\<close>

fun waitDurable :: "(drain_env \<times> sync_env) list \<Rightarrow> ticket \<Rightarrow> wal \<Rightarrow> (wal_error option \<times> wal) option" where
  "waitDurable [] t w = (case wd_check t w of (Returned _ r, w) \<Rightarrow> Some (r, w) | _ \<Rightarrow> None)"
| "waitDurable ((de, se) # envs) t w =
     (case wd_check t w of
        (Returned _ r, w) \<Rightarrow> Some (r, w)
      | (Draining t e, w) \<Rightarrow>
          (case wd_drain de t e w of
             Some (Syncing t e target, w) \<Rightarrow>
               (case wd_sync se t e target w of
                  (Finishing t e target err, w, _) \<Rightarrow>
                    (case wd_finish t e target err w of
                       (Returned _ r, w) \<Rightarrow> Some (r, w)
                     | (_, w) \<Rightarrow> waitDurable envs t w)
                | (Unwinding t err, w, _) \<Rightarrow> (case wd_unwind t err w of (_, w) \<Rightarrow> Some (Some err, w))
                | _ \<Rightarrow> None)
           | Some (Finishing t e target err, w) \<Rightarrow>
               (case wd_finish t e target err w of (Returned _ r, w) \<Rightarrow> Some (r, w) | _ \<Rightarrow> None)
           | _ \<Rightarrow> None)
      | _ \<Rightarrow> None)"

definition wal_sync :: "(drain_env \<times> sync_env) list \<Rightarrow> wal \<Rightarrow> (wal_error option \<times> wal) option" where
  "wal_sync envs w = waitDurable envs (sync_ticket w) w"

text \<open>\<open>logPut\<close> and \<open>logDel\<close> of a thread that runs alone.\<close>

definition log_durably :: "(drain_env \<times> sync_env) list \<Rightarrow> ((wal_error + ticket) \<times> wal) option \<Rightarrow> (wal_error option \<times> wal) option" where
  "log_durably envs appended =
     (case appended of
        None \<Rightarrow> None
      | Some (Inl e, w) \<Rightarrow> Some (Some e, w)
      | Some (Inr t, w) \<Rightarrow> if wl_durability w = Durable then waitDurable envs t w else Some (None, w))"

definition logPut :: "append_env \<Rightarrow> (drain_env \<times> sync_env) list \<Rightarrow> bytes \<Rightarrow> bytes \<Rightarrow> wal \<Rightarrow> (wal_error option \<times> wal) option" where
  "logPut env envs key value w = log_durably envs (appendPut env key value w)"

definition logDel :: "append_env \<Rightarrow> (drain_env \<times> sync_env) list \<Rightarrow> bytes \<Rightarrow> wal \<Rightarrow> (wal_error option \<times> wal) option" where
  "logDel env envs key w = log_durably envs (appendDel env key w)"

definition append_entry :: "append_env \<Rightarrow> wal_entry \<Rightarrow> wal \<Rightarrow> ((wal_error + ticket) \<times> wal) option" where
  "append_entry env e w =
     (case we_type e of
        PUT \<Rightarrow> appendPut env (we_key e) (we_value e) w
      | DEL \<Rightarrow> appendDel env (we_key e) w)"

text \<open>What a thread does in \<open>logPut\<close> and \<open>logDel\<close> once its append has returned.\<close>

definition after_append :: "wal_error + ticket \<Rightarrow> wal \<Rightarrow> phase" where
  "after_append r w =
     (case r of
        Inl _ \<Rightarrow> Idle
      | Inr t \<Rightarrow> if wl_durability w = Durable then Check t else Idle)"

section \<open>Several threads\<close>

record gc =
  gc_wal :: wal
  gc_stable :: bytes
  gc_thread :: "nat \<Rightarrow> phase"
  gc_pre :: bytes
  gc_entries :: "wal_entry list"

definition in_log :: "wal_error + ticket \<Rightarrow> bool" where
  "in_log r = (case r of Inr _ \<Rightarrow> True | Inl err \<Rightarrow> err = InjectedAt ''wal.after_append'')"

definition at_rest :: "phase \<Rightarrow> bool" where
  "at_rest ph = (case ph of Idle \<Rightarrow> True | Returned _ _ \<Rightarrow> True | _ \<Rightarrow> False)"

text \<open>An append that the submission queue takes; the entry of a \<open>DEL\<close> has no value.\<close>

definition gc_append :: "nat \<Rightarrow> append_env \<Rightarrow> wal_entry \<Rightarrow> gc \<Rightarrow> ((wal_error + ticket) \<times> gc) option" where
  "gc_append i env e s =
     (case append_entry env e (gc_wal s) of
        None \<Rightarrow> None
      | Some (r, w) \<Rightarrow>
          Some (r, s\<lparr>gc_wal := w, gc_thread := (gc_thread s)(i := after_append r w),
                    gc_entries := gc_entries s @ (if in_log r then [e] else [])\<rparr>))"

inductive gc_step :: "gc \<Rightarrow> gc \<Rightarrow> bool" where
  append: "\<lbrakk>at_rest (gc_thread s i); wl_ring_ready (gc_wal s); append_lawful env; we_type e = DEL \<longrightarrow> we_value e = [];
      gc_append i env e s = Some (r, s')\<rbrakk> \<Longrightarrow> gc_step s s'"
| sync: "at_rest (gc_thread s i) \<Longrightarrow>
    gc_step s (s\<lparr>gc_thread := (gc_thread s)(i := Check (sync_ticket (gc_wal s)))\<rparr>)"
| check: "\<lbrakk>gc_thread s i = Check t; wd_check t (gc_wal s) = (ph, w)\<rbrakk> \<Longrightarrow>
    gc_step s (s\<lparr>gc_wal := w, gc_thread := (gc_thread s)(i := ph)\<rparr>)"
| wake: "gc_thread s i = Waiting t \<Longrightarrow> gc_step s (s\<lparr>gc_thread := (gc_thread s)(i := Check t)\<rparr>)"
| drain: "\<lbrakk>gc_thread s i = Draining t e; wl_ring_ready (gc_wal s); drain_lawful env; wd_drain env t e (gc_wal s) = Some (ph, w)\<rbrakk> \<Longrightarrow>
    gc_step s (s\<lparr>gc_wal := w, gc_thread := (gc_thread s)(i := ph)\<rparr>)"
| fdatasync: "\<lbrakk>gc_thread s i = Syncing t e target; wd_sync env t e target (gc_wal s) = (ph, w, ok)\<rbrakk> \<Longrightarrow>
    gc_step s (s\<lparr>gc_wal := w, gc_thread := (gc_thread s)(i := ph),
                gc_stable := (if ok then wl_file (gc_wal s) else gc_stable s)\<rparr>)"
| finish: "\<lbrakk>gc_thread s i = Finishing t e target err; wd_finish t e target err (gc_wal s) = (ph, w)\<rbrakk> \<Longrightarrow>
    gc_step s (s\<lparr>gc_wal := w, gc_thread := (gc_thread s)(i := ph)\<rparr>)"
| unwind: "\<lbrakk>gc_thread s i = Unwinding t err; wd_unwind t err (gc_wal s) = (ph, w)\<rbrakk> \<Longrightarrow>
    gc_step s (s\<lparr>gc_wal := w, gc_thread := (gc_thread s)(i := ph)\<rparr>)"
| clear: "\<lbrakk>wal_clear env (gc_wal s) = Some (r, w)\<rbrakk> \<Longrightarrow>
    gc_step s (s\<lparr>gc_wal := w, gc_stable := [], gc_pre := [], gc_entries := []\<rparr>)"
| kernel: "\<lbrakk>q \<in> set (wl_flight (gc_wal s)); wl_ring_ready (gc_wal s)\<rbrakk> \<Longrightarrow>
    gc_step s (s\<lparr>gc_wal := (gc_wal s)\<lparr>wl_file := write_at (sq_offset q) (take n (sq_buf q)) (wl_file (gc_wal s))\<rparr>\<rparr>)"

abbreviation gc_steps :: "gc \<Rightarrow> gc \<Rightarrow> bool" where
  "gc_steps \<equiv> gc_step\<^sup>*\<^sup>*"

definition gc_init :: "wal \<Rightarrow> gc" where
  "gc_init w = \<lparr>gc_wal = w, gc_stable = [], gc_thread = (\<lambda>_. Idle), gc_pre = wl_file w, gc_entries = []\<rparr>"

text \<open>What a power failure can leave of the log.\<close>

definition survives :: "gc \<Rightarrow> bytes \<Rightarrow> bool" where
  "survives s f \<longleftrightarrow> length (gc_stable s) \<le> length f
     \<and> (\<forall>j < length (gc_stable s). f ! j = gc_stable s ! j \<or> (j < length (wl_file (gc_wal s)) \<and> f ! j = wl_file (gc_wal s) ! j))"

section \<open>Bytes that no longer change\<close>

definition agrees :: "nat \<Rightarrow> bytes \<Rightarrow> bytes \<Rightarrow> bool" where
  "agrees d l f \<longleftrightarrow> d \<le> length l \<and> take d f = take d l"

lemma agrees_nth: "agrees d l f \<longleftrightarrow> d \<le> length l \<and> d \<le> length f \<and> (\<forall>j < d. f ! j = l ! j)"
proof -
  have "take d f = take d l \<longleftrightarrow> d \<le> length f \<and> (\<forall>j < d. f ! j = l ! j)" if "d \<le> length l"
    using that by (auto simp: list_eq_iff_nth_eq min_def not_le)
  then show ?thesis by (auto simp: agrees_def)
qed

lemma agrees_append: "agrees d l f \<Longrightarrow> agrees d (l @ xs) f"
  by (simp add: agrees_def)

lemma agrees_0: "agrees 0 l f"
  by (simp add: agrees_def)

lemma agrees_refl: "d \<le> length l \<Longrightarrow> agrees d l l"
  by (simp add: agrees_def)

lemma placed_log:
  assumes "placed pre bufs off buf"
  shows "holds_at off buf (pre @ concat bufs)"
proof -
  obtain i where i: "i < length bufs" "off = rec_off pre bufs i" "buf = bufs ! i" using assms by (auto simp: placed_def)
  let ?a = "pre @ concat (take i bufs)"
  have "concat bufs = concat (take i bufs) @ bufs ! i @ concat (drop (Suc i) bufs)"
    using i(1) by (metis concat.simps(2) concat_append id_take_nth_drop)
  then have "pre @ concat bufs = ?a @ buf @ concat (drop (Suc i) bufs)" using i(3) by simp
  moreover have "off = length ?a" using i(2) by (simp add: rec_off_def)
  ultimately show ?thesis by (simp add: holds_at_def nth_append)
qed

lemma agrees_write:
  assumes "agrees d (pre @ concat bufs) f" "placed pre bufs off buf"
  shows "agrees d (pre @ concat bufs) (write_at off (take n buf) f)"
proof -
  note h = placed_log [OF assms(2), unfolded holds_at_def]
  have "write_at off (take n buf) f ! j = (pre @ concat bufs) ! j" if "j < d" for j
  proof -
    have j: "j < length f" "f ! j = (pre @ concat bufs) ! j" using assms(1) that by (auto simp: agrees_nth)
    show ?thesis
    proof (cases "off \<le> j \<and> j < off + length (take n buf)")
      case True
      then have "(pre @ concat bufs) ! (off + (j - off)) = buf ! (j - off)" by (intro conjunct2 [OF h, rule_format]) auto
      then show ?thesis using True j by (subst nth_write_at) (auto simp: length_write_at)
    next
      case False
      then show ?thesis using j by (subst nth_write_at) (auto simp: length_write_at)
    qed
  qed
  then show ?thesis using assms(1) by (auto simp: agrees_nth length_write_at)
qed

lemma file_simps [simp]:
  "wl_file (recordFailure f w) = wl_file w" "wl_file (count_down w) = wl_file w" "wl_file (free_pending pid w) = wl_file w"
  "wl_file (io_submit n w) = wl_file w" "wl_file (snd (resubmit n pid p w)) = wl_file w"
  by (simp_all add: recordFailure_def count_down_def free_pending_def io_submit_def resubmit_def Let_def)

lemma complete_file [simp]: "wl_file (complete ev pid p w) = wl_file w"
  by (simp add: complete_def final_result_def Let_def case_prod_unfold)

text \<open>A property of the file that every landing of a record's bytes keeps.\<close>

definition landing_keeps :: "bytes \<Rightarrow> bytes list \<Rightarrow> (bytes \<Rightarrow> bool) \<Rightarrow> bool" where
  "landing_keeps pre bufs P \<longleftrightarrow> (\<forall>off buf n f. placed pre bufs off buf \<longrightarrow> P f \<longrightarrow> P (write_at off (take n buf) f))"

lemma reap_file:
  assumes "log_inv pre bufs w" "\<forall>ev \<in> set evs. ev_lawful ev" "reap evs w = Some w'" "landing_keeps pre bufs P" "P (wl_file w)"
  shows "P (wl_file w')"
  using assms
proof (induction evs arbitrary: w)
  case (Cons ev evs)
  let ?q = "wl_flight w ! ev_index ev"
  obtain w1 where w1: "reap [ev] w = Some w1" "reap evs w1 = Some w'" "wl_file w1 = wl_file (land ev ?q w)"
      "ev_index ev < length (wl_flight w)"
    using Cons.prems(3) by (auto simp: Let_def count_down_def split: if_split_asm option.splits)
  have "placed pre bufs (sq_offset ?q) (sq_buf ?q)"
    using land_ring_inv(2) [OF _ w1(4) refl] Cons.prems(1) by (simp add: log_inv_def)
  then have "P (wl_file w1)" using Cons.prems(4,5) unfolding w1(3) landing_keeps_def by (simp add: land_def)
  moreover have "log_inv pre bufs w1" using reap_inv [OF Cons.prems(1) _ w1(1)] Cons.prems(2) by simp
  ultimately show ?case using Cons.IH w1(2) Cons.prems(2,4) by simp
qed simp

lemma drain_file:
  assumes "log_inv pre bufs w" "drain_lawful env" "drain env w = Some w'" "landing_keeps pre bufs P" "P (wl_file w)"
  shows "P (wl_file w')"
proof -
  have loop: "\<lbrakk>log_inv pre bufs w; \<forall>x \<in> set waits. \<forall>ev \<in> set (snd x). ev_lawful ev; drain_loop waits w = Some w';
      P (wl_file w)\<rbrakk> \<Longrightarrow> P (wl_file w')" for waits w
  proof (induction waits w rule: drain_loop.induct)
    case (2 ret evs waits w)
    then show ?case
      using reap_inv [OF 2(3), of evs] reap_file [OF 2(3) _ _ assms(4), of evs]
      by (auto simp: bind_eq_Some_conv recordFailure_def split: if_split_asm)
  qed (auto split: if_split_asm)
  obtain w1 where w1: "reap (fst env) w = Some w1" "drain_loop (snd env) w1 = Some w'"
    using assms(3) by (auto simp: drain_def bind_eq_Some_conv)
  show ?thesis
    using loop [of w1 "snd env"] w1 reap_inv [OF assms(1) _ w1(1)] reap_file [OF assms(1) _ w1(1) assms(4,5)] assms(2)
    by (simp add: drain_lawful_def)
qed

lemma write_at_end: "write_at (length l) (take m r) (l @ take n r) = l @ take (max m n) r"
proof (cases "take m r = []")
  case False
  have "take m r @ drop (length (take m r)) (take n r) = take (max m n) r"
  proof (cases "m \<le> n")
    case True
    then have "take m r @ drop m (take n r) = take n r" by (metis append_take_drop_id min.absorb1 take_take)
    then show ?thesis using True by (cases "m \<le> length r") (simp_all add: max_def)
  qed (auto simp: max_def)
  then show ?thesis using False by (simp add: write_at_def)
qed (auto simp: write_at_def max_def)

lemma landing_one: "landing_keeps l [r] (\<lambda>f. \<exists>n. f = l @ take n r)"
  unfolding landing_keeps_def
proof (intro allI impI)
  fix off buf n f assume "placed l [r] off buf" "\<exists>n. f = l @ take n r"
  then obtain k where "off = length l" "buf = r" "f = l @ take k r" by (auto simp: placed_def rec_off_def)
  then show "\<exists>n'. write_at off (take n buf) f = l @ take n' r" using write_at_end by metis
qed

lemma landing_none: "landing_keeps l [] P"
  by (simp add: landing_keeps_def placed_def)

lemma landing_agrees: "landing_keeps pre bufs (agrees d (pre @ concat bufs))"
  by (simp add: landing_keeps_def agrees_write)

lemmas reap_agrees = reap_file [OF _ _ _ landing_agrees]
lemmas drain_agrees = drain_file [OF _ _ _ landing_agrees]

text \<open>What completions leave alone.\<close>

definition wal_config :: "wal \<Rightarrow> bool \<times> durability" where
  "wal_config w = (wl_fd w, wl_durability w)"

lemma config_simps [simp]:
  "wal_config (recordFailure f w) = wal_config w" "wal_config (count_down w) = wal_config w" "wal_config (free_pending pid w) = wal_config w"
  "wal_config (land ev q w) = wal_config w" "wal_config (io_submit z w) = wal_config w" "wal_config (w\<lparr>wl_cancel_retries := n\<rparr>) = wal_config w"
  "wal_config (w\<lparr>wl_sq := qs\<rparr>) = wal_config w" "wal_config (w\<lparr>wl_heap := h\<rparr>) = wal_config w"
  "wal_config (enqueue buf w) = wal_config w"
  by (simp_all add: wal_config_def recordFailure_def count_down_def free_pending_def land_def io_submit_def enqueue_def Let_def)

lemma resubmit_config: "wal_config (snd (resubmit n pid p w)) = wal_config w"
  by (simp add: resubmit_def Let_def)

lemma complete_config [simp]: "wal_config (complete ev pid p w) = wal_config w"
  using resubmit_config [of "ev_submit ev" pid p w]
  by (auto simp: complete_def final_result_def Let_def case_prod_unfold)

lemma reap_config: "reap evs w = Some w' \<Longrightarrow> wal_config w' = wal_config w"
  by (induction evs w rule: reap.induct) (auto simp: Let_def split: if_split_asm option.splits)

lemma drain_config: "drain env w = Some w' \<Longrightarrow> wal_config w' = wal_config w"
proof -
  have "drain_loop waits w = Some w' \<Longrightarrow> wal_config w' = wal_config w" for waits w
    by (induction waits w rule: drain_loop.induct) (auto simp: bind_eq_Some_conv dest: reap_config split: if_split_asm)
  then show "drain env w = Some w' \<Longrightarrow> wal_config w' = wal_config w"
    by (auto simp: drain_def bind_eq_Some_conv dest: reap_config)
qed

lemma kernel_log_inv:
  assumes inv: "log_inv pre bufs w" and q: "q \<in> set (wl_flight w)"
  shows "log_inv pre bufs (w\<lparr>wl_file := write_at (sq_offset q) (take n (sq_buf q)) (wl_file w)\<rparr>)"
proof -
  let ?f = "write_at (sq_offset q) (take n (sq_buf q)) (wl_file w)"
  have ri: "ring_inv pre bufs w" using inv by (simp add: log_inv_def)
  obtain i where i: "i < length (wl_flight w)" "q = wl_flight w ! i" using q by (auto simp: in_set_conv_nth)
  let ?ev = "\<lparr>ev_index = i, ev_res = 0, ev_landed = n, ev_submit = 1, ev_cqe_error = False, ev_short_write = False, ev_cqe_cancel = False\<rparr>"
  have fl: "wl_file (land ?ev q w) = ?f" by (simp add: land_def)
  have "ring_inv pre bufs (land ?ev q w)" using land_ring_inv(1) [OF ri, of ?ev q] i by simp
  then have ri': "ring_inv pre bufs (w\<lparr>wl_file := ?f\<rparr>)" using ri by (simp add: ring_inv_def fl)
  have "(\<exists>r \<in> set (wl_flight w). sq_offset r = rec_off pre bufs j) \<or> holds_at (rec_off pre bufs j) (bufs ! j) ?f"
    if "j < length bufs" "all_there pre bufs w" for j
  proof (cases "rec_off pre bufs j = sq_offset q")
    case False
    then show ?thesis using land_ring_inv(5) [OF ri, of ?ev q j] i that unfolding fl by (auto simp: all_there_def)
  qed (use q in auto)
  then show ?thesis using ri' inv by (auto simp: log_inv_def all_there_def)
qed

section \<open>The invariant\<close>

definition the_log :: "gc \<Rightarrow> bytes" where
  "the_log s = gc_pre s @ concat (map encode_entry (gc_entries s))"

definition leader :: "phase \<Rightarrow> bool" where
  "leader ph = (case ph of Draining _ _ \<Rightarrow> True | Syncing _ _ _ \<Rightarrow> True | Finishing _ _ _ _ \<Rightarrow> True | Unwinding _ _ \<Rightarrow> True | _ \<Rightarrow> False)"

definition stable_to :: "nat \<Rightarrow> gc \<Rightarrow> bool" where
  "stable_to d s \<longleftrightarrow> agrees d (the_log s) (wl_file (gc_wal s)) \<and> agrees d (the_log s) (gc_stable s)"

definition acked :: "ticket \<Rightarrow> wal \<Rightarrow> bool" where
  "acked t w \<longleftrightarrow> tk_epoch t < wl_epoch w \<or> (tk_epoch t = wl_epoch w \<and> tk_end t \<le> wl_durable_end w)"

definition phase_ok :: "gc \<Rightarrow> phase \<Rightarrow> bool" where
  "phase_ok s ph \<longleftrightarrow>
     (case ph of
        Idle \<Rightarrow> True
      | Check t \<Rightarrow> tk_epoch t \<le> wl_epoch (gc_wal s)
      | Waiting t \<Rightarrow> tk_epoch t \<le> wl_epoch (gc_wal s)
      | Draining t e \<Rightarrow> tk_epoch t \<le> wl_epoch (gc_wal s) \<and> e = wl_epoch (gc_wal s)
      | Syncing t e d \<Rightarrow> tk_epoch t \<le> wl_epoch (gc_wal s) \<and> e = wl_epoch (gc_wal s) \<and> wl_ring_ready (gc_wal s)
          \<and> agrees d (the_log s) (wl_file (gc_wal s))
      | Finishing t e d err \<Rightarrow> tk_epoch t \<le> wl_epoch (gc_wal s) \<and> e = wl_epoch (gc_wal s)
          \<and> (err = None \<longrightarrow> wl_ring_ready (gc_wal s) \<and> stable_to d s)
      | Unwinding t err \<Rightarrow> True
      | Returned t err \<Rightarrow> err = None \<longrightarrow> acked t (gc_wal s))"

definition log_ok :: "gc \<Rightarrow> bool" where
  "log_ok s \<longleftrightarrow> (wl_ring_ready (gc_wal s) \<longrightarrow>
     log_inv (gc_pre s) (map encode_entry (gc_entries s)) (gc_wal s) \<and> stable_to (wl_durable_end (gc_wal s)) s)
     \<and> (\<forall>e \<in> set (gc_entries s). entry_fits e)"

definition leaders_ok :: "gc \<Rightarrow> bool" where
  "leaders_ok s \<longleftrightarrow> (\<forall>i j. leader (gc_thread s i) \<longrightarrow> leader (gc_thread s j) \<longrightarrow> i = j)
     \<and> (wl_sync_in_progress (gc_wal s) \<longleftrightarrow> (\<exists>i. leader (gc_thread s i)))"

definition gc_inv :: "gc \<Rightarrow> bool" where
  "gc_inv s \<longleftrightarrow> log_ok s \<and> leaders_ok s \<and> (\<forall>i. phase_ok s (gc_thread s i))"

text \<open>How the rest of the threads see a step: nothing they rely on is taken away.\<close>

definition extends :: "gc \<Rightarrow> gc \<Rightarrow> bool" where
  "extends s s' \<longleftrightarrow> wl_epoch (gc_wal s') = wl_epoch (gc_wal s) \<and> wl_durable_end (gc_wal s) \<le> wl_durable_end (gc_wal s')
     \<and> wl_ring_ready (gc_wal s') = wl_ring_ready (gc_wal s)
     \<and> (wl_ring_ready (gc_wal s) \<longrightarrow> (\<forall>d. agrees d (the_log s) (wl_file (gc_wal s)) \<longrightarrow> agrees d (the_log s') (wl_file (gc_wal s'))))
     \<and> (\<forall>d. agrees d (the_log s) (gc_stable s) \<longrightarrow> agrees d (the_log s') (gc_stable s'))
     \<and> gc_pre s' = gc_pre s \<and> prefix (gc_entries s) (gc_entries s')"

lemma phase_ok_extends: "phase_ok s ph \<Longrightarrow> extends s s' \<Longrightarrow> phase_ok s' ph"
  by (cases ph) (auto simp: phase_ok_def extends_def stable_to_def acked_def)

lemma phase_ok_other:
  "\<lbrakk>phase_ok s ph; \<not> leader ph; wl_epoch (gc_wal s') = wl_epoch (gc_wal s); wl_durable_end (gc_wal s) \<le> wl_durable_end (gc_wal s')\<rbrakk>
   \<Longrightarrow> phase_ok s' ph"
  by (cases ph) (auto simp: phase_ok_def leader_def acked_def)

text \<open>A step of thread \<open>i\<close> that keeps the log.\<close>

lemma gc_inv_thread:
  assumes inv: "gc_inv s" and th: "gc_thread s' = (gc_thread s)(i := ph)" and ok: "phase_ok s' ph" "log_ok s'"
    and rest: "extends s s' \<or> (leader (gc_thread s i) \<and> wl_epoch (gc_wal s') = wl_epoch (gc_wal s)
                  \<and> wl_durable_end (gc_wal s) \<le> wl_durable_end (gc_wal s'))"
    and lead: "leader ph \<longrightarrow> leader (gc_thread s i) \<or> \<not> wl_sync_in_progress (gc_wal s)"
    and prog: "wl_sync_in_progress (gc_wal s') \<longleftrightarrow> leader ph \<or> (wl_sync_in_progress (gc_wal s) \<and> \<not> leader (gc_thread s i))"
  shows "gc_inv s'"
proof -
  have one: "leader (gc_thread s j) \<Longrightarrow> leader (gc_thread s k) \<Longrightarrow> j = k"
    and iff: "wl_sync_in_progress (gc_wal s) \<longleftrightarrow> (\<exists>j. leader (gc_thread s j))" for j k
    using inv by (auto simp: gc_inv_def leaders_ok_def)
  have "phase_ok s' (gc_thread s' j)" for j
  proof (cases "j = i")
    case False
    have j: "phase_ok s (gc_thread s j)" using inv by (simp add: gc_inv_def)
    from rest show ?thesis
    proof
      assume "extends s s'"
      then show ?thesis using phase_ok_extends [OF j] False th by simp
    next
      assume r: "leader (gc_thread s i) \<and> wl_epoch (gc_wal s') = wl_epoch (gc_wal s)
                  \<and> wl_durable_end (gc_wal s) \<le> wl_durable_end (gc_wal s')"
      then have "\<not> leader (gc_thread s j)" using one False by blast
      then show ?thesis using phase_ok_other [OF j] r False th by simp
    qed
  qed (use ok(1) th in simp)
  moreover have "leaders_ok s'"
    unfolding leaders_ok_def th
  proof (intro conjI allI impI)
    fix j k assume "leader (((gc_thread s)(i := ph)) j)" "leader (((gc_thread s)(i := ph)) k)"
    then show "j = k" using one lead iff by (cases "j = i"; cases "k = i") auto
  next
    show "wl_sync_in_progress (gc_wal s') \<longleftrightarrow> (\<exists>j. leader (((gc_thread s)(i := ph)) j))"
    proof (cases "leader ph")
      case True
      then show ?thesis using prog by (auto intro: exI [of _ i])
    next
      case False
      then have "(\<exists>j. leader (((gc_thread s)(i := ph)) j)) \<longleftrightarrow> (\<exists>j. j \<noteq> i \<and> leader (gc_thread s j))" by auto
      then show ?thesis using False prog iff one by metis
    qed
  qed
  ultimately show ?thesis using ok(2) by (simp add: gc_inv_def)
qed

section \<open>Every step keeps it\<close>

lemma log_ok_frame:
  assumes "log_ok s" "extends s s'" "gc_entries s' = gc_entries s" "wl_durable_end (gc_wal s') = wl_durable_end (gc_wal s)"
    and "wl_ring_ready (gc_wal s) \<Longrightarrow> log_inv (gc_pre s) (map encode_entry (gc_entries s)) (gc_wal s) \<Longrightarrow>
      log_inv (gc_pre s) (map encode_entry (gc_entries s)) (gc_wal s')"
  shows "log_ok s'"
  using assms by (auto simp: log_ok_def extends_def stable_to_def)

lemma log_inv_upd [simp]:
  "log_inv pre bufs (w\<lparr>wl_sync_in_progress := b\<rparr>) = log_inv pre bufs w"
  "log_inv pre bufs (w\<lparr>wl_sync_calls := n\<rparr>) = log_inv pre bufs w"
  "log_inv pre bufs (w\<lparr>wl_durable_end := n\<rparr>) = log_inv pre bufs w"
  by (simp_all add: log_inv_def all_there_def)

lemma the_log_upd [simp]:
  "the_log (s\<lparr>gc_wal := w\<rparr>) = the_log s" "the_log (s\<lparr>gc_thread := th\<rparr>) = the_log s" "the_log (s\<lparr>gc_stable := f\<rparr>) = the_log s"
  by (simp_all add: the_log_def)

lemma append_inv:
  assumes inv: "gc_inv s" and rest: "at_rest (gc_thread s i)" and rr: "wl_ring_ready (gc_wal s)" and env: "append_lawful env"
    and e: "we_type e = DEL \<longrightarrow> we_value e = []" and s': "gc_append i env e s = Some (r, s')"
  shows "gc_inv s' \<and> extends s s' \<and> (\<forall>t. r = Inr t \<longrightarrow> tk_epoch t = wl_epoch (gc_wal s') \<and> tk_end t = length (the_log s'))"
proof -
  let ?w = "gc_wal s" and ?bufs = "map encode_entry (gc_entries s)"
  have li: "log_inv (gc_pre s) ?bufs ?w" "stable_to (wl_durable_end ?w) s" "\<forall>e \<in> set (gc_entries s). entry_fits e"
    using inv rr by (simp_all add: gc_inv_def log_ok_def)
  have m: "mk_entry (we_type e) (we_key e) (we_value e) = e" by (simp add: mk_entry_def)
  have "append_entry env e ?w = wal_writeEntry env (we_type e) (we_key e) (we_value e) ?w"
    using e by (cases "we_type e") (simp_all add: append_entry_def appendPut_def appendDel_def)
  then obtain w where w: "wal_writeEntry env (we_type e) (we_key e) (we_value e) ?w = Some (r, w)"
      "s' = s\<lparr>gc_wal := w, gc_thread := (gc_thread s)(i := after_append r w), gc_entries := gc_entries s @ (if in_log r then [e] else [])\<rparr>"
    using s' by (auto simp: gc_append_def split: option.splits)
  have sel: "gc_wal s' = w" "gc_pre s' = gc_pre s" "gc_stable s' = gc_stable s" by (simp_all add: w(2))
  consider (none) err where "w = ?w" "r = Inl err" "err \<noteq> InjectedAt ''wal.after_append''"
    | (some) "entry_fits e" "wl_failure ?w = None" "reap (ae_reap env) (enqueue (encode_entry e) ?w) = Some w"
        "r = Inr \<lparr>tk_epoch = wl_epoch w, tk_end = wl_write_offset w\<rparr> \<or> r = Inl (InjectedAt ''wal.after_append'')"
    using writeEntry_cases [OF li(1) env w(1), unfolded m] by (elim disjE conjE exE) simp_all
  then have "log_ok s' \<and> extends s s' \<and> (\<forall>t. r = Inr t \<longrightarrow> tk_epoch t = wl_epoch (gc_wal s') \<and> tk_end t = length (the_log s'))
     \<and> wl_sync_in_progress w = wl_sync_in_progress ?w"
  proof cases
    case none
    then have "gc_entries s' = gc_entries s" by (simp add: w(2) in_log_def)
    then show ?thesis using li none(1,2) by (simp add: sel log_ok_def stable_to_def extends_def the_log_def)
  next
    case some
    note ri = reap_enqueue_inv [OF li(1) env some(2,3)]
    have es: "gc_entries s' = gc_entries s @ [e]" using some(4) by (auto simp: w(2) in_log_def)
    have l: "the_log s' = the_log s @ encode_entry e" unfolding the_log_def es by (simp add: sel)
    have off: "wl_write_offset ?w = length (the_log s)" using li(1) by (simp add: log_inv_def ring_inv_def the_log_def)
    have q: "wl_file (enqueue (encode_entry e) ?w) = wl_file ?w" by (simp add: enqueue_def Let_def)
    have a: "agrees d (the_log s') (wl_file w)" if "agrees d (the_log s) (wl_file ?w)" for d
      using reap_agrees [OF enqueue_inv [OF li(1) some(2) encode_nonempty] _ some(3), of d] env agrees_append [OF that, of "encode_entry e"]
      by (simp add: append_lawful_def q l) (simp add: the_log_def)
    have b: "agrees d (the_log s') (gc_stable s')" if "agrees d (the_log s) (gc_stable s)" for d
      unfolding l sel by (rule agrees_append [OF that])
    have x: "extends s s'" using ri a b by (simp add: extends_def sel es)
    have "log_ok s'" using a b li ri(1) some(1) by (simp add: log_ok_def es sel stable_to_def ri(3))
    then show ?thesis using x some(4) ri off l by (auto simp: sel)
  qed
  moreover have "phase_ok s' (after_append r w)"
    using calculation by (auto simp: after_append_def phase_ok_def sel split: sum.splits)
  moreover have "\<not> leader (after_append r w)" "\<not> leader (gc_thread s i)"
    using rest by (auto simp: after_append_def leader_def at_rest_def split: sum.splits phase.splits)
  ultimately show ?thesis using gc_inv_thread [OF inv, of s' i "after_append r w"] by (simp add: w(2))
qed

lemma drain_step_inv:
  assumes inv: "gc_inv s" and th: "gc_thread s i = Draining t e" and rr: "wl_ring_ready (gc_wal s)" and env: "drain_lawful env"
    and d: "wd_drain env t e (gc_wal s) = Some (ph, w)"
  shows "gc_inv (s\<lparr>gc_wal := w, gc_thread := (gc_thread s)(i := ph)\<rparr>) \<and> extends s (s\<lparr>gc_wal := w, gc_thread := (gc_thread s)(i := ph)\<rparr>)"
proof -
  let ?w = "gc_wal s" and ?bufs = "map encode_entry (gc_entries s)" and ?s = "s\<lparr>gc_wal := w, gc_thread := (gc_thread s)(i := ph)\<rparr>"
  have li: "log_inv (gc_pre s) ?bufs ?w" "log_ok s" "tk_epoch t \<le> wl_epoch ?w \<and> e = wl_epoch ?w"
    using inv rr spec [OF conjunct2 [OF conjunct2 [OF inv [unfolded gc_inv_def]]], of i] th by (simp_all add: gc_inv_def log_ok_def phase_ok_def)
  have w: "drain env ?w = Some w" and ph: "ph = (case wl_failure w of
      Some f \<Rightarrow> Finishing t e (wl_write_offset w) (Some (LogFailed f)) | None \<Rightarrow> Syncing t e (wl_write_offset w))"
    using d by (auto simp: wd_drain_def)
  note fr = drain_frame [OF w, unfolded wal_frame_def]
  have x: "extends s ?s"
    using fr drain_agrees [OF li(1) env w, folded the_log_def] by (auto simp: extends_def)
  have "log_ok ?s" using log_ok_frame [OF li(2) x] fr drain_complete(1) [OF li(1) env w] by simp
  moreover have "phase_ok ?s ph"
  proof (cases "wl_failure w")
    case None
    have "wl_file w = the_log s" using drain_complete(2) [OF li(1) env w None] rr fr by (simp add: the_log_def)
    moreover have "wl_write_offset ?w = length (the_log s)" using li(1) by (simp add: log_inv_def ring_inv_def the_log_def)
    ultimately show ?thesis using None li(3) fr rr by (simp add: ph phase_ok_def agrees_refl)
  qed (use li(3) fr in \<open>simp add: ph phase_ok_def\<close>)
  moreover have "leader ph" "leader (gc_thread s i)" by (simp_all add: ph th leader_def split: option.splits)
  moreover have "wl_sync_in_progress w" using fr inv \<open>leader (gc_thread s i)\<close> by (auto simp: gc_inv_def leaders_ok_def)
  ultimately show ?thesis using gc_inv_thread [OF inv, of ?s i ph] x by simp
qed

text \<open>A step that only moves a thread and the group-commit fields.\<close>

definition quiet :: "wal \<Rightarrow> wal \<Rightarrow> bool" where
  "quiet w w' \<longleftrightarrow> wl_epoch w' = wl_epoch w \<and> wl_durable_end w' = wl_durable_end w \<and> wl_ring_ready w' = wl_ring_ready w
     \<and> wl_file w' = wl_file w \<and> (\<forall>pre bufs. log_inv pre bufs w' = log_inv pre bufs w)"

lemma quiet_extends: "quiet (gc_wal s) w \<Longrightarrow> extends s (s\<lparr>gc_wal := w, gc_thread := th\<rparr>)"
  by (auto simp: quiet_def extends_def)

lemma quiet_inv:
  assumes inv: "gc_inv s" and q: "quiet (gc_wal s) w" and ph: "phase_ok (s\<lparr>gc_wal := w, gc_thread := (gc_thread s)(i := ph)\<rparr>) ph"
    and lead: "leader ph \<longrightarrow> leader (gc_thread s i) \<or> \<not> wl_sync_in_progress (gc_wal s)"
    and prog: "wl_sync_in_progress w \<longleftrightarrow> leader ph \<or> (wl_sync_in_progress (gc_wal s) \<and> \<not> leader (gc_thread s i))"
  shows "gc_inv (s\<lparr>gc_wal := w, gc_thread := (gc_thread s)(i := ph)\<rparr>) \<and> extends s (s\<lparr>gc_wal := w, gc_thread := (gc_thread s)(i := ph)\<rparr>)"
proof -
  let ?s = "s\<lparr>gc_wal := w, gc_thread := (gc_thread s)(i := ph)\<rparr>"
  have x: "extends s ?s" by (rule quiet_extends [OF q])
  have "log_ok ?s"
    by (rule log_ok_frame [OF _ x]) (use inv q in \<open>simp_all add: gc_inv_def quiet_def\<close>)
  then show ?thesis using gc_inv_thread [OF inv, of ?s i ph] x ph lead prog by simp
qed

lemma quiet_upd [simp]: "quiet w w" "quiet w (w\<lparr>wl_sync_in_progress := b\<rparr>)" "quiet w (w\<lparr>wl_sync_calls := n\<rparr>)"
  by (simp_all add: quiet_def)

lemma phase_at: "gc_inv s \<Longrightarrow> gc_thread s i = ph \<Longrightarrow> phase_ok s ph"
  by (auto simp: gc_inv_def)

lemma leading: "gc_inv s \<Longrightarrow> leader (gc_thread s i) \<Longrightarrow> wl_sync_in_progress (gc_wal s)"
  by (auto simp: gc_inv_def leaders_ok_def)

lemma idle_leader: "gc_inv s \<Longrightarrow> \<not> wl_sync_in_progress (gc_wal s) \<Longrightarrow> \<not> leader (gc_thread s i)"
  by (auto simp: gc_inv_def leaders_ok_def)

lemma move_inv:
  assumes "gc_inv s" "\<not> leader (gc_thread s i)" "\<not> leader ph" "phase_ok s ph"
  shows "gc_inv (s\<lparr>gc_thread := (gc_thread s)(i := ph)\<rparr>) \<and> extends s (s\<lparr>gc_thread := (gc_thread s)(i := ph)\<rparr>)"
  using quiet_inv [OF assms(1), of "gc_wal s" i ph] assms phase_ok_extends [OF assms(4) quiet_extends [of s "gc_wal s" "(gc_thread s)(i := ph)"]]
  by simp

lemma check_inv:
  assumes inv: "gc_inv s" and th: "gc_thread s i = Check t" and c: "wd_check t (gc_wal s) = (ph, w)"
  shows "gc_inv (s\<lparr>gc_wal := w, gc_thread := (gc_thread s)(i := ph)\<rparr>) \<and> extends s (s\<lparr>gc_wal := w, gc_thread := (gc_thread s)(i := ph)\<rparr>)"
proof -
  have t: "tk_epoch t \<le> wl_epoch (gc_wal s)" using phase_at [OF inv th] by (simp add: phase_ok_def)
  have nl: "\<not> leader (gc_thread s i)" by (simp add: th leader_def)
  show ?thesis
    by (rule quiet_inv [OF inv])
      (use c t nl in \<open>auto simp: wd_check_def phase_ok_def leader_def acked_def split: if_split_asm\<close>)
qed

lemma wd_sync_quiet:
  assumes "wd_sync env t e d w = (ph, w', ok)"
  shows "quiet w w'" "wl_sync_in_progress w' = wl_sync_in_progress w" "leader ph"
  using assms by (auto simp: wd_sync_def Let_def leader_def split: if_split_asm)

lemma wd_sync_phase:
  assumes "wd_sync env t e d w = (ph, w', ok)"
  shows "(\<exists>err. ph = Unwinding t err) \<or> (\<exists>err. ph = Finishing t e d err \<and> (err = None \<longrightarrow> ok))"
  using assms by (auto simp: wd_sync_def Let_def split: if_split_asm)

lemma fdatasync_inv:
  assumes inv: "gc_inv s" and th: "gc_thread s i = Syncing t e d" and c: "wd_sync env t e d (gc_wal s) = (ph, w, ok)"
    and s': "s' = s\<lparr>gc_wal := w, gc_thread := (gc_thread s)(i := ph), gc_stable := (if ok then wl_file (gc_wal s) else gc_stable s)\<rparr>"
  shows "gc_inv s' \<and> wl_epoch (gc_wal s') = wl_epoch (gc_wal s) \<and> wl_ring_ready (gc_wal s') = wl_ring_ready (gc_wal s)
     \<and> gc_pre s' = gc_pre s \<and> gc_entries s' = gc_entries s"
proof -
  have p: "tk_epoch t \<le> wl_epoch (gc_wal s)" "e = wl_epoch (gc_wal s)" "wl_ring_ready (gc_wal s)" "agrees d (the_log s) (wl_file (gc_wal s))"
    using phase_at [OF inv th] by (simp_all add: phase_ok_def)
  have l: "leader (gc_thread s i)" by (simp add: th leader_def)
  have q: "quiet (gc_wal s) w" and b: "wl_sync_in_progress w = wl_sync_in_progress (gc_wal s)" and lp: "leader ph"
    using wd_sync_quiet [OF c] by simp_all
  have lg: "the_log s' = the_log s" by (simp add: s' the_log_def)
  have f: "wl_epoch w = wl_epoch (gc_wal s)" "wl_durable_end w = wl_durable_end (gc_wal s)" "wl_ring_ready w = wl_ring_ready (gc_wal s)"
      "wl_file w = wl_file (gc_wal s)" "log_inv (gc_pre s) bufs w = log_inv (gc_pre s) bufs (gc_wal s)" for bufs
    using q by (simp_all add: quiet_def)
  have sel: "gc_wal s' = w" "gc_pre s' = gc_pre s" "gc_entries s' = gc_entries s" "gc_stable s' = (if ok then wl_file (gc_wal s) else gc_stable s)"
    by (simp_all add: s')
  have lk: "log_ok s" using inv by (simp add: gc_inv_def)
  then have lk': "log_ok s'" unfolding log_ok_def stable_to_def lg sel f by (cases ok) simp_all
  have ph: "phase_ok s' ph"
    using wd_sync_phase [OF c] p(1-4) by (auto simp: phase_ok_def stable_to_def lg sel f(1,3,4))
  have "gc_inv s'"
    by (rule gc_inv_thread [where s = s and s' = s' and i = i and ph = ph])
      (use inv ph lk' l lp b f(1,2) leading [OF inv l] in \<open>simp_all add: sel\<close>, simp add: s')
  then show ?thesis by (simp add: sel f)
qed

lemma finish_inv:
  assumes inv: "gc_inv s" and th: "gc_thread s i = Finishing t e d err" and c: "wd_finish t e d err (gc_wal s) = (ph, w)"
    and s': "s' = s\<lparr>gc_wal := w, gc_thread := (gc_thread s)(i := ph)\<rparr>"
  shows "gc_inv s' \<and> extends s s'"
proof -
  have p: "tk_epoch t \<le> wl_epoch (gc_wal s)" "e = wl_epoch (gc_wal s)" "err = None \<longrightarrow> stable_to d s"
    using phase_at [OF inv th] by (simp_all add: phase_ok_def)
  have l: "leader (gc_thread s i)" by (simp add: th leader_def)
  have w: "w = (gc_wal s)\<lparr>wl_sync_in_progress := False,
        wl_durable_end := (if err = None then max (wl_durable_end (gc_wal s)) d else wl_durable_end (gc_wal s))\<rparr>"
      "ph = (case err of None \<Rightarrow> Check t | Some e \<Rightarrow> Returned t (Some e))"
    using c p(2) by (simp_all add: wd_finish_def Let_def)
  have x: "extends s s'" by (auto simp: extends_def s' w)
  have lk: "log_ok s" using inv by (simp add: gc_inv_def)
  have "stable_to (wl_durable_end w) s'" if "stable_to (wl_durable_end (gc_wal s)) s"
    using that p(3) by (cases err) (auto simp: s' w stable_to_def max_def)
  then have "log_ok s'" using lk by (auto simp: log_ok_def s') (auto simp: w)
  moreover have "phase_ok s' ph" using p(1) by (simp add: w s' phase_ok_def split: option.splits)
  moreover have "\<not> leader ph" by (simp add: w leader_def split: option.splits)
  ultimately show ?thesis using gc_inv_thread [OF inv, of s' i ph] x l by (simp add: s') (simp add: w)
qed

lemma unwind_inv:
  assumes inv: "gc_inv s" and th: "gc_thread s i = Unwinding t err" and c: "wd_unwind t err (gc_wal s) = (ph, w)"
  shows "gc_inv (s\<lparr>gc_wal := w, gc_thread := (gc_thread s)(i := ph)\<rparr>) \<and> extends s (s\<lparr>gc_wal := w, gc_thread := (gc_thread s)(i := ph)\<rparr>)"
proof -
  have "leader (gc_thread s i)" by (simp add: th leader_def)
  moreover have "w = (gc_wal s)\<lparr>wl_sync_in_progress := False\<rparr>" "ph = Returned t (Some err)" using c by (simp_all add: wd_unwind_def)
  ultimately show ?thesis by (intro quiet_inv [OF inv]) (simp_all add: phase_ok_def leader_def)
qed

lemma kernel_inv:
  assumes inv: "gc_inv s" and q: "q \<in> set (wl_flight (gc_wal s))" and rr: "wl_ring_ready (gc_wal s)"
    and s': "s' = s\<lparr>gc_wal := (gc_wal s)\<lparr>wl_file := write_at (sq_offset q) (take n (sq_buf q)) (wl_file (gc_wal s))\<rparr>\<rparr>"
  shows "gc_inv s' \<and> extends s s'"
proof -
  have li: "log_inv (gc_pre s) (map encode_entry (gc_entries s)) (gc_wal s)" and lk: "log_ok s"
    using inv rr by (simp_all add: gc_inv_def log_ok_def)
  have "placed (gc_pre s) (map encode_entry (gc_entries s)) (sq_offset q) (sq_buf q)"
    using li q by (simp add: log_inv_def ring_inv_def)
  then have x: "extends s s'"
    using agrees_write [of _ "gc_pre s" "map encode_entry (gc_entries s)"] by (simp add: extends_def s' the_log_def)
  have "log_ok s'" by (rule log_ok_frame [OF lk x]) (simp_all add: s' kernel_log_inv [OF _ q])
  moreover have "gc_thread s' = (gc_thread s)(0 := gc_thread s 0)" "phase_ok s' (gc_thread s 0)"
    using inv phase_ok_extends [OF _ x] by (simp_all add: s' gc_inv_def)
  moreover have "wl_sync_in_progress (gc_wal s') = wl_sync_in_progress (gc_wal s)" by (simp add: s')
  ultimately show ?thesis using gc_inv_thread [OF inv, of s' 0 "gc_thread s 0"] x leading [OF inv, of 0] by blast
qed

lemma wal_clear_frame:
  assumes "wal_clear env w = Some (r, w')"
  shows "wl_epoch w' = wl_epoch w + 1" "wl_durable_end w' = 0" "\<not> wl_sync_in_progress w" "\<not> wl_sync_in_progress w'"
    "wl_ring_ready w' \<Longrightarrow> log_inv [] [] w'"
proof -
  obtain w1 where d: "drain (ce_drain env) (w\<lparr>wl_durable_end := 0, wl_epoch := wl_epoch w + 1\<rparr>) = Some w1"
    using assms by (auto simp: wal_clear_def split: if_split_asm option.splits)
  note fr = drain_frame [OF d, unfolded wal_frame_def]
  show "\<not> wl_sync_in_progress w" using assms by (auto simp: wal_clear_def split: if_split_asm)
  then show "wl_epoch w' = wl_epoch w + 1" "wl_durable_end w' = 0" "\<not> wl_sync_in_progress w'"
    using assms d fr by (auto simp: wal_clear_def Let_def split: if_split_asm)
  show "wl_ring_ready w' \<Longrightarrow> log_inv [] [] w'"
    using assms d by (auto simp: wal_clear_def Let_def log_inv_def ring_inv_def all_there_def holds_at_def split: if_split_asm)
qed

lemma clear_inv:
  assumes inv: "gc_inv s" and c: "wal_clear env (gc_wal s) = Some (r, w)"
    and s': "s' = s\<lparr>gc_wal := w, gc_stable := [], gc_pre := [], gc_entries := []\<rparr>"
  shows "gc_inv s'"
proof -
  note fr = wal_clear_frame [OF c]
  have nl: "\<not> leader (gc_thread s i)" for i by (rule idle_leader [OF inv fr(3)])
  have "phase_ok s' (gc_thread s i)" for i
    using phase_at [OF inv refl, of i] nl [of i] fr(1) by (cases "gc_thread s i") (auto simp: phase_ok_def s' acked_def leader_def)
  moreover have "log_ok s'" using fr(2,5) by (simp add: log_ok_def s' stable_to_def agrees_0)
  moreover have "leaders_ok s'" using nl fr(4) by (simp add: leaders_ok_def s')
  ultimately show ?thesis by (simp add: gc_inv_def s')
qed

text \<open>What a later state keeps of the log as long as it is not cleared.\<close>

definition follows :: "gc \<Rightarrow> gc \<Rightarrow> bool" where
  "follows s s' \<longleftrightarrow> wl_epoch (gc_wal s) \<le> wl_epoch (gc_wal s')
     \<and> (wl_epoch (gc_wal s') = wl_epoch (gc_wal s) \<longrightarrow>
         wl_ring_ready (gc_wal s') = wl_ring_ready (gc_wal s) \<and> gc_pre s' = gc_pre s \<and> prefix (gc_entries s) (gc_entries s'))
     \<and> (gc_pre s' = gc_pre s \<or> gc_pre s' = [])"

lemma extends_follows: "extends s s' \<Longrightarrow> follows s s'"
  by (simp add: extends_def follows_def)

lemma follows_refl: "follows s s"
  by (simp add: follows_def)

lemma follows_trans:
  assumes "follows s s'" "follows s' s''"
  shows "follows s s''"
  using assms prefix_order.trans unfolding follows_def by (metis le_antisym le_trans)

theorem gc_step_inv: "gc_step s s' \<Longrightarrow> gc_inv s \<Longrightarrow> gc_inv s' \<and> follows s s'"
proof (induction rule: gc_step.induct)
  case (append s i env e r s')
  then show ?case using append_inv extends_follows by blast
next
  case (sync s i)
  then have "\<not> leader (gc_thread s i)" "phase_ok s (Check (sync_ticket (gc_wal s)))"
    by (auto simp: leader_def at_rest_def phase_ok_def sync_ticket_def split: phase.splits)
  then show ?case using move_inv [OF sync(2)] extends_follows by (simp add: leader_def)
next
  case (check s i t ph w)
  then show ?case using check_inv extends_follows by blast
next
  case (wake s i t)
  then have "\<not> leader (gc_thread s i)" "phase_ok s (Check t)" using phase_at [OF wake(2,1)] by (simp_all add: leader_def phase_ok_def)
  then show ?case using move_inv [OF wake(2)] extends_follows by (simp add: leader_def)
next
  case (drain s i t e env ph w)
  then show ?case using drain_step_inv extends_follows by blast
next
  case (fdatasync s i t e target env ph w ok)
  then show ?case using fdatasync_inv [OF fdatasync(3,1,2) refl] by (simp add: follows_def)
next
  case (finish s i t e target err ph w)
  then show ?case using finish_inv extends_follows by blast
next
  case (unwind s i t err ph w)
  then show ?case using unwind_inv extends_follows by blast
next
  case (clear env s r w)
  then show ?case using clear_inv [OF clear(2,1) refl] wal_clear_frame(1) [OF clear(1)] by (simp add: follows_def)
next
  case (kernel q s n)
  then show ?case using kernel_inv extends_follows by blast
qed

lemma gc_steps_inv: "gc_steps s s' \<Longrightarrow> gc_inv s \<Longrightarrow> gc_inv s' \<and> follows s s'"
proof (induction rule: rtranclp_induct)
  case (step s' s'')
  then show ?case using gc_step_inv follows_trans by blast
qed (simp add: follows_refl)

lemma gc_init_inv: "mk_wal oe dur f = Inr w \<Longrightarrow> gc_inv (gc_init w)"
  by (auto simp: mk_wal_def gc_inv_def log_ok_def leaders_ok_def phase_ok_def gc_init_def leader_def stable_to_def agrees_0
      log_inv_def ring_inv_def all_there_def holds_at_def split: if_split_asm)

section \<open>A thread that waits alone\<close>

definition waits_lawful :: "(drain_env \<times> sync_env) list \<Rightarrow> bool" where
  "waits_lawful envs \<longleftrightarrow> (\<forall>x \<in> set envs. drain_lawful (fst x))"

text \<open>One turn of the loop: return at once, or drain and fail, or drain, sync and go round.\<close>

lemma wait_turn:
  assumes "waitDurable ((de, se) # envs) t w = Some (r, w')"
  obtains
    (at_once) "r = None" "w' = w" "tk_epoch t \<noteq> wl_epoch w \<or> tk_end t \<le> wl_durable_end w"
  | (failed) w2 err where "drain de (w\<lparr>wl_sync_in_progress := True\<rparr>) = Some w2" "r = Some err" "wl_file w' = wl_file w2"
  | (again) w2 where "tk_epoch t = wl_epoch w" "drain de (w\<lparr>wl_sync_in_progress := True\<rparr>) = Some w2" "wl_failure w2 = None"
      "waitDurable envs t (w2\<lparr>wl_sync_calls := wl_sync_calls w2 + 1, wl_sync_in_progress := False,
         wl_durable_end := (if wl_epoch w2 = wl_epoch w then max (wl_durable_end w2) (wl_write_offset w2) else wl_durable_end w2)\<rparr>) = Some (r, w')"
proof (cases "tk_epoch t \<noteq> wl_epoch w \<or> tk_end t \<le> wl_durable_end w")
  case True
  then have "wd_check t w = (Returned t None, w)" by (simp add: wd_check_def)
  then show thesis using assms at_once True by simp
next
  case False
  then have w1: "wd_check t w = (Draining t (wl_epoch w), w\<lparr>wl_sync_in_progress := True\<rparr>)"
    using assms by (auto simp: wd_check_def split: if_split_asm)
  then obtain w2 where d: "drain de (w\<lparr>wl_sync_in_progress := True\<rparr>) = Some w2"
    using assms by (auto simp: wd_drain_def split: option.splits)
  consider (bad) f where "wl_failure w2 = Some f" | (before) "wl_failure w2 = None" "se_before se"
    | (sync) "wl_failure w2 = None" "\<not> se_before se" "se_error se \<or> \<not> se_fdatasync se"
    | (after) "wl_failure w2 = None" "\<not> se_before se" "\<not> (se_error se \<or> \<not> se_fdatasync se)" "se_after se"
    | (ok) "wl_failure w2 = None" "\<not> se_before se" "\<not> (se_error se \<or> \<not> se_fdatasync se)" "\<not> se_after se"
    by (cases "wl_failure w2") blast+
  then show thesis
  proof cases
    case bad
    then show thesis using assms w1 d by (intro failed [OF d]) (auto simp: wd_drain_def wd_finish_def Let_def)
  next
    case before
    then show thesis using assms w1 d by (intro failed [OF d]) (auto simp: wd_drain_def wd_sync_def wd_unwind_def)
  next
    case sync
    then show thesis using assms w1 d by (intro failed [OF d]) (auto simp: wd_drain_def wd_sync_def wd_finish_def Let_def)
  next
    case after
    then show thesis using assms w1 d by (intro failed [OF d]) (auto simp: wd_drain_def wd_sync_def wd_unwind_def Let_def)
  next
    case ok
    then show thesis using assms w1 d False by (intro again [OF _ d]) (auto simp: wd_drain_def wd_sync_def wd_finish_def Let_def)
  qed
qed

lemma wait_none: "waitDurable [] t w = Some (r, w') \<Longrightarrow> r = None \<and> w' = w \<and> (tk_epoch t \<noteq> wl_epoch w \<or> tk_end t \<le> wl_durable_end w)"
  by (auto simp: wd_check_def split: if_split_asm)

lemma wait_file:
  assumes "log_inv pre bufs w" "waits_lawful envs" "waitDurable envs t w = Some (r, w')" "landing_keeps pre bufs P" "P (wl_file w)"
  shows "P (wl_file w')"
  using assms
proof (induction envs arbitrary: w)
  case Nil
  then show ?case using wait_none [OF Nil.prems(3)] by simp
next
  case (Cons x envs)
  obtain de se where x: "x = (de, se)" by (cases x)
  have law: "drain_lawful de" "waits_lawful envs" using Cons.prems(2) x by (simp_all add: waits_lawful_def)
  have i: "log_inv pre bufs (w\<lparr>wl_sync_in_progress := True\<rparr>)" using Cons.prems(1) by simp
  from Cons.prems(3) [unfolded x] show ?case
  proof (cases rule: wait_turn)
    case at_once
    then show ?thesis using Cons.prems by simp
  next
    case (failed w2 err)
    then show ?thesis using drain_file [OF i law(1) failed(1) Cons.prems(4)] Cons.prems(5) by simp
  next
    case (again w2)
    have "P (wl_file w2)" using drain_file [OF i law(1) again(2) Cons.prems(4)] Cons.prems(5) by simp
    then show ?thesis using Cons.IH [OF _ law(2) again(4) Cons.prems(4)] drain_complete(1) [OF i law(1) again(2)] by simp
  qed
qed

lemma wait_stale: "tk_epoch t \<noteq> wl_epoch w \<Longrightarrow> waitDurable envs t w = Some (None, w)"
  by (cases envs) (auto simp: wd_check_def)

text \<open>A normal return for a record of the current log finds every record in the file.\<close>

lemma wait_done:
  assumes "log_inv pre bufs w" "waits_lawful envs" "waitDurable envs t w = Some (None, w')" "tk_epoch t = wl_epoch w" "wl_ring_ready w"
    and "tk_end t \<le> wl_durable_end w \<longrightarrow> wl_failure w = None \<and> wl_flight w = []" "wl_durable_end w \<le> wl_write_offset w"
  shows "log_inv pre bufs w' \<and> wl_failure w' = None \<and> wl_flight w' = [] \<and> wl_ring_ready w' \<and> wl_epoch w' = wl_epoch w
    \<and> wal_config w' = wal_config w \<and> wl_durable_end w' \<le> wl_write_offset w'"
  using assms
proof (induction envs arbitrary: w)
  case Nil
  then show ?case using wait_none [OF Nil.prems(3)] by simp
next
  case (Cons x envs)
  obtain de se where x: "x = (de, se)" by (cases x)
  have law: "drain_lawful de" "waits_lawful envs" using Cons.prems(2) x by (simp_all add: waits_lawful_def)
  have i: "log_inv pre bufs (w\<lparr>wl_sync_in_progress := True\<rparr>)" using Cons.prems(1) by simp
  from Cons.prems(3) [unfolded x] show ?case
  proof (cases rule: wait_turn)
    case at_once
    then show ?thesis using Cons.prems by simp
  next
    case (failed w2 err)
    then show ?thesis by simp
  next
    case (again w2)
    have fr: "wl_epoch w2 = wl_epoch w" "wl_ring_ready w2" "wl_durable_end w2 \<le> wl_write_offset w2"
      using drain_frame [OF again(2)] Cons.prems(5,7) by (simp_all add: wal_frame_def)
    have "log_inv pre bufs w2" by (rule drain_complete(1) [OF i law(1) again(2)])
    moreover have "wl_flight w2 = []" by (rule drain_complete(3) [OF i law(1) again(2,3) fr(2)])
    ultimately show ?thesis using Cons.IH [OF _ law(2) again(4)] again(1,3) fr drain_config [OF again(2)] by (simp add: wal_config_def)
  qed
qed

section \<open>What survives\<close>

lemma survives_agrees:
  assumes "stable_to d s" "survives s f"
  shows "agrees d (the_log s) f"
proof -
  have a: "d \<le> length (gc_stable s)" "d \<le> length (the_log s)" "\<And>j. j < d \<Longrightarrow> gc_stable s ! j = the_log s ! j"
      "\<And>j. j < d \<Longrightarrow> wl_file (gc_wal s) ! j = the_log s ! j"
    using assms(1) by (auto simp: stable_to_def agrees_nth)
  have "f ! j = the_log s ! j" if "j < d" for j
  proof -
    have "f ! j = gc_stable s ! j \<or> f ! j = wl_file (gc_wal s) ! j"
      using assms(2) a(1) that unfolding survives_def by (meson less_le_trans)
    then show ?thesis using a(3,4) [OF that] by metis
  qed
  then show ?thesis using a(1,2) assms(2) by (auto simp: agrees_nth survives_def)
qed

text \<open>A log that is stable at least as far as it reached in \<open>s1\<close> recovers all records of \<open>s1\<close>.\<close>

lemma stable_recovers:
  assumes inv: "gc_inv s2" and f: "follows s1 s2" and ep: "wl_epoch (gc_wal s2) = wl_epoch (gc_wal s1)"
    and pre: "gc_pre s1 = concat (map slot_bytes ss)" "\<forall>x \<in> set ss. entry_fits (fst x)"
    and st: "stable_to d s2" "length (the_log s1) \<le> d" and sv: "survives s2 g"
  shows "\<exists>rest. recover_from g 0 = map fst (filter snd ss) @ gc_entries s1 @ rest"
proof -
  obtain es where es: "gc_entries s2 = gc_entries s1 @ es" "gc_pre s2 = gc_pre s1"
    using f ep by (auto simp: follows_def elim: prefixE)
  then have l: "the_log s2 = the_log s1 @ concat (map encode_entry es)" by (simp add: the_log_def)
  let ?n = "length (the_log s1)"
  have "take d g = take d (the_log s2)" using survives_agrees [OF st(1) sv] by (simp add: agrees_def)
  from arg_cong [OF this, of "take ?n"] have "take ?n g = the_log s1" using st(2) by (simp add: l min_absorb1)
  with append_take_drop_id [of ?n g] have "the_log s1 @ drop ?n g = g" by simp
  then obtain r where r: "g = concat (map slot_bytes ss) @ concat (map encode_entry (gc_entries s1)) @ r"
    unfolding the_log_def pre(1) append.assoc by (rule that [OF sym])
  have "\<forall>e \<in> set (gc_entries s1). entry_fits e" using inv es(1) by (auto simp: gc_inv_def log_ok_def)
  then show ?thesis unfolding r recover_from_slots [OF pre(2)] by (auto simp: recover_from_entries)
qed

lemma gc_reached:
  assumes "mk_wal oe dur (concat (map slot_bytes ss)) = Inr w" "\<forall>x \<in> set ss. entry_fits (fst x)" "gc_steps (gc_init w) s"
  shows "gc_inv s" "\<exists>ss'. gc_pre s = concat (map slot_bytes ss') \<and> (\<forall>x \<in> set ss'. entry_fits (fst x))"
proof -
  have "gc_pre (gc_init w) = concat (map slot_bytes ss)" using assms(1) by (auto simp: gc_init_def mk_wal_def split: if_split_asm)
  moreover have inv: "gc_inv s" "follows (gc_init w) s" using gc_steps_inv [OF assms(3) gc_init_inv [OF assms(1)]] by simp_all
  ultimately have "gc_pre s = concat (map slot_bytes ss) \<or> gc_pre s = concat (map slot_bytes [])" by (simp add: follows_def)
  then show "gc_inv s" "\<exists>ss'. gc_pre s = concat (map slot_bytes ss') \<and> (\<forall>x \<in> set ss'. entry_fits (fst x))"
    using assms(2) inv(1) by (auto intro: exI [of _ ss] exI [of _ "[]"])
qed

text \<open>A ticket taken at the end of the log in \<open>s1\<close>, acknowledged later.\<close>

lemma ack_recovers:
  assumes s1: "gc_inv s1" "wl_ring_ready (gc_wal s1)" "tk_epoch t = wl_epoch (gc_wal s1)" "tk_end t = length (the_log s1)"
    and pre: "gc_pre s1 = concat (map slot_bytes ss)" "\<forall>x \<in> set ss. entry_fits (fst x)"
    and s2: "gc_steps s1 s2" "gc_thread s2 i = Returned t None" "wl_epoch (gc_wal s2) = tk_epoch t" and sv: "survives s2 g"
  shows "\<exists>rest. recover_from g 0 = recover_from (gc_pre s1) 0 @ gc_entries s1 @ rest"
proof -
  have i2: "gc_inv s2" "follows s1 s2" using gc_steps_inv [OF s2(1) s1(1)] by simp_all
  have "acked t (gc_wal s2)" using phase_at [OF i2(1) s2(2)] by (simp add: phase_ok_def)
  then have d: "length (the_log s1) \<le> wl_durable_end (gc_wal s2)" using s2(3) s1(4) by (simp add: acked_def)
  have "wl_ring_ready (gc_wal s2)" using i2(2) s1 s2(3) by (simp add: follows_def)
  then have "stable_to (wl_durable_end (gc_wal s2)) s2" using i2(1) by (simp add: gc_inv_def log_ok_def)
  from stable_recovers [OF i2 _ pre this d sv] s2(3) s1(3)
  show ?thesis using recover_from_slots [OF pre(2), of "[]"] by (simp add: pre(1) recover_from_past)
qed

section \<open>Properties\<close>




section \<open>Examples\<close>

definition ex_rec :: wal_entry where
  "ex_rec = mk_entry PUT [1] [1]"

definition ex_se :: sync_env where
  "ex_se = \<lparr>se_before = False, se_error = False, se_fdatasync = True, se_after = False\<rparr>"

definition ex_tk :: ticket where
  "ex_tk = \<lparr>tk_epoch = 0, tk_end = 512\<rparr>"

text \<open>One thread appends a record to a new log and waits for it.\<close>

definition ex_gc1 :: gc where
  "ex_gc1 = (gc_init ex_wal)\<lparr>gc_wal := enqueue (encode_entry ex_rec) ex_wal, gc_thread := (\<lambda>_. Idle)(0 := Check ex_tk), gc_entries := [ex_rec]\<rparr>"

definition ex_drained :: wal where
  "ex_drained = ex_wal\<lparr>wl_write_offset := 512, wl_next := 1, wl_file := encode_entry ex_rec, wl_sync_in_progress := True\<rparr>"

definition ex_gc2 :: gc where
  "ex_gc2 = ex_gc1\<lparr>gc_wal := ex_drained\<lparr>wl_sync_calls := 1, wl_durable_end := 512, wl_sync_in_progress := False\<rparr>,
     gc_thread := (\<lambda>_. Idle)(0 := Returned ex_tk None), gc_stable := encode_entry ex_rec\<rparr>"

lemma ex_rec_len [simp]: "length (encode_record 1 [1] [1]) = 512" "encode_entry ex_rec = encode_record 1 [1] [1]" "entry_fits ex_rec"
  by (simp_all add: ex_rec_def mk_entry_def encode_entry_def length_encode_record record_size_def align512_def entry_fits_def)

lemma ex_rec_ne [simp]: "encode_record 1 [1] [1] \<noteq> []"
  using ex_rec_len(1) by (metis list.size(3) zero_neq_numeral)

lemma ex_append_step: "gc_append 0 ex_append ex_rec (gc_init ex_wal) = Some (Inr ex_tk, ex_gc1)"
proof -
  have "append_entry ex_append ex_rec ex_wal = Some (Inr ex_tk, enqueue (encode_entry ex_rec) ex_wal)"
    unfolding ex_rec_len(2)
    by (simp add: append_entry_def appendPut_def wal_writeEntry_def ex_wal_eq ex_append_def ex_rec_def mk_entry_def
        submit_record_def io_submit_def enqueue_def Let_def ex_tk_def)
  then show ?thesis by (simp add: gc_append_def ex_gc1_def gc_init_def after_append_def in_log_def enqueue_def ex_wal_eq Let_def)
qed

lemma ex_drain_step: "drain ([ex_ev], []) ((enqueue (encode_entry ex_rec) ex_wal)\<lparr>wl_sync_in_progress := True\<rparr>) = Some ex_drained"
  by (simp add: drain_def ex_ev_def enqueue_def ex_wal_eq Let_def land_def remove_nth_def complete_def final_result_def count_down_def
      free_pending_def write_at_def ex_drained_def)

lemma ex_wait_steps: "gc_steps ex_gc1 ex_gc2"
proof -
  let ?w = "enqueue (encode_entry ex_rec) ex_wal"
  let ?a = "ex_gc1\<lparr>gc_wal := ?w\<lparr>wl_sync_in_progress := True\<rparr>, gc_thread := (\<lambda>_. Idle)(0 := Draining ex_tk 0)\<rparr>"
  let ?b = "?a\<lparr>gc_wal := ex_drained, gc_thread := (\<lambda>_. Idle)(0 := Syncing ex_tk 0 512)\<rparr>"
  let ?c = "?b\<lparr>gc_wal := ex_drained\<lparr>wl_sync_calls := 1\<rparr>, gc_thread := (\<lambda>_. Idle)(0 := Finishing ex_tk 0 512 None), gc_stable := encode_entry ex_rec\<rparr>"
  let ?d = "?c\<lparr>gc_wal := ex_drained\<lparr>wl_sync_calls := 1, wl_durable_end := 512, wl_sync_in_progress := False\<rparr>, gc_thread := (\<lambda>_. Idle)(0 := Check ex_tk)\<rparr>"
  note ex = ex_gc1_def ex_gc2_def gc_init_def enqueue_def Let_def ex_wal_eq ex_tk_def ex_drained_def
  have a: "gc_step ex_gc1 ?a"
    using gc_step.check [of ex_gc1 0 ex_tk] by (simp add: ex wd_check_def)
  have "wd_drain ([ex_ev], []) ex_tk 0 (gc_wal ?a) = Some (Syncing ex_tk 0 512, ex_drained)"
    using ex_drain_step by (simp add: wd_drain_def) (simp add: ex_drained_def ex_wal_eq)
  moreover have "wl_ring_ready (gc_wal ?a)" by (simp add: ex)
  moreover have "drain_lawful ([ex_ev], [])" by (simp add: drain_lawful_def ev_lawful_def ex_ev_def)
  ultimately have b: "gc_step ?a ?b" using gc_step.drain [of ?a 0 ex_tk 0 "([ex_ev], [])"] by simp
  have c: "gc_step ?b ?c"
    using gc_step.fdatasync [of ?b 0 ex_tk 0 512 ex_se "Finishing ex_tk 0 512 None" "ex_drained\<lparr>wl_sync_calls := 1\<rparr>" True]
    by (simp add: wd_sync_def ex_se_def ex)
  have d: "gc_step ?c ?d"
    using gc_step.finish [of ?c 0 ex_tk 0 512 None] by (simp add: wd_finish_def ex)
  have e: "gc_step ?d ex_gc2"
    using gc_step.check [of ?d 0 ex_tk] by (simp add: wd_check_def ex)
  show ?thesis using a b c d e by (meson rtranclp.rtrancl_into_rtrancl rtranclp.rtrancl_refl)
qed

lemma ex_init: "mk_wal ex_oe Durable (concat (map slot_bytes [])) = Inr ex_wal"
  by (simp add: ex_wal_def mk_wal_def ex_oe_def)

lemma ex_reach: "gc_steps (gc_init ex_wal) ex_gc2"
proof -
  have "gc_step (gc_init ex_wal) ex_gc1"
    using ex_append_step by (intro gc_step.append [of _ 0 ex_append ex_rec])
      (simp_all add: gc_init_def at_rest_def append_lawful_def ex_append_def ex_wal_eq ex_rec_def mk_entry_def)
  then show ?thesis using ex_wait_steps by (rule converse_rtranclp_into_rtranclp)
qed


lemma ex_survives: "survives ex_gc2 (encode_record 1 [1] [1] @ [7])"
  by (simp add: survives_def ex_gc2_def nth_append)



end
