(* ===== verification/Fault.thy ===== *)
theory Fault
  imports Prelude
begin

text \<open>
  Fault injection (src/util/fault.h and src/util/fault.cpp): the table of armed points with its counters at
  their width of 64 bits, the firing rule, and what a firing does at the three kinds of call site. A
  \<open>SIGKILL\<close> is the outcome \<open>Killed\<close>. The other theories take the outcome of a point as an argument;
  this one says which outcomes a test can arrange.
\<close>

datatype action = Throw | Crash | Fail

record point =
  pt_hits :: "64 word"
  pt_nth :: "64 word"
  pt_repeat :: "64 word"
  pt_action :: action

record faults =
  g_armed :: bool
  g_points :: "string \<rightharpoonup> point"

datatype hit_outcome = Continue | Killed | Injected string

definition new_point :: point where
  "new_point = \<lparr>pt_hits = 0, pt_nth = 0, pt_repeat = 1, pt_action = Throw\<rparr>"

text \<open>\<open>g_points[name]\<close>: the entry is created when it is missing.\<close>

definition point_at :: "string \<Rightarrow> faults \<Rightarrow> point" where
  "point_at name s = (case g_points s name of Some p \<Rightarrow> p | None \<Rightarrow> new_point)"

definition set_point :: "string \<Rightarrow> point \<Rightarrow> faults \<Rightarrow> faults" where
  "set_point name p s = s\<lparr>g_points := (g_points s)(name \<mapsto> p)\<rparr>"

definition fires :: "string \<Rightarrow> faults \<Rightarrow> action option \<times> faults" where
  "fires name s =
     (let p = point_at name s; p = p\<lparr>pt_hits := pt_hits p + 1\<rparr> in
      if pt_nth p \<noteq> 0 \<and> pt_hits p \<ge> pt_nth p
      then (let p' = (if pt_hits p \<ge> pt_nth p + pt_repeat p - 1 then p\<lparr>pt_nth := 0\<rparr> else p)
            in (Some (pt_action p), set_point name p' s))
      else (None, set_point name p s))"

definition hitSlow :: "string \<Rightarrow> faults \<Rightarrow> hit_outcome \<times> faults" where
  "hitSlow name s =
     (case fires name s of
        (None, s) \<Rightarrow> (Continue, s)
      | (Some Crash, s) \<Rightarrow> (Killed, s)
      | (Some Throw, s) \<Rightarrow> (Injected name, s)
      | (Some Fail, s) \<Rightarrow> (Continue, s))"

definition crashPointSlow :: "string \<Rightarrow> faults \<Rightarrow> hit_outcome \<times> faults" where
  "crashPointSlow name s =
     (case fires name s of (a, s) \<Rightarrow> (if a = Some Crash then Killed else Continue, s))"

definition shouldFailSlow :: "string \<Rightarrow> faults \<Rightarrow> bool \<times> faults" where
  "shouldFailSlow name s = (case fires name s of (a, s) \<Rightarrow> (a = Some Fail, s))"

definition fault_hit :: "string \<Rightarrow> faults \<Rightarrow> hit_outcome \<times> faults" where
  "fault_hit name s = (if g_armed s then hitSlow name s else (Continue, s))"

definition crashPoint :: "string \<Rightarrow> faults \<Rightarrow> hit_outcome \<times> faults" where
  "crashPoint name s = (if g_armed s then crashPointSlow name s else (Continue, s))"

definition shouldFail :: "string \<Rightarrow> faults \<Rightarrow> bool \<times> faults" where
  "shouldFail name s = (if g_armed s then shouldFailSlow name s else (False, s))"

definition arm :: "string \<Rightarrow> 64 word \<Rightarrow> action \<Rightarrow> 64 word \<Rightarrow> faults \<Rightarrow> faults" where
  "arm name n action repeat s =
     (set_point name \<lparr>pt_hits = 0, pt_nth = n, pt_repeat = (if repeat = 0 then 1 else repeat), pt_action = action\<rparr> s)
       \<lparr>g_armed := True\<rparr>"

definition disarmAll :: "faults \<Rightarrow> faults" where
  "disarmAll s = s\<lparr>g_points := Map.empty, g_armed := False\<rparr>"

definition hitCount :: "string \<Rightarrow> faults \<Rightarrow> 64 word" where
  "hitCount name s = (case g_points s name of None \<Rightarrow> 0 | Some p \<Rightarrow> pt_hits p)"

text \<open>\<open>Pause\<close>: the constructor keeps the old flag, the destructor stores it back.\<close>

definition pause :: "faults \<Rightarrow> bool \<times> faults" where
  "pause s = (g_armed s, s\<lparr>g_armed := False\<rparr>)"

definition unpause :: "bool \<Rightarrow> faults \<Rightarrow> faults" where
  "unpause was s = s\<lparr>g_armed := was\<rparr>"

section \<open>Which hits fire\<close>

fun fires_all :: "string list \<Rightarrow> faults \<Rightarrow> action option list \<times> faults" where
  "fires_all [] s = ([], s)"
| "fires_all (q # qs) s =
     (case fires q s of (a, s) \<Rightarrow> case fires_all qs s of (as, s) \<Rightarrow> (a # as, s))"

text \<open>The point after \<open>k\<close> of its hits.\<close>

definition counted :: "64 word \<Rightarrow> 64 word \<Rightarrow> action \<Rightarrow> nat \<Rightarrow> point \<Rightarrow> bool" where
  "counted n r a k p \<longleftrightarrow>
     pt_nth p = (if k < unat n + unat r - 1 then n else 0)
     \<and> (k < unat n + unat r - 1 \<longrightarrow> pt_hits p = of_nat k \<and> pt_repeat p = r \<and> pt_action p = a)"

lemma small_unat: "m < 2 ^ 64 \<Longrightarrow> unat (of_nat m :: 64 word) = m"
  by (simp add: unat_of_nat take_bit_nat_eq_self_iff)

lemma last_firing:
  fixes n r :: "64 word"
  assumes "n \<noteq> 0" "r \<noteq> 0" "unat n + unat r \<le> 2 ^ 64"
  shows "unat (n + r - 1) = unat n + unat r - 1"
proof -
  have n: "unat (n - 1) = unat n - 1" "0 < unat n" using assms(1) by (simp_all add: unat_minus_one unat_gt_0)
  have "unat ((n - 1) + r) = unat (n - 1) + unat r"
  proof -
    have "unat (n - 1) + unat r < 2 ^ 64" using assms(3) n by linarith
    then show ?thesis by (intro iffD1 [OF unat_add_lem]) simp
  qed
  then show ?thesis using n by (simp add: algebra_simps)
qed

lemma fires_counted:
  assumes r: "n \<noteq> 0" "r \<noteq> 0" "unat n + unat r \<le> 2 ^ 64" and c: "counted n r a k (point_at q s)"
  shows "fst (fires q s) = (if unat n \<le> Suc k \<and> Suc k < unat n + unat r then Some a else None)"
    and "counted n r a (Suc k) (point_at q (snd (fires q s)))"
proof -
  let ?p = "point_at q s" and ?m = "unat n + unat r - 1"
  note l = last_firing [OF r]
  have pos: "0 < unat n" "0 < unat r" using r by (simp_all add: unat_gt_0)
  have "fst (fires q s) = (if unat n \<le> Suc k \<and> Suc k < unat n + unat r then Some a else None)
     \<and> counted n r a (Suc k) (point_at q (snd (fires q s)))"
  proof (cases "k < ?m")
    case False
    then have "pt_nth ?p = 0" using c by (simp add: counted_def)
    then show ?thesis using False by (auto simp: fires_def Let_def counted_def point_at_def set_point_def)
  next
    case True
    then have p: "pt_nth ?p = n" "pt_hits ?p + 1 = of_nat (Suc k)" "pt_repeat ?p = r" "pt_action ?p = a"
      using c by (simp_all add: counted_def)
    have "Suc k < 2 ^ 64" using True r(3) pos by linarith
    then have k: "unat (of_nat (Suc k) :: 64 word) = Suc k" by (rule small_unat)
    have "n \<le> of_nat (Suc k) \<longleftrightarrow> unat n \<le> Suc k" "n + r - 1 \<le> of_nat (Suc k) \<longleftrightarrow> ?m \<le> Suc k"
      by (simp_all only: word_le_nat_alt k l)
    then show ?thesis
      using True pos r(1) p(1,3,4) unfolding fires_def Let_def p(2)
      by (auto simp: p(2) counted_def point_at_def set_point_def split: option.splits)
  qed
  then show "fst (fires q s) = (if unat n \<le> Suc k \<and> Suc k < unat n + unat r then Some a else None)"
    "counted n r a (Suc k) (point_at q (snd (fires q s)))" by auto
qed

lemma fires_other: "q \<noteq> p \<Longrightarrow> point_at p (snd (fires q s)) = point_at p s"
  by (simp add: fires_def Let_def point_at_def set_point_def)

lemma fires_all_counted:
  assumes r: "n \<noteq> 0" "r \<noteq> 0" "unat n + unat r \<le> 2 ^ 64" and c: "counted n r a k (point_at p s)"
    and i: "i < length qs" "qs ! i = p"
  shows "fst (fires_all qs s) ! i =
    (let m = k + count_list (take (Suc i) qs) p in if unat n \<le> m \<and> m < unat n + unat r then Some a else None)"
  using c i
proof (induction qs arbitrary: s k i)
  case (Cons q qs)
  let ?s = "snd (fires q s)" and ?k = "if q = p then Suc k else k"
  have c: "counted n r a ?k (point_at p ?s)"
    using Cons.prems(1) fires_counted(2) [OF r] fires_other [of q p s] by auto
  show ?case
  proof (cases i)
    case 0
    then show ?thesis using fires_counted(1) [OF r Cons.prems(1)] Cons.prems
      by (simp add: Let_def case_prod_unfold)
  next
    case (Suc j)
    then show ?thesis using Cons.IH [OF c, of j] Cons.prems by (simp add: case_prod_unfold)
  qed
qed simp

section \<open>Properties\<close>

text \<open>C39. A point armed for its \<open>nth\<close> hit with \<open>repeat\<close> fires exactly on its hits \<open>nth\<close> to \<open>nth + repeat - 1\<close>, however its
  hits are interleaved with those of other points and however many follow, a \<open>repeat\<close> of 0 counting as 1;
  the last of these hits must be representable in 64 bits.\<close>

theorem fault_fires_exactly:
  assumes "n \<noteq> 0" "unat n + unat (if repeat = 0 then 1 else repeat) \<le> 2 ^ 64"
    and "i < length qs" "qs ! i = p"
  shows "fst (fires_all qs (arm p n a repeat s)) ! i =
    (let m = count_list (take (Suc i) qs) p
     in if unat n \<le> m \<and> m < unat n + unat (if repeat = 0 then 1 else repeat) then Some a else None)"
proof -
  let ?r = "if repeat = 0 then 1 else repeat"
  have "0 < unat n" "0 < unat ?r" using assms(1) by (simp_all add: unat_gt_0)
  then have "counted n ?r a 0 (point_at p (arm p n a repeat s))"
    by (simp add: counted_def arm_def point_at_def set_point_def)
  from fires_all_counted [OF assms(1) _ assms(2) this assms(3,4)] show ?thesis by (simp add: Let_def)
qed

text \<open>While a \<open>Pause\<close> is alive no point fires or counts, and its end restores the table and the flag exactly.\<close>

theorem pause_suspends:
  "case pause s of (was, s') \<Rightarrow>
     fault_hit p s' = (Continue, s') \<and> crashPoint p s' = (Continue, s') \<and> shouldFail p s' = (False, s') \<and> unpause was s' = s"
  by (simp add: pause_def unpause_def fault_hit_def crashPoint_def shouldFail_def)

theorem fault_fires_exactly_witness:
  "fst (fires_all [''a'', ''b'', ''a'', ''a'', ''a''] (arm ''a'' 2 Crash 2 \<lparr>g_armed = False, g_points = Map.empty\<rparr>)) ! 3 = Some Crash"
proof -
  let ?qs = "[''a'', ''b'', ''a'', ''a'', ''a'']" and ?s = "\<lparr>g_armed = False, g_points = Map.empty\<rparr> :: faults"
  have "fst (fires_all ?qs (arm ''a'' 2 Crash 2 ?s)) ! 3 =
      (let m = count_list (take (Suc 3) ?qs) ''a''
       in if unat (2 :: 64 word) \<le> m \<and> m < unat (2 :: 64 word) + unat (if (2 :: 64 word) = 0 then 1 else 2 :: 64 word) then Some Crash else None)"
    by (rule fault_fires_exactly) simp_all
  also have "count_list (take (Suc 3) ?qs) ''a'' = 3" by simp
  finally show ?thesis by (simp add: Let_def)
qed

end
