(* ===== verification/Scan.thy ===== *)
theory Scan
  imports Memtable CompactorSafety
begin

text \<open>
  Range scans (\<open>LSMEngine::scan\<close> and its sources, src/db/lsm_engine.cpp): the memtable and every table that can
  hold a key of the range are walked together through a priority queue; the newest version of each key
  is delivered and the older ones are skipped. A heap node carries the current entry of its source with the
  source's rank, its position in the list of sources. \<open>None\<close> is a read of invalid memory or a loop that does not end.

  The theorem shows that a scan returns, and that it delivers the first \<open>limit\<close> live entries of the range in
  ascending order.
\<close>

section \<open>Sources\<close>

datatype scan_source = MemtableSource mt_iter | SSTableSource sst_iter "entry option"

text \<open>\<open>valid\<close>, \<open>key\<close> and \<open>value\<close>.\<close>

fun src_current :: "scan_source \<Rightarrow> entry option" where
  "src_current (MemtableSource it) = map_option snd it"
| "src_current (SSTableSource it cur) = cur"

fun src_next :: "memtable \<Rightarrow> scan_source \<Rightarrow> scan_source option" where
  "src_next m (MemtableSource it) = map_option MemtableSource (mt_next m it)"
| "src_next m (SSTableSource it cur) =
     Some (case it_next it of Some (e, it') \<Rightarrow> SSTableSource it' (Some e) | None \<Rightarrow> SSTableSource it None)"

definition memtable_source :: "memtable \<Rightarrow> bytes \<Rightarrow> scan_source option" where
  "memtable_source m start = map_option MemtableSource (mt_seek m start)"

definition sstable_source :: "memtable \<Rightarrow> fs \<Rightarrow> sstable \<Rightarrow> bytes \<Rightarrow> scan_source option" where
  "sstable_source m fs t start = src_next m (SSTableSource (createIterator_from fs t start) None)"

text \<open>\<open>stale->next(); if (stale->valid()) heap.push(stale);\<close>\<close>

definition scan_adv :: "memtable \<Rightarrow> scan_source list adv_fn" where
  "scan_adv m i srcs =
     (if i < length srcs
      then (case src_next m (srcs ! i) of None \<Rightarrow> None | Some s \<Rightarrow> Some (src_current s, srcs[i := s]))
      else None)"

section \<open>The scan\<close>

definition skipped :: "bytes \<Rightarrow> bytes option \<Rightarrow> sstable \<Rightarrow> bool" where
  "skipped start stop t \<longleftrightarrow>
     sst_index t = [] \<or> largestKey t < start \<or> (case stop of None \<Rightarrow> False | Some e \<Rightarrow> \<not> smallestKey t < e)"

fun table_sources :: "memtable \<Rightarrow> fs \<Rightarrow> bytes \<Rightarrow> bytes option \<Rightarrow> sstable list \<Rightarrow> scan_source list \<Rightarrow> scan_source list option" where
  "table_sources m fs start stop [] srcs = Some srcs"
| "table_sources m fs start stop (t # ts) srcs =
     (if skipped start stop t then table_sources m fs start stop ts srcs
      else (case sstable_source m fs t start of
              None \<Rightarrow> None
            | Some s \<Rightarrow> table_sources m fs start stop ts (srcs @ [s])))"

definition scan_sources :: "memtable \<Rightarrow> fs \<Rightarrow> sstable list \<Rightarrow> bytes \<Rightarrow> bytes option \<Rightarrow> scan_source list option" where
  "scan_sources m fs tables start stop =
     (case memtable_source m start of
        None \<Rightarrow> None
      | Some s \<Rightarrow> table_sources m fs start stop (rev tables) [s])"

fun scan_fill :: "nat \<Rightarrow> scan_source list \<Rightarrow> heap_node list" where
  "scan_fill i [] = []"
| "scan_fill i (s # srcs) =
     (case src_current s of None \<Rightarrow> scan_fill (i + 1) srcs | Some e \<Rightarrow> (e, i) # scan_fill (i + 1) srcs)"

definition past_end :: "bytes option \<Rightarrow> bytes \<Rightarrow> bool" where
  "past_end stop key = (case stop of None \<Rightarrow> False | Some e \<Rightarrow> \<not> key < e)"

partial_function (option) scan_loop :: "memtable \<Rightarrow> bytes option \<Rightarrow> nat \<Rightarrow> heap_node list \<Rightarrow> scan_source list
    \<Rightarrow> (bytes \<times> bytes) list \<Rightarrow> (bytes \<times> bytes) list option" where
  "scan_loop m stop limit heap srcs out =
     (if heap = [] \<or> length out \<ge> limit then Some out
      else
        (let winner = pq_top int heap; key = fst (fst winner); val = snd (fst winner) in
         if past_end stop key then Some out
         else
           (case pop_dups (scan_adv m) int key (pq_pop int heap) srcs of
              None \<Rightarrow> None
            | Some (heap, srcs) \<Rightarrow>
                (case refill (scan_adv m) (snd winner) heap srcs of
                   None \<Rightarrow> None
                 | Some (heap, srcs) \<Rightarrow>
                     scan_loop m stop limit heap srcs (case val of None \<Rightarrow> out | Some v \<Rightarrow> out @ [(key, v)])))))"

definition scan :: "memtable \<Rightarrow> fs \<Rightarrow> sstable list \<Rightarrow> bytes \<Rightarrow> bytes option \<Rightarrow> nat \<Rightarrow> (bytes \<times> bytes) list option" where
  "scan m fs tables start stop limit =
     (if limit = 0 \<or> (case stop of None \<Rightarrow> False | Some e \<Rightarrow> e \<le> start) then Some []
      else
        (case scan_sources m fs tables start stop of
           None \<Rightarrow> None
         | Some srcs \<Rightarrow> scan_loop m stop limit (scan_fill 0 srcs) srcs []))"

section \<open>What the sources deliver\<close>

fun src_rest :: "memtable \<Rightarrow> scan_source \<Rightarrow> entry list" where
  "src_rest m (MemtableSource it) = tl (the (mt_collect m it))"
| "src_rest m (SSTableSource it cur) = it_entries it"

fun src_ok :: "memtable \<Rightarrow> scan_source \<Rightarrow> bool" where
  "src_ok m (MemtableSource it) \<longleftrightarrow> mt_collect m it \<noteq> None"
| "src_ok m (SSTableSource it cur) \<longleftrightarrow> (\<exists>es. iter_at it es \<and> (\<forall>e \<in> set es. entry_ok e) \<and> (cur = None \<longrightarrow> es = []))"

definition src_list :: "memtable \<Rightarrow> scan_source \<Rightarrow> entry list" where
  "src_list m s = (case src_current s of None \<Rightarrow> [] | Some e \<Rightarrow> e # src_rest m s)"

definition srcs_ok :: "memtable \<Rightarrow> nat \<Rightarrow> scan_source list \<Rightarrow> bool" where
  "srcs_ok m n srcs \<longleftrightarrow> length srcs = n \<and> (\<forall>s \<in> set srcs. src_ok m s)"

lemma mt_collect_None [simp]: "mt_collect m None = Some []"
  by (subst mt_collect.simps) simp

lemma mt_collect_Some:
  assumes "mt_collect m (Some (a, e)) = Some es"
  shows "\<exists>it' es'. mt_next m (Some (a, e)) = Some it' \<and> mt_collect m it' = Some es' \<and> es = e # es'"
  using assms by (subst (asm) mt_collect.simps) (auto simp: bind_eq_Some_conv split: option.splits)

lemma src_list_mem: "mt_collect m it = Some es \<Longrightarrow> src_list m (MemtableSource it) = es"
  by (cases it) (auto simp: src_list_def dest!: mt_collect_Some)

lemma src_next_list:
  assumes "src_ok m s"
  shows "\<exists>s'. src_next m s = Some s' \<and> src_ok m s' \<and> src_list m s' = src_rest m s"
proof (cases s)
  case (MemtableSource it)
  show ?thesis
  proof (cases it)
    case None
    then show ?thesis using MemtableSource by (simp add: mt_next_def updateCache_def src_list_def)
  next
    case (Some x)
    obtain a e where x: "x = (a, e)" by (cases x)
    obtain es where "mt_collect m (Some (a, e)) = Some es" using assms MemtableSource Some x by auto
    then show ?thesis using mt_collect_Some [of m a e es] MemtableSource Some x by (auto simp: src_list_mem)
  qed
next
  case (SSTableSource it cur)
  then obtain es where es: "iter_at it es" "\<forall>e \<in> set es. entry_ok e" using assms by auto
  show ?thesis
  proof (cases es)
    case Nil
    then have "it_next it = None" using es(1) by (simp add: iter_at_def it_next_def)
    then show ?thesis using SSTableSource es Nil it_entries_at [OF es] by (auto simp: src_list_def)
  next
    case (Cons e es')
    then obtain it' where it': "it_next it = Some (e, it')" "iter_at it' es'" using it_next_at [of it e es'] es by auto
    moreover have "it_entries it' = es'" "it_entries it = e # es'" using it_entries_at [OF it'(2)] it_entries_at [OF es] es(2) Cons by simp_all
    ultimately show ?thesis using SSTableSource es(2) Cons by (auto simp: src_list_def)
  qed
qed

lemma src_list_end: "src_ok m s \<Longrightarrow> src_current s = None \<Longrightarrow> src_rest m s = []"
  by (cases s) (auto simp: it_entries_at)

interpretation sources: merge_source "scan_adv m" "\<lambda>srcs i. src_rest m (srcs ! i)" "srcs_ok m" for m
proof (unfold_locales, goal_cases)
  case (1 n srcs i)
  then have "src_ok m (srcs ! i)" by (auto simp: srcs_ok_def)
  then obtain s' where s': "src_next m (srcs ! i) = Some s'" "src_ok m s'" "src_list m s' = []"
    using src_next_list 1(3) by fastforce
  then have "src_current s' = None" by (simp add: src_list_def split: option.splits)
  moreover have "srcs_ok m n (srcs[i := s'])" using 1(1) s'(2) by (auto simp: srcs_ok_def dest: set_update_subset_insert [THEN subsetD])
  moreover have "(\<lambda>j. src_rest m (srcs[i := s'] ! j)) = (\<lambda>j. src_rest m (srcs ! j))"
    using 1 src_list_end [OF s'(2)] calculation(1) by (auto simp: fun_eq_iff srcs_ok_def nth_list_update)
  ultimately show ?case using 1 s'(1) by (simp add: scan_adv_def srcs_ok_def)
next
  case (2 n srcs i e es)
  then have "src_ok m (srcs ! i)" by (auto simp: srcs_ok_def)
  then obtain s' where s': "src_next m (srcs ! i) = Some s'" "src_ok m s'" "src_list m s' = e # es"
    using src_next_list 2(3) by fastforce
  then have "src_current s' = Some e" "src_rest m s' = es" by (simp_all add: src_list_def split: option.splits)
  moreover have "srcs_ok m n (srcs[i := s'])" using 2(1) s'(2) by (auto simp: srcs_ok_def dest: set_update_subset_insert [THEN subsetD])
  moreover have "(\<lambda>j. src_rest m (srcs[i := s'] ! j)) = (\<lambda>j. src_rest m (srcs ! j))(i := es)"
    using 2(1,2) calculation(2) by (auto simp: fun_eq_iff srcs_ok_def nth_list_update)
  ultimately show ?case using 2 s'(1) by (simp add: scan_adv_def srcs_ok_def)
qed

lemma scan_fill_set: "x \<in> set (scan_fill k srcs) \<longleftrightarrow> (\<exists>i < length srcs. snd x = k + i \<and> src_current (srcs ! i) = Some (fst x))"
proof (induction k srcs rule: scan_fill.induct)
  case (2 k s srcs)
  have "(\<exists>i < length (s # srcs). snd x = k + i \<and> src_current ((s # srcs) ! i) = Some (fst x)) \<longleftrightarrow>
      (snd x = k \<and> src_current s = Some (fst x)) \<or> (\<exists>i < length srcs. snd x = (k + 1) + i \<and> src_current (srcs ! i) = Some (fst x))"
    by (auto simp: less_Suc_eq_0_disj)
  then show ?case using 2 by (auto split: option.splits)
qed simp

lemma scan_fill_distinct: "distinct (map snd (scan_fill k srcs))"
proof (induction k srcs rule: scan_fill.induct)
  case (2 k s srcs)
  have "k \<notin> snd ` set (scan_fill (k + 1) srcs)" by (auto simp: scan_fill_set)
  then show ?case using 2 by (auto split: option.splits)
qed simp

lemma scan_fill_holds:
  assumes "srcs_ok m n srcs"
  shows "heap_holds (\<lambda>srcs i. src_rest m (srcs ! i)) {..<n} (scan_fill 0 srcs) srcs (map (src_list m) srcs)"
proof -
  have n: "length srcs = n" and ok: "\<And>i. i < n \<Longrightarrow> src_ok m (srcs ! i)" using assms by (auto simp: srcs_ok_def)
  have "(x \<in> set (scan_fill 0 srcs)) \<longleftrightarrow> (snd x < n \<and> src_list m (srcs ! snd x) \<noteq> [] \<and> fst x = hd (src_list m (srcs ! snd x)))" for x
    unfolding scan_fill_set n by (cases x) (auto simp: src_list_def split: option.splits)
  moreover have "src_rest m (srcs ! i) = tl (src_list m (srcs ! i))" if "i < n" for i
    using src_list_end [OF ok [OF that]] by (auto simp: src_list_def split: option.splits)
  ultimately show ?thesis using n scan_fill_distinct by (auto simp: heap_holds_def)
qed

section \<open>The loop delivers the merge\<close>

definition pairs :: "entry list \<Rightarrow> (bytes \<times> bytes) list" where
  "pairs es = List.map_filter (\<lambda>(k, v). map_option (Pair k) v) es"

lemma pairs_simps [simp]: "pairs [] = []" "pairs ((k, v) # es) = (case v of None \<Rightarrow> pairs es | Some v \<Rightarrow> (k, v) # pairs es)"
  by (simp_all add: pairs_def map_filter_simps split: option.splits)

lemma scan_loop_merges:
  assumes "heap_holds (\<lambda>srcs i. src_rest m (srcs ! i)) {..<length L} heap srcs L" "srcs_ok m (length L) srcs" "all_sorted L"
    and "length out \<le> limit"
  shows "scan_loop m stop limit heap srcs out =
    Some (out @ take (limit - length out) (pairs (takeWhile (\<lambda>e. \<not> past_end stop (fst e)) (merged int L))))"
  using assms
proof (induction "total L" arbitrary: L heap srcs out rule: less_induct)
  case less
  have inj: "inj int" by simp
  note top = sources.top_winner(1) [OF less.prems(1) inj]
  show ?case
  proof (cases "heap = [] \<or> limit \<le> length out")
    case True
    moreover have "merged int L = []" if "heap = []" using top that by (subst merged.simps) simp
    ultimately show ?thesis by (subst scan_loop.simps) auto
  next
    case False
    then have ne: "heap \<noteq> []" and lim: "length out < limit" by simp_all
    let ?L = "map (drop_key (min_key L)) L" and ?x = "pq_top int heap"
    obtain heap1 srcs1 heap' srcs' where r:
        "pop_dups (scan_adv m) int (fst (fst ?x)) (pq_pop int heap) srcs = Some (heap1, srcs1)"
        "refill (scan_adv m) (snd ?x) heap1 srcs1 = Some (heap', srcs')"
        "srcs_ok m (length L) srcs'" "heap_holds (\<lambda>srcs i. src_rest m (srcs ! i)) {..<length L} heap' srcs' ?L"
        "merged int L = fst ?x # merged int ?L"
      using sources.scan_round [OF less.prems(1-3) inj ne] by blast
    have "total ?L < total L" using top ne by (intro total_drop_key) simp
    then have IH: "scan_loop m stop limit heap' srcs' out' =
        Some (out' @ take (limit - length out') (pairs (takeWhile (\<lambda>e. \<not> past_end stop (fst e)) (merged int ?L))))"
      if "length out' \<le> limit" for out'
      using r(3,4) all_sorted_drop_key [OF less.prems(3)] that by (intro less.hyps) simp_all
    obtain k v i where x: "?x = ((k, v), i)" by (metis prod.exhaust)
    show ?thesis
    proof (cases "past_end stop k")
      case True
      then show ?thesis using ne lim by (subst scan_loop.simps) (simp add: Let_def x r(5))
    next
      case go: False
      have "scan_loop m stop limit heap srcs out = scan_loop m stop limit heap' srcs' (case v of None \<Rightarrow> out | Some v \<Rightarrow> out @ [(k, v)])"
        using ne lim go r(1,2) by (subst scan_loop.simps) (simp add: Let_def x split: option.splits)
      also have "\<dots> = Some (out @ take (limit - length out) (pairs (takeWhile (\<lambda>e. \<not> past_end stop (fst e)) (merged int L))))"
      proof (cases v)
        case None
        then show ?thesis using IH [of out] lim go by (simp add: r(5) x)
      next
        case (Some u)
        obtain n where n: "limit - length out = Suc n" using lim by (cases "limit - length out") auto
        then have "limit - length (out @ [(k, u)]) = n" by simp
        then show ?thesis using IH [of "out @ [(k, u)]"] lim go n Some by (simp add: r(5) x)
      qed
      finally show ?thesis .
    qed
  qed
qed

section \<open>The sources cover the range\<close>

definition entries_from :: "bytes \<Rightarrow> entry list \<Rightarrow> entry list" where
  "entries_from start es = filter (\<lambda>e. start \<le> fst e) es"

lemma sstable_source_list:
  assumes "table_ok fp es" "fs path = Some (table_bytes fp es)"
  shows "\<exists>s. sstable_source m fs (table_of fp path es) start = Some s \<and> src_ok m s \<and> src_list m s = entries_from start es"
proof -
  let ?it = "createIterator_from fs (table_of fp path es) start"
  have it: "iter_at ?it (entries_from start es)" unfolding entries_from_def by (rule createIterator_from_at [where fs = fs, OF assms])
  have ok: "\<forall>e \<in> set (entries_from start es). entry_ok e" using assms(1) by (auto simp: table_ok_def entries_from_def)
  show ?thesis
  proof (cases "entries_from start es")
    case Nil
    then have "it_next ?it = None" using it by (simp add: iter_at_def it_next_def)
    then show ?thesis using it Nil by (auto simp: sstable_source_def src_list_def)
  next
    case (Cons e es')
    then obtain it' where it': "it_next ?it = Some (e, it')" "iter_at it' es'" using it_next_at [of ?it e es'] it ok by auto
    moreover have "it_entries it' = es'" using it_entries_at [OF it'(2)] ok Cons by simp
    ultimately show ?thesis using ok Cons by (auto simp: sstable_source_def src_list_def)
  qed
qed

lemma table_sources_ok:
  assumes "\<forall>x \<in> set xs. table_ok fp (snd x) \<and> fs (store_path d x) = Some (table_bytes fp (snd x))" "\<forall>s \<in> set srcs. src_ok m s"
  shows "\<exists>srcs'. table_sources m fs start stop (store_tables fp d xs) srcs = Some srcs' \<and> (\<forall>s \<in> set srcs'. src_ok m s)
     \<and> map (src_list m) srcs' = map (src_list m) srcs
         @ map (entries_from start \<circ> snd) (filter (\<lambda>x. \<not> skipped start stop (table_of fp (store_path d x) (snd x))) xs)"
  using assms
proof (induction xs arbitrary: srcs)
  case (Cons x xs)
  let ?t = "table_of fp (store_path d x) (snd x)"
  show ?case
  proof (cases "skipped start stop ?t")
    case True
    then show ?thesis using Cons.IH [of srcs] Cons.prems by (simp add: store_tables_def)
  next
    case False
    obtain s where s: "sstable_source m fs ?t start = Some s" "src_ok m s" "src_list m s = entries_from start (snd x)"
      using sstable_source_list [of fp "snd x" fs "store_path d x" m start] Cons.prems(1) by auto
    show ?thesis using Cons.IH [of "srcs @ [s]"] Cons.prems s False by (simp add: store_tables_def)
  qed
qed (simp add: store_tables_def)

lemma ssorted_bounds:
  assumes "ssorted es" "e \<in> set es"
  shows "fst (hd es) \<le> fst e" "fst e \<le> fst (last es)"
proof -
  show "fst (hd es) \<le> fst e" using assms by (cases es) auto
  show "fst e \<le> fst (last es)"
  proof (cases es rule: rev_cases)
    case (snoc ys y)
    then show ?thesis using assms ssorted_appendD [of ys "[y]" e y] by auto
  qed (use assms(2) in simp)
qed

lemma table_index_ne: "es \<noteq> [] \<Longrightarrow> table_index es \<noteq> []"
  by (cases es) (auto simp: table_index_def split: prod.splits)

text \<open>A table that is left out has no entry in the range.\<close>

lemma skipped_outside:
  assumes "ssorted es" "skipped start stop (table_of fp path es)" "start \<le> k" "\<not> past_end stop k"
  shows "map_of es k = None"
proof (rule ccontr)
  assume "map_of es k \<noteq> None"
  then obtain v where kv: "(k, v) \<in> set es" by (auto dest: map_of_SomeD)
  then have ne: "es \<noteq> []" by auto
  have b: "fst (hd es) \<le> k" "k \<le> fst (last es)"
    using ssorted_bounds [OF assms(1) kv] by simp_all
  from assms(2) consider "table_index es = []" | "fst (last es) < start" | e where "stop = Some e" "\<not> fst (hd es) < e"
    using ne by (auto simp: skipped_def table_of_def split: option.splits)
  then show False
  proof cases
    case 1
    then show ?thesis using ne by (simp add: table_index_ne)
  next
    case 2
    then show ?thesis using b(2) assms(3) by simp
  next
    case 3
    then show ?thesis using b(1) assms(4) by (auto simp: past_end_def)
  qed
qed

lemma map_of_from_key: "start \<le> k \<Longrightarrow> map_of (entries_from start es) k = map_of es k"
  by (induction es) (auto simp: entries_from_def)

lemma look_from_key:
  assumes "\<forall>x \<in> set st. ssorted (snd x)" "start \<le> k" "\<not> past_end stop k"
  shows "look (map (entries_from start \<circ> snd) (filter (\<lambda>x. \<not> skipped start stop (table_of fp (store_path d x) (snd x))) st)) k = look (map snd st) k"
  using assms
proof (induction st)
  case (Cons x st)
  then show ?case
    using skipped_outside [of "snd x" start stop fp "store_path d x" k] by (auto simp: map_of_from_key map_add_def split: option.splits)
qed simp

lemma look_below: "\<not> start \<le> k \<Longrightarrow> (\<And>l. l \<in> set L \<Longrightarrow> \<forall>e \<in> set l. start \<le> fst e) \<Longrightarrow> look L k = None"
  by (rule look_cong) (metis fst_conv map_of_SomeD option.exhaust)

lemma takeWhile_sorted:
  assumes "ssorted es"
  shows "takeWhile (\<lambda>e. \<not> past_end stop (fst e)) es = filter (\<lambda>e. \<not> past_end stop (fst e)) es"
  using assms
proof (induction es)
  case (Cons e es)
  have "filter (\<lambda>e. \<not> past_end stop (fst e)) es = []" if "past_end stop (fst e)"
    using that Cons.prems by (fastforce simp: past_end_def filter_empty_conv split: option.splits)
  then show ?case using Cons by simp
qed simp

lemma pairs_set: "(k, v) \<in> set (pairs es) \<longleftrightarrow> (k, Some v) \<in> set es"
  by (induction es) (auto split: option.splits)

lemma pairs_sorted: "ssorted es \<Longrightarrow> sorted_wrt (\<lambda>x y. fst x < fst y) (pairs es)"
proof (induction es)
  case (Cons e es)
  then show ?case using pairs_set by (cases e) (fastforce split: option.splits)
qed simp

lemma live_iff: "live r = Some v \<longleftrightarrow> r = Some (Some v)"
  by (auto simp: live_def split: option.splits)

lemma ssorted_map_of: "ssorted es \<Longrightarrow> (k, v) \<in> set es \<longleftrightarrow> map_of es k = Some v"
  using ssorted_distinct [of es] map_of_eq_Some_iff [of es k v] by simp

section \<open>Property\<close>

text \<open>The files of the tables in memory are there; the directory may hold others.\<close>

definition holds_tables :: "(nat \<Rightarrow> nat) \<Rightarrow> path \<Rightarrow> fs \<Rightarrow> store \<Rightarrow> bool" where
  "holds_tables fp d fs st \<longleftrightarrow> store_ok fp st \<and> (\<forall>x \<in> set st. fs (store_path d x) = Some (table_bytes fp (snd x)))"

lemma on_disk_holds: "on_disk fp d fs st \<Longrightarrow> holds_tables fp d fs st"
  by (simp add: on_disk_def holds_tables_def)

lemma scan_range:
  assumes mem: "mt_ok m es" and disk: "holds_tables fp d fs st"
  shows "\<exists>R. scan m fs (store_tables fp d st) start stop limit = Some (take limit R) \<and> sorted_wrt (\<lambda>x y. fst x < fst y) R
    \<and> (\<forall>k v. (k, v) \<in> set R \<longleftrightarrow> start \<le> k \<and> \<not> past_end stop k \<and> live (look (map snd st @ [es]) k) = Some v)"
proof (cases "case stop of None \<Rightarrow> False | Some e \<Rightarrow> e \<le> start")
  case True
  then have "\<not> (start \<le> k \<and> \<not> past_end stop k)" for k by (auto simp: past_end_def split: option.splits)
  then show ?thesis using True by (intro exI [of _ "[]"]) (auto simp: scan_def)
next
  case False
  let ?keep = "\<lambda>x. \<not> skipped start stop (table_of fp (store_path d x) (snd x))"
  have tables: "\<forall>x \<in> set st. table_ok fp (snd x) \<and> fs (store_path d x) = Some (table_bytes fp (snd x))"
    using disk by (auto simp: holds_tables_def store_ok_def)
  then have srt: "\<forall>x \<in> set st. ssorted (snd x)" by (simp add: table_ok_def)
  obtain it where it: "mt_seek m start = Some it" "mt_collect m it = Some (entries_from start es)"
    using mt_seek_ok [OF mem, of start] by (auto simp: entries_from_def)
  have rev: "rev (store_tables fp d st) = store_tables fp d (rev st)" by (simp add: store_tables_def rev_map)
  have t: "\<forall>x \<in> set (rev st). table_ok fp (snd x) \<and> fs (store_path d x) = Some (table_bytes fp (snd x))" using tables by simp
  have i: "\<forall>s \<in> set [MemtableSource it]. src_ok m s" using it(2) by simp
  obtain srcs where ts: "table_sources m fs start stop (store_tables fp d (rev st)) [MemtableSource it] = Some srcs"
      and srcs: "\<forall>s \<in> set srcs. src_ok m s"
      "map (src_list m) srcs = map (src_list m) [MemtableSource it] @ map (entries_from start \<circ> snd) (filter ?keep (rev st))"
    using table_sources_ok [OF t i, of start stop] by (elim exE conjE)
  have sc: "scan_sources m fs (store_tables fp d st) start stop = Some srcs"
    unfolding scan_sources_def memtable_source_def it(1) rev using ts by simp
  have lst: "map (src_list m) srcs = entries_from start es # map (entries_from start \<circ> snd) (filter ?keep (rev st))"
    unfolding srcs(2) using src_list_mem [OF it(2)] by simp
  define L where "L = map (src_list m) srcs"
  have ok: "srcs_ok m (length L) srcs" using srcs(1) by (simp add: srcs_ok_def L_def)
  have L: "rev L = map (entries_from start \<circ> snd) (filter ?keep st) @ [entries_from start es]"
    unfolding L_def lst by (simp add: rev_map rev_filter)
  have all: "all_sorted L" using srt mt_ok_sorted [OF mem] unfolding L_def lst by (auto simp: all_sorted_def entries_from_def ssorted_filter)
  let ?M = "merged int L"
  let ?R = "pairs (filter (\<lambda>e. \<not> past_end stop (fst e)) ?M)"
  have M: "map_of ?M = look (rev L)" "ssorted ?M" using merged_layered [OF all, of int] by (simp_all add: layered_look_rev)
  have "scan m fs (store_tables fp d st) start stop limit = Some (take limit ?R)"
    using scan_loop_merges [OF scan_fill_holds [OF ok, folded L_def] ok all, of "[]" limit stop] False
    unfolding scan_def sc takeWhile_sorted [OF M(2)] by simp
  moreover have "(k, v) \<in> set ?R \<longleftrightarrow> start \<le> k \<and> \<not> past_end stop k \<and> live (look (map snd st @ [es]) k) = Some v" for k v
  proof -
    have a: "(k, v) \<in> set ?R \<longleftrightarrow> \<not> past_end stop k \<and> look (rev L) k = Some (Some v)"
      unfolding pairs_set by (simp add: ssorted_map_of [OF M(2)] M(1) conj_commute)
    have b: "look (rev L) k = None" if "\<not> start \<le> k" unfolding L by (rule look_below [OF that]) (auto simp: entries_from_def)
    have c: "look (rev L) k = look (map snd st @ [es]) k" if "start \<le> k" "\<not> past_end stop k"
      unfolding L look_append map_add_def look_from_key [OF srt that] using that by (simp add: map_of_from_key)
    show ?thesis
    proof (cases "start \<le> k \<and> \<not> past_end stop k")
      case True
      then show ?thesis unfolding a live_iff using c by simp
    next
      case False
      then show ?thesis unfolding a using b by auto
    qed
  qed
  ultimately show ?thesis using pairs_sorted [OF ssorted_filter [OF M(2)]] by blast
qed

text \<open>C7. A scan returns the first \<open>limit\<close> entries of the range in ascending order of their keys, where the entries of the range are
  exactly the keys from \<open>start\<close> on, before the end if one is given, with the value a lookup gives them: the newest of the
  memtable and the tables, tombstones left out.\<close>

theorem scan_correct:
  assumes mem: "mt_ok m es" and disk: "holds_tables fp d fs st"
  shows "\<exists>R. scan m fs (store_tables fp d st) start stop limit = Some (take limit R) \<and> sorted_wrt (\<lambda>x y. fst x < fst y) R
    \<and> (\<forall>k v. (k, v) \<in> set R \<longleftrightarrow> start \<le> k \<and> \<not> past_end stop k \<and> live (look (map snd st @ [es]) k) = Some v)"
  by (rule scan_range [OF assms])

text \<open>An empty memtable over four tables; the newest table has a tombstone for one of the two keys.\<close>

theorem scan_correct_witness:
  "scan ex_memtable ex_dir (store_tables (\<lambda>n. 10 * n) ''/d'' ex_store) [90] None 10 = Some [([97], [3])]"
proof -
  have "mt_ok ex_memtable []" using mk_memtable_ok [OF ex_new_ok ex_memtable_mk] .
  then obtain R where R: "scan ex_memtable ex_dir (store_tables (\<lambda>n. 10 * n) ''/d'' ex_store) [90] None 10 = Some (take 10 R)"
      "sorted_wrt (\<lambda>x y. fst x < fst y) R"
      "\<And>k v. (k, v) \<in> set R \<longleftrightarrow> [90] \<le> k \<and> \<not> past_end None k \<and> live (look (map snd ex_store @ [[]]) k) = Some v"
    using scan_correct [OF _ on_disk_holds [OF ex_on_disk], of ex_memtable "[]" "[90]" None 10] by blast
  have "[90] \<le> ([97 :: byte])" by code_simp
  then have "(k, v) \<in> set R \<longleftrightarrow> k = [97] \<and> v = [3]" for k v
    unfolding R(3) by (auto simp: ex_store_def past_end_def live_iff map_add_def split: if_split_asm)
  then have set: "set R = {([97], [3])}" by auto
  have "R = [([97], [3])]"
  proof (cases R)
    case (Cons x xs)
    then have "xs = []" using set R(2) by (cases xs) auto
    then show ?thesis using Cons set by simp
  qed (use set in simp)
  then show ?thesis using R(1) by simp
qed

end
