(* ===== verification/Engine.thy ===== *)
theory Engine
  imports GroupCommit Scan
begin

text \<open>
  The engine (src/db/lsm_engine.cpp and lsm_engine.h): construction with the directory lock, log recovery and table
  loading, \<open>put\<close>, \<open>del\<close>, \<open>get\<close>, \<open>sync\<close>, \<open>flush\<close> and destruction, composed from the log, the memtable, the tables and the
  compactor. The record \<open>engine\<close> holds the members of \<open>LSMEngine\<close> and what they act on: the files of the data
  directory (\<open>en_fs\<close>, in which the entry of \<open>wal.log\<close> mirrors the file of \<open>en_wal\<close>), the process-wide
  block cache and the random source of the skip list. The engine's lock makes writers sequential; the
  wait for durability after it is released is the subject of \<open>GroupCommit\<close>, here a thread waits alone.

  An operation that changes the disk returns the sequence of changes, so that its prefixes are the states a crash can
  leave, an exception or none, and the new state. \<open>None\<close> is undefined behaviour, or an outcome that the
  environment's answers do not determine.

  The lemmas show that the engine implements a map from keys to values through every outcome of every call, with an
  exception leaving the key with its old or new value.
\<close>

section \<open>State\<close>

datatype engine_error =
    DirFailed
  | LockFailed
  | WalError wal_error
  | RecoverError recover_error
  | MemError mem_error
  | SstError sst_error
  | CompactError compact_error
  | InjectedPoint string

record engine =
  en_dir :: path
  en_memtable_max_bytes :: nat
  en_wal :: wal
  en_memtable :: memtable
  en_sstables :: "sstable list"
  en_sst_counter :: nat
  en_rng :: "nat stream"
  en_fs :: fs
  en_cache :: block_cache

definition wal_path :: "path \<Rightarrow> path" where
  "wal_path d = d @ ''/wal.log''"

definition lock_path :: "path \<Rightarrow> path" where
  "lock_path d = d @ ''/LOCK''"

datatype disk_op = FileOp fs_op | LogIs bytes

fun apply_disk :: "path \<Rightarrow> disk_op \<Rightarrow> fs \<Rightarrow> fs" where
  "apply_disk d (FileOp x) fs = apply_op x fs"
| "apply_disk d (LogIs f) fs = fs(wal_path d \<mapsto> f)"

definition run_disk :: "path \<Rightarrow> disk_op list \<Rightarrow> fs \<Rightarrow> fs" where
  "run_disk d tr fs = fold (apply_disk d) tr fs"

text \<open>A call on the log leaves its file changed, as long as the log is open.\<close>

definition log_ops :: "wal \<Rightarrow> disk_op list" where
  "log_ops w = (if wl_fd w then [LogIs (wl_file w)] else [])"

definition set_wal :: "wal \<Rightarrow> engine \<Rightarrow> engine" where
  "set_wal w e = e\<lparr>en_wal := w, en_fs := run_disk (en_dir e) (log_ops w) (en_fs e)\<rparr>"

text \<open>What a process crash during these changes can leave.\<close>

definition disk_crashes :: "path \<Rightarrow> disk_op list \<Rightarrow> fs \<Rightarrow> fs set" where
  "disk_crashes d tr fs = {run_disk d pre fs | pre. prefix pre tr}"

type_synonym engine_step = "(disk_op list \<times> engine_error option \<times> engine) option"

section \<open>Flushing\<close>

record flush_env =
  fe_before_sst :: bool
  fe_write :: write_io
  fe_open :: "bool \<times> bool"
  fe_after_sst :: bool
  fe_new :: new_fn
  fe_clear :: clear_env
  fe_after_wal_clear :: bool
  fe_compact :: compact_io

text \<open>How the file of the log changes during \<open>WAL::clear\<close>.\<close>

definition clear_trace :: "path \<Rightarrow> clear_env \<Rightarrow> wal \<Rightarrow> disk_op list" where
  "clear_trace d env w =
     (case drain (ce_drain env) (w\<lparr>wl_durable_end := 0, wl_epoch := wl_epoch w + 1\<rparr>) of
        None \<Rightarrow> []
      | Some w \<Rightarrow> LogIs (wl_file w) #
          (if \<not> ce_remove env then []
           else FileOp (Remove (wal_path d)) # (if ce_open env then [LogIs []] else [])))"

definition clear_wal :: "clear_env \<Rightarrow> wal \<Rightarrow> engine \<Rightarrow> engine" where
  "clear_wal env w e =
     e\<lparr>en_wal := w, en_fs := run_disk (en_dir e) (clear_trace (en_dir e) env (en_wal e)) (en_fs e)\<rparr>"

text \<open>\<open>flushMemtable\<close> up to the compaction.\<close>

definition flush_to_table :: "(nat \<Rightarrow> nat) \<Rightarrow> flush_env \<Rightarrow> engine \<Rightarrow> engine_step" where
  "flush_to_table fp env e =
     (case Option.bind (mt_begin (en_memtable e)) (mt_collect (en_memtable e)) of
        None \<Rightarrow> None
      | Some entries \<Rightarrow>
          if fe_before_sst env then Some ([], Some (InjectedPoint ''flush.before_sst''), e)
          else if en_sst_counter e \<ge> int_max then None
          else
            (let path = sstPath (en_dir e) 0 (en_sst_counter e);
                 (ops, err) = sst_write fp (fe_write env) path entries;
                 tr = map FileOp ops;
                 e = e\<lparr>en_sst_counter := en_sst_counter e + 1, en_fs := run_ops ops (en_fs e)\<rparr>
             in case err of
                  Some x \<Rightarrow> Some (tr, Some (SstError x), e)
                | None \<Rightarrow>
                    (case sst_open (fst (fe_open env)) (snd (fe_open env)) (en_fs e) path of
                       Inl x \<Rightarrow> Some (tr, Some (SstError x), e)
                     | Inr t \<Rightarrow>
                         (let e = e\<lparr>en_sstables := en_sstables e @ [t]\<rparr> in
                          if fe_after_sst env then Some (tr, Some (InjectedPoint ''flush.after_sst''), e)
                          else
                            (case mk_memtable (fe_new env) (en_memtable_max_bytes e) of
                               Inl x \<Rightarrow> Some (tr, Some (MemError x), e)
                             | Inr replacement \<Rightarrow>
                                 (case wal_clear (fe_clear env) (en_wal e) of
                                    None \<Rightarrow> None
                                  | Some (Some x, w) \<Rightarrow>
                                      Some (tr @ clear_trace (en_dir e) (fe_clear env) (en_wal e), Some (WalError x),
                                            clear_wal (fe_clear env) w e)
                                  | Some (None, w) \<Rightarrow>
                                      (let tr = tr @ clear_trace (en_dir e) (fe_clear env) (en_wal e);
                                           e = (clear_wal (fe_clear env) w e)\<lparr>en_memtable := replacement\<rparr>
                                       in if fe_after_wal_clear env
                                          then Some (tr, Some (InjectedPoint ''flush.after_wal_clear''), e)
                                          else Some (tr, None, e))))))))"

text \<open>\<open>compactor_.run(sstables_, sst_counter_)\<close>\<close>

definition engine_compact :: "(nat \<Rightarrow> nat) \<Rightarrow> compact_io \<Rightarrow> engine \<Rightarrow> engine_step" where
  "engine_compact fp io e =
     (case compact_run fp io (en_dir e) (en_fs e) (en_sstables e) (en_sst_counter e) (en_cache e) of
        None \<Rightarrow> None
      | Some (ops, r, c) \<Rightarrow>
          (let e = e\<lparr>en_fs := run_ops ops (en_fs e), en_cache := c\<rparr>
           in case r of
                Inl x \<Rightarrow> Some (map FileOp ops, Some (CompactError x), e)
              | Inr (ts, cnt) \<Rightarrow> Some (map FileOp ops, None, e\<lparr>en_sstables := ts, en_sst_counter := cnt\<rparr>)))"

definition flushMemtable :: "(nat \<Rightarrow> nat) \<Rightarrow> flush_env \<Rightarrow> engine \<Rightarrow> engine_step" where
  "flushMemtable fp env e =
     (if mt_empty (en_memtable e) then Some ([], None, e)
      else
        (case flush_to_table fp env e of
           None \<Rightarrow> None
         | Some (tr, Some x, e) \<Rightarrow> Some (tr, Some x, e)
         | Some (tr, None, e) \<Rightarrow>
             (case engine_compact fp (fe_compact env) e of
                None \<Rightarrow> None
              | Some (tr', r, e) \<Rightarrow> Some (tr @ tr', r, e))))"

definition engine_flush :: "(nat \<Rightarrow> nat) \<Rightarrow> flush_env \<Rightarrow> engine \<Rightarrow> engine_step" where
  "engine_flush fp env e = (if mt_empty (en_memtable e) then Some ([], None, e) else flushMemtable fp env e)"

section \<open>Writing\<close>

record write_env =
  we_append :: append_env
  we_new :: new_fn
  we_flush :: flush_env
  we_wait :: "(drain_env \<times> sync_env) list"

text \<open>After the lock is released: \<open>waitDurable\<close> in durable mode.\<close>

definition await_durable :: "(drain_env \<times> sync_env) list \<Rightarrow> ticket \<Rightarrow> engine \<Rightarrow> engine_step" where
  "await_durable envs t e =
     (if wl_durability (en_wal e) = Durable
      then (case waitDurable envs t (en_wal e) of
              None \<Rightarrow> None
            | Some (r, w) \<Rightarrow> Some (log_ops w, map_option WalError r, set_wal w e))
      else Some ([], None, e))"

text \<open>What \<open>put\<close> and \<open>del\<close> share: the memtable step, the flush of a full memtable, the wait.\<close>

definition apply_write :: "(nat \<Rightarrow> nat) \<Rightarrow> write_env \<Rightarrow> ((wal_error + ticket) \<times> wal) option \<Rightarrow> (nat stream \<Rightarrow> memtable \<Rightarrow> mem_step)
    \<Rightarrow> engine \<Rightarrow> engine_step" where
  "apply_write fp env appended mem_op e =
     (case appended of
        None \<Rightarrow> None
      | Some (Inl x, w) \<Rightarrow> Some (log_ops w, Some (WalError x), set_wal w e)
      | Some (Inr t, w) \<Rightarrow>
          (let tr = log_ops w; e = set_wal w e in
           case mem_op (en_rng e) (en_memtable e) of
             None \<Rightarrow> None
           | Some (Inl x, rng, m) \<Rightarrow> Some (tr, Some (MemError x), e\<lparr>en_rng := rng, en_memtable := m\<rparr>)
           | Some (Inr _, rng, m) \<Rightarrow>
               (let e = e\<lparr>en_rng := rng, en_memtable := m\<rparr> in
                case (if isFull m then flushMemtable fp (we_flush env) e else Some ([], None, e)) of
                  None \<Rightarrow> None
                | Some (tr1, Some x, e) \<Rightarrow> Some (tr @ tr1, Some x, e)
                | Some (tr1, None, e) \<Rightarrow>
                    (case await_durable (we_wait env) t e of
                       None \<Rightarrow> None
                     | Some (tr2, r, e) \<Rightarrow> Some (tr @ tr1 @ tr2, r, e)))))"

definition put :: "(nat \<Rightarrow> nat) \<Rightarrow> write_env \<Rightarrow> bytes \<Rightarrow> bytes \<Rightarrow> engine \<Rightarrow> engine_step" where
  "put fp env key val e =
     apply_write fp env (appendPut (we_append env) key val (en_wal e)) (mt_put (we_new env) key val) e"

definition del :: "(nat \<Rightarrow> nat) \<Rightarrow> write_env \<Rightarrow> bytes \<Rightarrow> engine \<Rightarrow> engine_step" where
  "del fp env key e =
     apply_write fp env (appendDel (we_append env) key (en_wal e)) (mt_del (we_new env) key) e"

definition engine_sync :: "(drain_env \<times> sync_env) list \<Rightarrow> engine \<Rightarrow> engine_step" where
  "engine_sync envs e =
     (case wal_sync envs (en_wal e) of
        None \<Rightarrow> None
      | Some (r, w) \<Rightarrow> Some (log_ops w, map_option WalError r, set_wal w e))"

section \<open>Reading\<close>

text \<open>The tables from the back of the vector to the front.\<close>

fun get_tables :: "(entry list \<Rightarrow> nat) \<Rightarrow> pread_fn \<Rightarrow> bytes \<Rightarrow> sstable list \<Rightarrow> block_cache
    \<Rightarrow> (sst_error + bytes option) \<times> block_cache" where
  "get_tables sz pread key [] c = (Inr None, c)"
| "get_tables sz pread key (t # ts) c =
     (case sst_get sz pread t key c of
        (Inl x, c) \<Rightarrow> (Inl x, c)
      | (Inr (Some r), c) \<Rightarrow> (Inr r, c)
      | (Inr None, c) \<Rightarrow> get_tables sz pread key ts c)"

definition get :: "(entry list \<Rightarrow> nat) \<Rightarrow> pread_fn \<Rightarrow> bytes \<Rightarrow> engine \<Rightarrow> ((sst_error + bytes option) \<times> engine) option" where
  "get sz pread key e =
     (case mt_get (en_memtable e) key of
        None \<Rightarrow> None
      | Some (Some r) \<Rightarrow> Some (Inr r, e)
      | Some None \<Rightarrow>
          (case get_tables sz pread key (rev (en_sstables e)) (en_cache e) of
             (r, c) \<Rightarrow> Some (r, e\<lparr>en_cache := c\<rparr>)))"

definition engine_scan :: "bytes \<Rightarrow> bytes option \<Rightarrow> nat \<Rightarrow> engine \<Rightarrow> (bytes \<times> bytes) list option" where
  "engine_scan start stop limit e = scan (en_memtable e) (en_fs e) (en_sstables e) start stop limit"

definition walSyncCount :: "engine \<Rightarrow> nat" where
  "walSyncCount e = wl_sync_calls (en_wal e)"

section \<open>Opening and closing\<close>

definition ensureDir :: "bool \<Rightarrow> path \<Rightarrow> engine_error + path" where
  "ensureDir created d = (if created then Inr d else Inl DirFailed)"

text \<open>\<open>flock\<close> fails on a directory that is locked already, or for a reason of its own.\<close>

definition acquireDirectoryLock :: "bool \<Rightarrow> bool \<Rightarrow> path \<Rightarrow> path set \<Rightarrow> engine_error + path set" where
  "acquireDirectoryLock opened flocked d locks =
     (if \<not> opened \<or> \<not> flocked \<or> d \<in> locks then Inl LockFailed else Inr (insert d locks))"

text \<open>\<open>recoverFromWAL\<close> once the entries are read.\<close>

fun replay :: "new_fn \<Rightarrow> wal_entry list \<Rightarrow> nat stream \<Rightarrow> memtable \<Rightarrow> (mem_error option \<times> nat stream \<times> memtable) option" where
  "replay new [] rng m = Some (None, rng, m)"
| "replay new (x # xs) rng m =
     (case (if we_type x = PUT then mt_put new (we_key x) (we_value x) rng m else mt_del new (we_key x) rng m) of
        None \<Rightarrow> None
      | Some (Inl err, rng, m) \<Rightarrow> Some (Some err, rng, m)
      | Some (Inr _, rng, m) \<Rightarrow> replay new xs rng m)"

record start_env =
  st_create_dir :: bool
  st_lock_open :: bool
  st_flock :: bool
  st_wal :: open_env
  st_new :: new_fn
  st_size :: "nat option"
  st_reads :: "read_res list"
  st_names :: "path list"
  st_opens :: "path \<Rightarrow> bool \<times> bool"

text \<open>The constructor: the engine or the exception, with the locks held and the directory afterwards. A lock taken before
  an exception stays with the process, because the destructor does not run.\<close>

definition open_engine :: "start_env \<Rightarrow> path \<Rightarrow> nat \<Rightarrow> durability \<Rightarrow> nat stream \<Rightarrow> block_cache \<Rightarrow> path set \<Rightarrow> fs
    \<Rightarrow> ((engine_error + engine) \<times> path set \<times> fs) option" where
  "open_engine env d max_bytes dur rng c locks fs =
     (case ensureDir (st_create_dir env) d of
        Inl x \<Rightarrow> Some (Inl x, locks, fs)
      | Inr d \<Rightarrow>
        (case acquireDirectoryLock (st_lock_open env) (st_flock env) d locks of
           Inl x \<Rightarrow> Some (Inl x, locks, if st_lock_open env then fs(lock_path d \<mapsto> []) else fs)
         | Inr locks \<Rightarrow>
             (let fs = fs(lock_path d \<mapsto> []);
                  log = (case fs (wal_path d) of None \<Rightarrow> [] | Some f \<Rightarrow> f)
              in case mk_wal (st_wal env) dur log of
                   Inl x \<Rightarrow> Some (Inl (WalError x), locks, if oe_open (st_wal env) then fs(wal_path d \<mapsto> log) else fs)
                 | Inr w \<Rightarrow>
                     (let fs = fs(wal_path d \<mapsto> log) in
                      case mk_memtable (st_new env) max_bytes of
                        Inl x \<Rightarrow> Some (Inl (MemError x), locks, fs)
                      | Inr m \<Rightarrow>
                          (case recover (Some log) (st_size env) (st_reads env) of
                             Inl x \<Rightarrow> Some (Inl (RecoverError x), locks, fs)
                           | Inr entries \<Rightarrow>
                               (case replay (st_new env) entries rng m of
                                  None \<Rightarrow> None
                                | Some (Some x, _, _) \<Rightarrow> Some (Inl (MemError x), locks, fs)
                                | Some (None, rng, m) \<Rightarrow>
                                    (case loadSSTables (st_opens env) (st_names env) fs of
                                       Inl x \<Rightarrow> Some (Inl (SstError x), locks, fs)
                                     | Inr (ts, cnt) \<Rightarrow>
                                         Some (Inr \<lparr>en_dir = d, en_memtable_max_bytes = max_bytes, en_wal = w, en_memtable = m,
                                                    en_sstables = ts, en_sst_counter = cnt, en_rng = rng, en_fs = fs, en_cache = c\<rparr>,
                                               locks, fs))))))))"

text \<open>The destructor: a last flush whose exceptions are swallowed, the lock released, the members destroyed.\<close>

definition close_engine :: "(nat \<Rightarrow> nat) \<Rightarrow> flush_env \<Rightarrow> drain_env \<Rightarrow> engine \<Rightarrow> path set \<Rightarrow> (disk_op list \<times> fs \<times> block_cache \<times> path set) option" where
  "close_engine fp env de e locks =
     (case engine_flush fp env e of
        None \<Rightarrow> None
      | Some (tr, _, e1) \<Rightarrow>
          (case destroy_wal de (en_wal e1) of
             None \<Rightarrow> None
           | Some f \<Rightarrow>
               (let tr' = (if wl_fd (en_wal e1) then [LogIs f] else [])
                in Some (tr @ tr', run_disk (en_dir e) tr' (en_fs e1), fold sst_destroy (en_sstables e1) (en_cache e1),
                         locks - {en_dir e}))))"

section \<open>Invariant\<close>

text \<open>What the memtable holds fits a table file: keys and values within the length fields (the log refuses others), and at
  most \<open>2 ^ 34\<close> bytes in all, far above any memtable limit in use.\<close>

definition mem_fits :: "entry list \<Rightarrow> bool" where
  "mem_fits es \<longleftrightarrow> payload es \<le> 2 ^ 34 \<and> (\<forall>e \<in> set es. entry_ok e)"

definition view :: "store \<Rightarrow> entry list \<Rightarrow> bytes \<rightharpoonup> bytes" where
  "view st es k = live (look (map snd st @ [es]) k)"

text \<open>Enough to read: the tables in memory and their files, the memtable, the cache.\<close>

definition read_inv :: "(nat \<Rightarrow> nat) \<Rightarrow> engine \<Rightarrow> store \<Rightarrow> entry list \<Rightarrow> bool" where
  "read_inv fp e st es \<longleftrightarrow> holds_tables fp (en_dir e) (en_fs e) st \<and> en_sstables e = store_tables fp (en_dir e) st
     \<and> mt_ok (en_memtable e) es \<and> cache_coherent (store_blocks (en_dir e) st) (en_cache e)"

text \<open>Between operations: also, no other table is in the directory and the next table's number is free.\<close>

definition engine_inv :: "(nat \<Rightarrow> nat) \<Rightarrow> engine \<Rightarrow> store \<Rightarrow> entry list \<Rightarrow> bool" where
  "engine_inv fp e st es \<longleftrightarrow> read_inv fp e st es \<and> on_disk fp (en_dir e) (en_fs e) st \<and> mem_fits es
     \<and> (\<forall>x \<in> set st. fst (fst x) = 0 \<longrightarrow> snd (fst x) < en_sst_counter e)"

lemma payload_len: "length es * 8 \<le> payload es"
  by (induction es) (auto simp: payload_def)

lemma data_payload: "length (data_bytes es) \<le> 2 * payload es"
proof (induction es)
  case (Cons e es)
  have "entry_size e \<le> 2 * (length (fst e) + value_len (snd e) + 8)"
    by (auto simp: entry_size_def value_len_def split: option.splits)
  then show ?case using Cons by (simp add: data_bytes_def length_entry_bytes payload_def)
qed (simp add: data_bytes_def)

lemma mem_fits_table_ok:
  assumes "mem_fits es" "ssorted es" "fp_sane fp"
  shows "table_ok fp es"
proof -
  have p: "payload es \<le> 2 ^ 34" using assms(1) by (simp add: mem_fits_def)
  then have l: "length es \<le> 2 ^ 31" using payload_len [of es] by simp
  then have "fp (max (length es) 1) \<le> 2 ^ 60" using assms(3) by (simp add: fp_sane_def)
  moreover have "length (data_bytes es) \<le> 2 ^ 35" using data_payload [of es] p by simp
  ultimately have "length (table_bytes fp es) < 2 ^ 63" using table_size [of fp es] by simp
  then show ?thesis using assms(1,2) l by (simp add: table_ok_def mem_fits_def)
qed

lemma mem_fits_len: "mem_fits es \<Longrightarrow> length es < 2 ^ 64"
  using payload_len [of es] by (simp add: mem_fits_def)

lemma mt_empty_iff: "mt_ok m es \<Longrightarrow> mem_fits es \<Longrightarrow> mt_empty m \<longleftrightarrow> es = []"
  using mem_fits_len [of es] by (simp add: mt_empty_def mt_size_def mt_ok_def unat_of_nat take_bit_nat_eq_self_iff)

section \<open>Lookups\<close>

lemma store_blocks_at:
  assumes "store_ok fp st" "x \<in> set st"
  shows "store_blocks d st (store_path d x, off) = table_blocks (snd x) off"
proof -
  have "distinct (map fst st)" using assms(1) by (auto simp: store_ok_def strict_sorted_iff distinct_map inj_on_def)
  then have "distinct (map (store_path d) st)" using store_path_inj [OF assms(1), of d] by (simp add: distinct_map)
  then have "map_of (map (\<lambda>x. (store_path d x, snd x)) st) (store_path d x) = Some (snd x)"
    using assms(2) by (intro map_of_is_SomeI) (auto simp: o_def)
  then show ?thesis by (simp add: store_blocks_def)
qed

lemma get_tables_ok:
  assumes "\<forall>x \<in> set xs. table_ok fp (snd x) \<and> (\<forall>off. src (store_path d x, off) = table_blocks (snd x) off)"
    and "cache_coherent src c" "pread_ok pread" "get_tables sz pread key (store_tables fp d xs) c = (r, c')"
  shows "cache_coherent src c' \<and> (r = Inr (live (look (map snd (rev xs)) key)) \<or> r = Inl PreadError \<or> r = Inl ShortPread)
     \<and> (pread = pread_full \<longrightarrow> r = Inr (live (look (map snd (rev xs)) key)))"
  using assms
proof (induction xs arbitrary: c)
  case (Cons x xs)
  obtain r1 c1 where g: "sst_get sz pread (table_of fp (store_path d x) (snd x)) key c = (r1, c1)" by fastforce
  have s: "get_result (snd x) key r1 \<and> cache_coherent src c1 \<and> (pread = pread_full \<longrightarrow> r1 = Inr (map_of (snd x) key))"
    using sst_get_table [OF _ Cons.prems(2) _ Cons.prems(3) g] Cons.prems(1) by simp
  then consider (err) y where "r1 = Inl y" "y = PreadError \<or> y = ShortPread" "pread \<noteq> pread_full" | (hit) v where "r1 = Inr (Some v)" "map_of (snd x) key = Some v"
    | (miss) "r1 = Inr None" "map_of (snd x) key = None"
    by (cases "map_of (snd x) key") (auto simp: get_result_def)
  then show ?case
  proof cases
    case err
    then show ?thesis using Cons.prems(4) g s by (auto simp: store_tables_def)
  next
    case hit
    then show ?thesis using Cons.prems(4) g s by (simp add: store_tables_def map_add_def)
  next
    case miss
    then have "get_tables sz pread key (store_tables fp d xs) c1 = (r, c')" using Cons.prems(4) g by (simp add: store_tables_def)
    from Cons.IH [OF _ _ Cons.prems(3) this] show ?thesis using Cons.prems(1) s miss(2) by (simp add: map_add_def)
  qed
qed (simp add: store_tables_def)

lemma engine_get_ok:
  assumes inv: "read_inv fp e st es" and pread: "pread_ok pread"
  shows "\<exists>r e'. get sz pread key e = Some (r, e') \<and> (\<exists>c. e' = e\<lparr>en_cache := c\<rparr>) \<and> read_inv fp e' st es
     \<and> (r = Inr (view st es key) \<or> r = Inl PreadError \<or> r = Inl ShortPread) \<and> (pread = pread_full \<longrightarrow> r = Inr (view st es key))"
proof -
  have h: "holds_tables fp (en_dir e) (en_fs e) st" "en_sstables e = store_tables fp (en_dir e) st" "mt_ok (en_memtable e) es"
      "cache_coherent (store_blocks (en_dir e) st) (en_cache e)"
    using inv by (simp_all add: read_inv_def)
  show ?thesis
  proof (cases "map_of es key")
    case (Some v)
    have "get sz pread key e = Some (Inr v, e)" using mt_get_ok [OF h(3), of key] Some by (simp add: get_def)
    moreover have "view st es key = v" using Some by (simp add: view_def map_add_def)
    moreover have "e = e\<lparr>en_cache := en_cache e\<rparr>" by simp
    ultimately show ?thesis using inv by blast
  next
    case None
    obtain r c where g: "get_tables sz pread key (rev (en_sstables e)) (en_cache e) = (r, c)" by fastforce
    have eq: "get sz pread key e = Some (r, e\<lparr>en_cache := c\<rparr>)" using mt_get_ok [OF h(3), of key] None g by (simp add: get_def)
    have rv: "rev (en_sstables e) = store_tables fp (en_dir e) (rev st)" using h(2) by (simp add: store_tables_def rev_map)
    have t: "\<forall>x \<in> set (rev st). table_ok fp (snd x) \<and> (\<forall>off. store_blocks (en_dir e) st (store_path (en_dir e) x, off) = table_blocks (snd x) off)"
      using h(1) store_blocks_at [of fp st] by (auto simp: holds_tables_def store_ok_def)
    have "cache_coherent (store_blocks (en_dir e) st) c
        \<and> (r = Inr (live (look (map snd st) key)) \<or> r = Inl PreadError \<or> r = Inl ShortPread)
        \<and> (pread = pread_full \<longrightarrow> r = Inr (live (look (map snd st) key)))"
      using get_tables_ok [OF t h(4) pread g [unfolded rv]] by simp
    moreover have "view st es key = live (look (map snd st) key)" using None by (simp add: view_def map_add_def)
    ultimately show ?thesis using eq inv by (auto simp: read_inv_def)
  qed
qed

section \<open>Adding a table\<close>

abbreviation with_table :: "store \<Rightarrow> nat \<Rightarrow> entry list \<Rightarrow> store" where
  "with_table st c es \<equiv> st @ [((0, c), es)]"

lemma view_with_table [simp]: "view (with_table st c es) es = view st es" "view (with_table st c es) [] = view st es"
  by (auto simp: view_def fun_eq_iff map_add_def split: option.splits)

lemma add_table_ok:
  assumes "store_ok fp st" "\<forall>x \<in> set st. fst (fst x) = 0 \<longrightarrow> snd (fst x) < c" "c < int_max" "table_ok fp es"
  shows "store_ok fp (with_table st c es)"
proof -
  have "load_key (fst x) < load_key (0, c)" if "x \<in> set st" for x
    using assms(2) that by (cases "fst (fst x) = 0") (auto simp: load_key_def less_prod_def)
  then show ?thesis using assms by (auto simp: store_ok_def sorted_wrt_append)
qed

lemma add_table:
  assumes disk: "on_disk fp d f st" and new: "\<forall>x \<in> set st. fst (fst x) = 0 \<longrightarrow> snd (fst x) < c" "c < int_max" "table_ok fp es"
    and g: "g (sstPath d 0 c) = Some (table_bytes fp es)" "\<And>p. parse_sst p \<noteq> None \<Longrightarrow> p \<noteq> sstPath d 0 c \<Longrightarrow> g p = f p"
  shows "on_disk fp d g (with_table st c es)"
proof -
  have ok: "store_ok fp st" using disk by (simp add: on_disk_def)
  have ne: "store_path d x \<noteq> sstPath d 0 c" if "x \<in> set st" for x
  proof
    assume "store_path d x = sstPath d 0 c"
    then have "fst x = (0, c)" using store_parse [OF ok that, of d] parse_sstPath [of 0 c d] new(2) by simp
    then show False using new(1) that by fastforce
  qed
  have "g (store_path d x) = Some (table_bytes fp (snd x))" if "x \<in> set st" for x
    using disk that g(2) [of "store_path d x"] store_parse [OF ok that, of d] ne [OF that] by (simp add: on_disk_def)
  moreover have "p \<in> store_path d ` set (with_table st c es)" if "in_dir d p" "p \<in> dom g" "parse_sst p \<noteq> None" for p
    using disk that g(2) [OF that(3)] by (cases "p = sstPath d 0 c") (auto simp: on_disk_def dom_def)
  ultimately show ?thesis using add_table_ok [OF ok new] g(1) by (auto simp: on_disk_def)
qed

lemma store_blocks_add:
  assumes "store_ok fp (with_table st c es)" "cache_coherent (store_blocks d st) ca"
  shows "cache_coherent (store_blocks d (with_table st c es)) ca"
proof -
  have "store_blocks d st \<subseteq>\<^sub>m store_blocks d (with_table st c es)"
    by (auto simp: map_le_def store_blocks_def map_add_def bind_eq_Some_conv split: option.splits)
  then show ?thesis using assms(2) unfolding lru.coherent_def by (auto intro: map_le_trans)
qed

text \<open>Every state of the disk during the write of a table, and the last one.\<close>

lemma write_table_states:
  assumes disk: "on_disk fp d f st" and new: "\<forall>x \<in> set st. fst (fst x) = 0 \<longrightarrow> snd (fst x) < c" "c < int_max" "table_ok fp es"
    and w: "sst_write fp io (sstPath d 0 c) es = (ops, err)"
  shows "g \<in> crash_states ops f \<Longrightarrow> on_disk fp d g st \<or> on_disk fp d g (with_table st c es)"
    and "err = None \<Longrightarrow> on_disk fp d (run_ops ops f) (with_table st c es)"
    and "g \<in> crash_states ops f \<Longrightarrow> parse_sst p = None \<Longrightarrow> p \<noteq> tmp_path (sstPath d 0 c) \<Longrightarrow> g p = f p"
proof -
  let ?p = "sstPath d 0 c"
  have r: "render_table fp es = (table_bytes fp es, None)" using new(3) by (intro render_table_ok) (auto simp: table_ok_def)
  have tmp: "parse_sst (tmp_path ?p) = None" unfolding tmp_path_def by (rule parse_tmp) (simp add: sst_name_def)
  have at: "(g ?p = f ?p \<or> g ?p = Some (table_bytes fp es)) \<and> (\<forall>p. p \<noteq> ?p \<and> p \<noteq> tmp_path ?p \<longrightarrow> g p = f p)"
    if "g \<in> crash_states ops f" for g
    using sst_write_crash [OF w that] r by auto
  have q: "g p = f p" if "g \<in> crash_states ops f" "parse_sst p \<noteq> None" "p \<noteq> ?p" for g p
    using at [OF that(1)] that(2,3) tmp by metis
  show "on_disk fp d g st \<or> on_disk fp d g (with_table st c es)" if g: "g \<in> crash_states ops f"
    using conjunct1 [OF at [OF g]]
  proof
    assume "g ?p = f ?p"
    then have "on_disk fp d g st" by (intro on_disk_quiet [OF disk]) (metis q [OF g])
    then show ?thesis ..
  next
    assume "g ?p = Some (table_bytes fp es)"
    then have "on_disk fp d g (with_table st c es)" by (intro add_table [OF disk new]) (use q [OF g] in auto)
    then show ?thesis ..
  qed
  have fin: "run_ops ops f \<in> crash_states ops f" by (auto simp: crash_states_def)
  show "on_disk fp d (run_ops ops f) (with_table st c es)" if "err = None"
  proof (rule add_table [OF disk new])
    show "run_ops ops f ?p = Some (table_bytes fp es)"
      using sst_write_success_ops(2) [of fp io ?p es ops f] w that r by auto
    show "run_ops ops f p = f p" if "parse_sst p \<noteq> None" "p \<noteq> ?p" for p by (rule q [OF fin that])
  qed
  show "g p = f p" if "g \<in> crash_states ops f" "parse_sst p = None" "p \<noteq> tmp_path ?p" for p
    using at [OF that(1)] that(2,3) parse_sstPath [of 0 c d] new(2) by (metis less_imp_le option.simps(3) zero_le)
qed

section \<open>Flushing keeps what the engine holds\<close>

lemma wal_path_no_table [simp]: "parse_sst (wal_path d) = None"
proof -
  have "filename (wal_path d) = ''wal'' @ CHR ''.'' # ''log''"
    unfolding wal_path_def using filename_join [of "''wal.log''" d] by simp
  then have "extension (wal_path d) = ''.log''" by (rule extension_split(1)) simp_all
  then show ?thesis by (simp add: parse_sst_def)
qed

lemma holds_tables_quiet:
  assumes "holds_tables fp d f st" "\<And>p. parse_sst p \<noteq> None \<Longrightarrow> g p = f p"
  shows "holds_tables fp d g st"
  using assms store_parse [of fp st _ d] by (auto simp: holds_tables_def)

lemma set_wal_sel [simp]:
  "en_dir (set_wal w e) = en_dir e" "en_wal (set_wal w e) = w" "en_memtable (set_wal w e) = en_memtable e"
  "en_sstables (set_wal w e) = en_sstables e" "en_sst_counter (set_wal w e) = en_sst_counter e" "en_cache (set_wal w e) = en_cache e"
  "en_rng (set_wal w e) = en_rng e" "en_memtable_max_bytes (set_wal w e) = en_memtable_max_bytes e"
  "en_fs (set_wal w e) = run_disk (en_dir e) (log_ops w) (en_fs e)"
  by (simp_all add: set_wal_def)

lemma clear_wal_sel [simp]:
  "en_dir (clear_wal env w e) = en_dir e" "en_wal (clear_wal env w e) = w" "en_memtable (clear_wal env w e) = en_memtable e"
  "en_sstables (clear_wal env w e) = en_sstables e" "en_sst_counter (clear_wal env w e) = en_sst_counter e"
  "en_cache (clear_wal env w e) = en_cache e" "en_rng (clear_wal env w e) = en_rng e"
  "en_memtable_max_bytes (clear_wal env w e) = en_memtable_max_bytes e"
  "en_fs (clear_wal env w e) = run_disk (en_dir e) (clear_trace (en_dir e) env (en_wal e)) (en_fs e)"
  by (simp_all add: clear_wal_def)

text \<open>Changes that touch nothing but the log.\<close>

fun log_only :: "path \<Rightarrow> disk_op \<Rightarrow> bool" where
  "log_only d (LogIs _) = True"
| "log_only d (FileOp x) = (x = Remove (wal_path d))"

lemma log_only_quiet: "list_all (log_only d) tr \<Longrightarrow> p \<noteq> wal_path d \<Longrightarrow> run_disk d tr f p = f p"
proof (induction tr arbitrary: f)
  case (Cons x tr)
  have "apply_disk d x f p = f p" using Cons.prems by (cases x) auto
  then show ?case using Cons by (simp add: run_disk_def)
qed (simp add: run_disk_def)

lemma log_ops_only [simp]: "list_all (log_only d) (log_ops w)" "list_all (log_only d) (clear_trace d env w)"
  by (auto simp: log_ops_def clear_trace_def split: option.splits)

lemma table_not_log: "list_all (log_only d) tr \<Longrightarrow> parse_sst p \<noteq> None \<Longrightarrow> run_disk d tr f p = f p"
  by (rule log_only_quiet) auto

lemma on_disk_log: "on_disk fp d f st \<Longrightarrow> list_all (log_only d) tr \<Longrightarrow> on_disk fp d (run_disk d tr f) st"
  by (erule on_disk_quiet) (rule table_not_log)

lemma holds_tables_log: "holds_tables fp d f st \<Longrightarrow> list_all (log_only d) tr \<Longrightarrow> holds_tables fp d (run_disk d tr f) st"
  by (erule holds_tables_quiet) (rule table_not_log)

lemma engine_inv_set_wal: "engine_inv fp e st es \<Longrightarrow> engine_inv fp (set_wal w e) st es"
  by (simp add: engine_inv_def read_inv_def holds_tables_log on_disk_log)

lemma engine_inv_clear_wal: "engine_inv fp e st es \<Longrightarrow> engine_inv fp (clear_wal env w e) st es"
  by (simp add: engine_inv_def read_inv_def holds_tables_log on_disk_log)

lemma collect_all: "mt_ok m es \<Longrightarrow> Option.bind (mt_begin m) (mt_collect m) = Some es"
  using mt_begin_ok [of m es] by auto

text \<open>The engine after the table of the memtable is on disk and open.\<close>

definition tabled :: "(nat \<Rightarrow> nat) \<Rightarrow> fs_op list \<Rightarrow> entry list \<Rightarrow> engine \<Rightarrow> engine" where
  "tabled fp ops es e =
     e\<lparr>en_sst_counter := en_sst_counter e + 1, en_fs := run_ops ops (en_fs e),
       en_sstables := en_sstables e @ [table_of fp (sstPath (en_dir e) 0 (en_sst_counter e)) es]\<rparr>"

definition emptied :: "clear_env \<Rightarrow> wal \<Rightarrow> memtable \<Rightarrow> engine \<Rightarrow> engine" where
  "emptied env w m e = (clear_wal env w e)\<lparr>en_memtable := m\<rparr>"

definition unlisted :: "fs_op list \<Rightarrow> engine \<Rightarrow> engine" where
  "unlisted ops e = e\<lparr>en_sst_counter := en_sst_counter e + 1, en_fs := run_ops ops (en_fs e)\<rparr>"

text \<open>The ways \<open>flush_to_table\<close> can go.\<close>

lemma flush_to_table_cases:
  assumes inv: "engine_inv fp e st es" and fp: "fp_sane fp" and fl: "flush_to_table fp env e = Some (tr, r, e')"
  obtains
    (before) "r = Some (InjectedPoint ''flush.before_sst'')" "tr = []" "e' = e"
  | (failed) ops x y where "sst_write fp (fe_write env) (sstPath (en_dir e) 0 (en_sst_counter e)) es = (ops, x)" "en_sst_counter e < int_max"
      "r = Some (SstError y)" "tr = map FileOp ops" "e' = unlisted ops e"
  | (stopped) ops x where "sst_write fp (fe_write env) (sstPath (en_dir e) 0 (en_sst_counter e)) es = (ops, None)" "en_sst_counter e < int_max"
      "r = Some x" "tr = map FileOp ops" "e' = tabled fp ops es e"
  | (uncleared) ops x w where "sst_write fp (fe_write env) (sstPath (en_dir e) 0 (en_sst_counter e)) es = (ops, None)" "en_sst_counter e < int_max"
      "wal_clear (fe_clear env) (en_wal e) = Some (Some x, w)" "r = Some (WalError x)"
      "tr = map FileOp ops @ clear_trace (en_dir e) (fe_clear env) (en_wal e)" "e' = clear_wal (fe_clear env) w (tabled fp ops es e)"
  | (cleared) ops w m where "sst_write fp (fe_write env) (sstPath (en_dir e) 0 (en_sst_counter e)) es = (ops, None)" "en_sst_counter e < int_max"
      "wal_clear (fe_clear env) (en_wal e) = Some (None, w)" "mk_memtable (fe_new env) (en_memtable_max_bytes e) = Inr m"
      "r = (if fe_after_wal_clear env then Some (InjectedPoint ''flush.after_wal_clear'') else None)"
      "tr = map FileOp ops @ clear_trace (en_dir e) (fe_clear env) (en_wal e)" "e' = emptied (fe_clear env) w m (tabled fp ops es e)"
proof -
  let ?p = "sstPath (en_dir e) 0 (en_sst_counter e)"
  have mem: "mt_ok (en_memtable e) es" "mem_fits es" using inv by (simp_all add: engine_inv_def read_inv_def)
  have tok: "table_ok fp es" by (rule mem_fits_table_ok [OF mem(2) mt_ok_sorted [OF mem(1)] fp])
  note co = collect_all [OF mem(1)]
  show thesis
  proof (cases "fe_before_sst env")
    case True
    then show ?thesis using fl co before by (simp add: flush_to_table_def)
  next
    case go: False
    then have c: "en_sst_counter e < int_max" using fl co by (simp add: flush_to_table_def split: if_split_asm)
    obtain ops err where w: "sst_write fp (fe_write env) ?p es = (ops, err)" by fastforce
    show ?thesis
    proof (cases "\<exists>y. r = Some (SstError y) \<and> tr = map FileOp ops \<and> e' = unlisted ops e")
      case True
      then show ?thesis using failed [OF w c] by blast
    next
      case ok: False
      have err: "err = None"
        using fl co go c w ok by (cases err) (auto simp: flush_to_table_def Let_def unlisted_def)
      have "run_ops ops (en_fs e) ?p = Some (table_bytes fp es)"
        using sst_write_success_ops(2) [of fp "fe_write env" ?p es ops "en_fs e"] w err render_table_ok [of es fp] tok
        by (auto simp: table_ok_def)
      then have op: "sst_open a b (run_ops ops (en_fs e)) ?p = (if a \<and> b then Inr (table_of fp ?p es) else Inl CannotOpen)" for a b
        using sst_open_table [OF _ tok] by (auto simp: sst_open_def)
      have both: "fst (fe_open env) \<and> snd (fe_open env)"
      proof (rule ccontr)
        assume n: "\<not> (fst (fe_open env) \<and> snd (fe_open env))"
        then have "sst_open (fst (fe_open env)) (snd (fe_open env)) (run_ops ops (en_fs e)) ?p = Inl CannotOpen" unfolding op by (rule if_not_P)
        then show False using fl co go c w err ok by (auto simp: flush_to_table_def Let_def unlisted_def)
      qed
      then have op: "sst_open (fst (fe_open env)) (snd (fe_open env)) (run_ops ops (en_fs e)) ?p = Inr (table_of fp ?p es)"
        unfolding op by (rule if_P)
      have rest: "(if fe_after_sst env then Some (map FileOp ops, Some (InjectedPoint ''flush.after_sst''), tabled fp ops es e)
          else (case mk_memtable (fe_new env) (en_memtable_max_bytes e) of
                  Inl x \<Rightarrow> Some (map FileOp ops, Some (MemError x), tabled fp ops es e)
                | Inr m \<Rightarrow>
                    (case wal_clear (fe_clear env) (en_wal e) of
                       None \<Rightarrow> None
                     | Some (Some x, w) \<Rightarrow> Some (map FileOp ops @ clear_trace (en_dir e) (fe_clear env) (en_wal e), Some (WalError x), clear_wal (fe_clear env) w (tabled fp ops es e))
                     | Some (None, w) \<Rightarrow>
                         if fe_after_wal_clear env
                         then Some (map FileOp ops @ clear_trace (en_dir e) (fe_clear env) (en_wal e), Some (InjectedPoint ''flush.after_wal_clear''), emptied (fe_clear env) w m (tabled fp ops es e))
                         else Some (map FileOp ops @ clear_trace (en_dir e) (fe_clear env) (en_wal e), None, emptied (fe_clear env) w m (tabled fp ops es e)))))
          = Some (tr, r, e')"
        using fl co go c w err op
        by (simp add: flush_to_table_def Let_def tabled_def emptied_def cong: if_cong option.case_cong sum.case_cong)
      show ?thesis
      proof (cases "fe_after_sst env \<or> isl (mk_memtable (fe_new env) (en_memtable_max_bytes e))")
        case True
        then obtain x where "r = Some x" "tr = map FileOp ops" "e' = tabled fp ops es e"
          using rest by (auto split: if_split_asm sum.splits)
        then show ?thesis using stopped w err c by blast
      next
        case False
        then obtain m where m: "mk_memtable (fe_new env) (en_memtable_max_bytes e) = Inr m" "\<not> fe_after_sst env"
          by (cases "mk_memtable (fe_new env) (en_memtable_max_bytes e)") auto
        obtain y w' where cl: "wal_clear (fe_clear env) (en_wal e) = Some (y, w')"
          using rest m by (auto split: option.splits)
        show ?thesis
        proof (cases y)
          case None
          then show ?thesis using rest m cl by (intro cleared [OF w [unfolded err] c _ m(1)]) (auto split: if_split_asm)
        next
          case (Some x)
          then show ?thesis using rest m cl by (intro uncleared [OF w [unfolded err] c]) auto
        qed
      qed
    qed
  qed
qed

lemma tabled_inv:
  assumes inv: "engine_inv fp e st es" and fp: "fp_sane fp" and c: "en_sst_counter e < int_max"
    and w: "sst_write fp io (sstPath (en_dir e) 0 (en_sst_counter e)) es = (ops, None)"
  shows "engine_inv fp (tabled fp ops es e) (with_table st (en_sst_counter e) es) es"
proof -
  have i: "on_disk fp (en_dir e) (en_fs e) st" "mt_ok (en_memtable e) es" "mem_fits es" "\<forall>x \<in> set st. fst (fst x) = 0 \<longrightarrow> snd (fst x) < en_sst_counter e"
      "en_sstables e = store_tables fp (en_dir e) st" "cache_coherent (store_blocks (en_dir e) st) (en_cache e)"
    using inv by (simp_all add: engine_inv_def read_inv_def)
  have tok: "table_ok fp es" by (rule mem_fits_table_ok [OF i(3) mt_ok_sorted [OF i(2)] fp])
  have disk: "on_disk fp (en_dir e) (run_ops ops (en_fs e)) (with_table st (en_sst_counter e) es)"
    by (rule write_table_states(2) [OF i(1,4) c tok w]) simp
  have "store_ok fp (with_table st (en_sst_counter e) es)" using disk by (simp add: on_disk_def)
  then have "cache_coherent (store_blocks (en_dir e) (with_table st (en_sst_counter e) es)) (en_cache e)"
    by (rule store_blocks_add [OF _ i(6)])
  then show ?thesis
    using disk on_disk_holds [OF disk] i by (auto simp: engine_inv_def read_inv_def tabled_def store_tables_def)
qed

lemma emptied_inv:
  assumes "engine_inv fp e st es" "mt_ok m []"
  shows "engine_inv fp (emptied env w m e) st []"
  using engine_inv_clear_wal [OF assms(1), of env w] assms(2)
  by (simp add: engine_inv_def read_inv_def emptied_def mem_fits_def payload_def)

lemma flush_to_table_ok:
  assumes inv: "engine_inv fp e st es" and fp: "fp_sane fp" and new: "new_ok (fe_new env)" and fl: "flush_to_table fp env e = Some (tr, r, e')"
  shows "en_dir e' = en_dir e \<and>
    ((r \<noteq> None \<and> engine_inv fp e' st es) \<or> ((\<exists>x. r = Some (SstError x)) \<and> read_inv fp e' st es)
     \<or> (r \<noteq> None \<and> engine_inv fp e' (with_table st (en_sst_counter e) es) es) \<or> engine_inv fp e' (with_table st (en_sst_counter e) es) [])"
  using inv fp fl
proof (cases rule: flush_to_table_cases)
  case before
  then show ?thesis using inv by simp
next
  case (failed ops x y)
  have i: "on_disk fp (en_dir e) (en_fs e) st" "mt_ok (en_memtable e) es" "mem_fits es" "\<forall>x \<in> set st. fst (fst x) = 0 \<longrightarrow> snd (fst x) < en_sst_counter e"
    using inv by (simp_all add: engine_inv_def read_inv_def)
  have tok: "table_ok fp es" by (rule mem_fits_table_ok [OF i(3) mt_ok_sorted [OF i(2)] fp])
  have "run_ops ops (en_fs e) \<in> crash_states ops (en_fs e)" by (auto simp: crash_states_def)
  from write_table_states(1) [OF i(1,4) failed(2) tok failed(1) this]
  have "holds_tables fp (en_dir e) (run_ops ops (en_fs e)) st"
    by (auto simp: on_disk_def holds_tables_def store_ok_def sorted_wrt_append)
  then show ?thesis using failed inv by (auto simp: unlisted_def engine_inv_def read_inv_def)
next
  case (stopped ops x)
  then show ?thesis using tabled_inv [OF inv fp stopped(2,1)] by (simp add: tabled_def)
next
  case (uncleared ops x w)
  then show ?thesis using engine_inv_clear_wal [OF tabled_inv [OF inv fp uncleared(2,1)]] by (simp add: tabled_def)
next
  case (cleared ops w m)
  then show ?thesis using emptied_inv [OF tabled_inv [OF inv fp cleared(2,1)] mk_memtable_ok [OF new cleared(4)]]
    by (simp add: tabled_def emptied_def)
qed

section \<open>Compaction and whole operations\<close>

text \<open>What the compactor relies on: its directory iteration is complete, its numbers do not overflow, its removals succeed.\<close>

definition compact_lawful :: "(nat \<Rightarrow> nat) \<Rightarrow> compact_io \<Rightarrow> engine \<Rightarrow> store \<Rightarrow> bool" where
  "compact_lawful fp io e st \<longleftrightarrow> lists_dir (en_dir e) (run_ops (sweep io) (en_fs e)) (dir_names io)
     \<and> (\<exists>n. l1_start io (en_sstables e) = Some n \<and> n + length (outputs st) \<le> int_max)
     \<and> (\<forall>p. remove_ok io p) \<and> (\<forall>p. cleanup_ok io p)"

lemma same_view_view: "same_view st st' \<Longrightarrow> view st' es = view st es"
proof
  fix k assume "same_view st st'"
  then show "view st' es k = view st es k" by (cases "map_of es k") (simp_all add: view_def same_view_def map_add_def)
qed

lemma engine_compact_ok:
  assumes inv: "engine_inv fp e st es" and fp: "fp_sane fp" and io: "compact_lawful fp io e st"
  shows "\<exists>ops r e' st'. engine_compact fp io e = Some (map FileOp ops, r, e') \<and> engine_inv fp e' st' es \<and> view st' es = view st es
    \<and> en_dir e' = en_dir e \<and> en_wal e' = en_wal e \<and> en_memtable e' = en_memtable e \<and> en_fs e' = run_ops ops (en_fs e)
    \<and> (\<forall>f \<in> crash_states ops (en_fs e). \<exists>st'. on_disk fp (en_dir e) f st' \<and> same_view st st')"
proof -
  have i: "on_disk fp (en_dir e) (en_fs e) st" "en_sstables e = store_tables fp (en_dir e) st"
      "cache_coherent (store_blocks (en_dir e) st) (en_cache e)" "mt_ok (en_memtable e) es" "mem_fits es"
      "\<forall>x \<in> set st. fst (fst x) = 0 \<longrightarrow> snd (fst x) < en_sst_counter e"
    using inv by (simp_all add: engine_inv_def read_inv_def)
  obtain n where n: "l1_start io (store_tables fp (en_dir e) st) = Some n" "n + length (outputs st) \<le> int_max"
      "lists_dir (en_dir e) (run_ops (sweep io) (en_fs e)) (dir_names io)" "\<forall>p. remove_ok io p" "\<forall>p. cleanup_ok io p"
    using io i(2) by (auto simp: compact_lawful_def)
  obtain ops r c where r: "compact_run fp io (en_dir e) (en_fs e) (store_tables fp (en_dir e) st) (en_sst_counter e) (en_cache e) = Some (ops, r, c)"
      "\<forall>f \<in> crash_states ops (en_fs e). \<exists>st'. on_disk fp (en_dir e) f st' \<and> same_view st st'"
      "result_ok fp io (en_dir e) st (en_sst_counter e) (run_ops ops (en_fs e)) c r"
    using compact_run_spec [OF i(1) fp n(3,1,2,4) i(3), of "en_sst_counter e"] by auto
  show ?thesis
  proof (cases r)
    case (Inl x)
    then have "on_disk fp (en_dir e) (run_ops ops (en_fs e)) st" "cache_coherent (store_blocks (en_dir e) st) c"
      using r(3) n(5) by (simp_all add: result_ok_def)
    then show ?thesis using Inl r(1,2) i
      by (intro exI [of _ ops] exI [of _ "Some (CompactError x)"] exI [of _ "e\<lparr>en_fs := run_ops ops (en_fs e), en_cache := c\<rparr>"] exI [of _ st])
        (simp add: engine_compact_def engine_inv_def read_inv_def on_disk_holds)
  next
    case (Inr y)
    obtain ts cnt where y: "y = (ts, cnt)" by (cases y)
    obtain st' where st': "ts = store_tables fp (en_dir e) st'" "on_disk fp (en_dir e) (run_ops ops (en_fs e)) st'" "same_view st st'"
        "cache_coherent (store_blocks (en_dir e) st') c" "st' = st \<and> cnt = en_sst_counter e \<or> level 0 st' = [] \<and> cnt = 0"
      using r(3) Inr y by (auto simp: result_ok_def)
    have "\<forall>x \<in> set st'. fst (fst x) = 0 \<longrightarrow> snd (fst x) < cnt"
      using st'(5) i(6) by (auto simp: level_def filter_empty_conv)
    then show ?thesis using Inr y r(1,2) i st' same_view_view [OF st'(3)]
      by (intro exI [of _ ops] exI [of _ None]
          exI [of _ "e\<lparr>en_fs := run_ops ops (en_fs e), en_cache := c, en_sstables := ts, en_sst_counter := cnt\<rparr>"] exI [of _ st'])
        (simp add: engine_compact_def engine_inv_def read_inv_def on_disk_holds)
  qed
qed

text \<open>After an operation the engine holds \<open>V\<close>. When a table was written but could not be synced or opened, the directory has a
  table the engine does not know; it still reads correctly.\<close>

definition holds :: "(nat \<Rightarrow> nat) \<Rightarrow> (bytes \<rightharpoonup> bytes) \<Rightarrow> engine_error option \<Rightarrow> engine \<Rightarrow> bool" where
  "holds fp V r e \<longleftrightarrow> (\<exists>st es. engine_inv fp e st es \<and> view st es = V)
     \<or> ((\<exists>x. r = Some (SstError x)) \<and> (\<exists>st es. read_inv fp e st es \<and> view st es = V))"

definition flush_lawful :: "(nat \<Rightarrow> nat) \<Rightarrow> flush_env \<Rightarrow> engine \<Rightarrow> store \<Rightarrow> entry list \<Rightarrow> bool" where
  "flush_lawful fp env e st es \<longleftrightarrow> new_ok (fe_new env)
     \<and> (\<forall>tr e1. flush_to_table fp env e = Some (tr, None, e1) \<longrightarrow> compact_lawful fp (fe_compact env) e1 (with_table st (en_sst_counter e) es))"

lemma flushMemtable_ok:
  assumes inv: "engine_inv fp e st es" and fp: "fp_sane fp" and env: "flush_lawful fp env e st es" and fl: "flushMemtable fp env e = Some (tr, r, e')"
  shows "holds fp (view st es) r e' \<and> en_dir e' = en_dir e"
proof (cases "mt_empty (en_memtable e)")
  case True
  then show ?thesis using fl inv by (auto simp: flushMemtable_def holds_def)
next
  case False
  let ?st = "with_table st (en_sst_counter e) es"
  have v: "view ?st es = view st es" "view ?st [] = view st es" by simp_all
  obtain tr1 r1 e1 where f1: "flush_to_table fp env e = Some (tr1, r1, e1)"
    using fl False by (auto simp: flushMemtable_def split: option.splits)
  have new: "new_ok (fe_new env)" using env by (simp add: flush_lawful_def)
  note ok = flush_to_table_ok [OF inv fp new f1]
  show ?thesis
  proof (cases r1)
    case (Some x)
    then have "r = Some x" "e' = e1" using fl False f1 by (simp_all add: flushMemtable_def)
    then show ?thesis using ok Some v unfolding holds_def by metis
  next
    case None
    then have inv1: "engine_inv fp e1 ?st []" "en_dir e1 = en_dir e" using ok by auto
    have "compact_lawful fp (fe_compact env) e1 ?st" using env f1 None by (auto simp: flush_lawful_def)
    from engine_compact_ok [OF inv1(1) fp this]
    obtain ops r2 e2 st2 where c: "engine_compact fp (fe_compact env) e1 = Some (map FileOp ops, r2, e2)" "engine_inv fp e2 st2 []"
        "view st2 [] = view ?st []" "en_dir e2 = en_dir e1" by blast
    then have "e' = e2" using fl False f1 None by (simp add: flushMemtable_def)
    then show ?thesis using c(2-4) v(2) inv1(2) unfolding holds_def by auto
  qed
qed

lemma await_ok:
  assumes "await_durable envs t e = Some (tr, r, e')" "engine_inv fp e st es"
  shows "engine_inv fp e' st es \<and> en_dir e' = en_dir e"
  using assms engine_inv_set_wal [OF assms(2)] by (auto simp: await_durable_def split: if_split_asm option.splits)

lemma view_upsert: "ssorted es \<Longrightarrow> view st (upsert key v es) = (view st es)(key := v)"
  by (auto simp: view_def map_of_upsert fun_eq_iff map_add_def)

lemma payload_upsert: "ssorted es \<Longrightarrow> payload (upsert key v es) \<le> payload es + length key + value_len v + 8"
  using upsert_absent(1) [of es key v] upsert_present(1) [of es key _ v] by (cases "map_of es key") fastforce+

lemma mem_fits_upsert:
  assumes "mem_fits es" "ssorted es" "entry_ok (key, v)" "payload es + length key + value_len v + 8 \<le> 2 ^ 34"
  shows "mem_fits (upsert key v es)"
  using assms(1,3,4) payload_upsert [OF assms(2), of key v] by (auto simp: mem_fits_def upsert_def)

text \<open>What a write needs: the memory allocator's contract, an entry that does not take the memtable past \<open>mem_fits\<close>, and the
  compactor's conditions if it causes a flush.\<close>

definition write_lawful :: "(nat \<Rightarrow> nat) \<Rightarrow> write_env \<Rightarrow> ((wal_error + ticket) \<times> wal) option \<Rightarrow> (nat stream \<Rightarrow> memtable \<Rightarrow> mem_step)
    \<Rightarrow> bytes \<Rightarrow> bytes option \<Rightarrow> engine \<Rightarrow> store \<Rightarrow> entry list \<Rightarrow> bool" where
  "write_lawful fp env appended mem_op key v e st es \<longleftrightarrow> new_ok (we_new env) \<and> payload es + length key + value_len v + 8 \<le> 2 ^ 34
     \<and> (\<forall>t w u rng m. appended = Some (Inr t, w) \<longrightarrow> mem_op (en_rng e) (en_memtable e) = Some (Inr u, rng, m) \<longrightarrow> isFull m
          \<longrightarrow> flush_lawful fp (we_flush env) ((set_wal w e)\<lparr>en_rng := rng, en_memtable := m\<rparr>) st (upsert key v es))"

lemma write_lawfulD:
  assumes "write_lawful fp env appended mem_op key v e st es" "appended = Some (Inr t, w)"
    "mem_op (en_rng e) (en_memtable e) = Some (Inr u, rng, m)" "isFull m"
  shows "flush_lawful fp (we_flush env) ((set_wal w e)\<lparr>en_rng := rng, en_memtable := m\<rparr>) st (upsert key v es)"
  using assms unfolding write_lawful_def by blast

text \<open>The ways a write can go: refused, failed in memory, without a flush, with one.\<close>

lemma apply_write_cases:
  assumes "apply_write fp env (Some (a, w)) mem_op e = Some (tr, r, e')"
  obtains
    (no_log) x where "a = Inl x" "tr = log_ops w" "r = Some (WalError x)" "e' = set_wal w e"
  | (no_mem) t x rng m where "a = Inr t" "mem_op (en_rng e) (en_memtable e) = Some (Inl x, rng, m)" "tr = log_ops w" "r = Some (MemError x)"
      "e' = (set_wal w e)\<lparr>en_rng := rng, en_memtable := m\<rparr>"
  | (fit) t u rng m tr2 where "a = Inr t" "mem_op (en_rng e) (en_memtable e) = Some (Inr u, rng, m)" "\<not> isFull m"
      "await_durable (we_wait env) t ((set_wal w e)\<lparr>en_rng := rng, en_memtable := m\<rparr>) = Some (tr2, r, e')" "tr = log_ops w @ tr2"
  | (bad_flush) t u rng m tr1 x where "a = Inr t" "mem_op (en_rng e) (en_memtable e) = Some (Inr u, rng, m)" "isFull m"
      "flushMemtable fp (we_flush env) ((set_wal w e)\<lparr>en_rng := rng, en_memtable := m\<rparr>) = Some (tr1, Some x, e')" "r = Some x" "tr = log_ops w @ tr1"
  | (flushed) t u rng m tr1 e1 tr2 where "a = Inr t" "mem_op (en_rng e) (en_memtable e) = Some (Inr u, rng, m)" "isFull m"
      "flushMemtable fp (we_flush env) ((set_wal w e)\<lparr>en_rng := rng, en_memtable := m\<rparr>) = Some (tr1, None, e1)"
      "await_durable (we_wait env) t e1 = Some (tr2, r, e')" "tr = log_ops w @ tr1 @ tr2"
proof (cases a)
  case (Inl x)
  then show thesis using assms no_log by (simp add: apply_write_def)
next
  case (Inr t)
  obtain s rng m where s: "mem_op (en_rng e) (en_memtable e) = Some (s, rng, m)"
    using assms Inr by (auto simp: apply_write_def Let_def split: option.splits)
  show thesis
  proof (cases s)
    case Inl' : (Inl x)
    then show thesis using assms Inr s no_mem by (simp add: apply_write_def Let_def)
  next
    case Inr' : (Inr u)
    let ?e = "(set_wal w e)\<lparr>en_rng := rng, en_memtable := m\<rparr>"
    show thesis
    proof (cases "isFull m")
      case False
      then show thesis using assms Inr s Inr' fit by (auto simp: apply_write_def Let_def split: option.splits)
    next
      case True
      then obtain tr1 r1 e1 where f: "flushMemtable fp (we_flush env) ?e = Some (tr1, r1, e1)"
        using assms Inr s Inr' by (auto simp: apply_write_def Let_def split: option.splits)
      then show thesis
        using assms Inr s Inr' True bad_flush flushed by (cases r1) (auto simp: apply_write_def Let_def split: option.splits)
    qed
  qed
qed

text \<open>The engine of a write whose append was taken, once the memtable has the entry.\<close>

lemma taken_inv:
  assumes inv: "engine_inv fp e st es" and mem: "mt_ok (en_memtable e) es \<Longrightarrow> step_post (en_memtable e) key v es (mem_op (en_rng e) (en_memtable e))"
    and env: "write_lawful fp env appended mem_op key v e st es" and ok: "entry_ok (key, v)"
    and m: "mem_op (en_rng e) (en_memtable e) = Some (Inr u, rng, m)"
  shows "engine_inv fp ((set_wal w e)\<lparr>en_rng := rng, en_memtable := m\<rparr>) st (upsert key v es)"
proof -
  have m0: "mt_ok (en_memtable e) es" "mem_fits es" using inv by (simp_all add: engine_inv_def read_inv_def)
  have "mt_ok m (upsert key v es)" using mem [OF m0(1)] m by (auto simp: step_post_def)
  moreover have "mem_fits (upsert key v es)"
  proof (rule mem_fits_upsert [OF m0(2) mt_ok_sorted [OF m0(1)] ok])
    show "payload es + length key + value_len v + 8 \<le> 2 ^ 34" using env unfolding write_lawful_def by (elim conjE)
  qed
  ultimately show ?thesis using engine_inv_set_wal [OF inv, of w] by (simp add: engine_inv_def read_inv_def)
qed

lemma apply_write_ok:
  assumes inv: "engine_inv fp e st es" and fp: "fp_sane fp"
    and mem: "\<And>rng m. mt_ok m es \<Longrightarrow> step_post m key v es (mem_op rng m)"
    and fits: "\<And>t w. appended = Some (Inr t, w) \<Longrightarrow> entry_ok (key, v)"
    and env: "write_lawful fp env appended mem_op key v e st es"
    and run: "apply_write fp env appended mem_op e = Some (tr, r, e')"
  shows "en_dir e' = en_dir e \<and> (holds fp ((view st es)(key := v)) r e' \<or> (r \<noteq> None \<and> holds fp (view st es) r e'))"
proof -
  have m0: "mt_ok (en_memtable e) es" using inv by (simp add: engine_inv_def read_inv_def)
  obtain a w where a: "appended = Some (a, w)" using run by (cases appended) (auto simp: apply_write_def)
  have inv0: "engine_inv fp (set_wal w e) st es" by (rule engine_inv_set_wal [OF inv])
  have v: "view st (upsert key v es) = (view st es)(key := v)" by (rule view_upsert [OF mt_ok_sorted [OF m0]])
  have inv1: "engine_inv fp ((set_wal w e)\<lparr>en_rng := rng, en_memtable := m\<rparr>) st (upsert key v es)"
    if "a = Inr t" "mem_op (en_rng e) (en_memtable e) = Some (Inr u, rng, m)" for t u rng m
    by (rule taken_inv [OF inv mem env fits [OF a [unfolded that(1)]] that(2)])
  from run [unfolded a] show ?thesis
  proof (cases rule: apply_write_cases)
    case (no_log x)
    then show ?thesis using inv0 unfolding holds_def by auto
  next
    case (no_mem t x rng m)
    have "mt_ok m es" using mem [OF m0, of "en_rng e"] no_mem(2) by (auto simp: step_post_def)
    then have "engine_inv fp e' st es" using inv0 no_mem(5) by (simp add: engine_inv_def read_inv_def)
    then show ?thesis using no_mem(4,5) unfolding holds_def by auto
  next
    case (fit t u rng m tr2)
    then show ?thesis using await_ok [OF fit(4) inv1 [OF fit(1,2)]] v unfolding holds_def by auto
  next
    case (bad_flush t u rng m tr1 x)
    have "flush_lawful fp (we_flush env) ((set_wal w e)\<lparr>en_rng := rng, en_memtable := m\<rparr>) st (upsert key v es)"
      by (rule write_lawfulD [OF env a [unfolded bad_flush(1)] bad_flush(2,3)])
    from flushMemtable_ok [OF inv1 [OF bad_flush(1,2)] fp this bad_flush(4)] show ?thesis using bad_flush(5) v by simp
  next
    case (flushed t u rng m tr1 e1 tr2)
    have "flush_lawful fp (we_flush env) ((set_wal w e)\<lparr>en_rng := rng, en_memtable := m\<rparr>) st (upsert key v es)"
      by (rule write_lawfulD [OF env a [unfolded flushed(1)] flushed(2,3)])
    from flushMemtable_ok [OF inv1 [OF flushed(1,2)] fp this flushed(4)]
    obtain st1 es1 where i1: "engine_inv fp e1 st1 es1" "view st1 es1 = view st (upsert key v es)" "en_dir e1 = en_dir e"
      by (auto simp: holds_def)
    then show ?thesis using await_ok [OF flushed(5) i1(1)] v unfolding holds_def by auto
  qed
qed

lemma appended_fits:
  assumes "wal_writeEntry env t k v w = Some (Inr tk, w')"
  shows "length k \<le> uint32_max \<and> length v \<le> uint32_max"
  using assms by (auto simp: wal_writeEntry_def split: option.splits if_split_asm)

lemma put_ok:
  assumes "engine_inv fp e st es" "fp_sane fp" "put fp env key val e = Some (tr, r, e')"
    "write_lawful fp env (appendPut (we_append env) key val (en_wal e)) (mt_put (we_new env) key val) key (Some val) e st es"
  shows "en_dir e' = en_dir e \<and> (holds fp ((view st es)(key \<mapsto> val)) r e' \<or> (r \<noteq> None \<and> holds fp (view st es) r e'))"
proof (rule apply_write_ok [OF assms(1,2) _ _ assms(4) assms(3) [unfolded put_def]])
  have "new_ok (we_new env)" using assms(4) by (simp add: write_lawful_def)
  then show "step_post m key (Some val) es (mt_put (we_new env) key val rng m)" if "mt_ok m es" for rng m
    using that by (rule mt_put_ok)
  show "entry_ok (key, Some val)" if "appendPut (we_append env) key val (en_wal e) = Some (Inr t, w)" for t w
    using appended_fits that by (fastforce simp: appendPut_def entry_ok_def)
qed

lemma del_ok:
  assumes "engine_inv fp e st es" "fp_sane fp" "del fp env key e = Some (tr, r, e')"
    "write_lawful fp env (appendDel (we_append env) key (en_wal e)) (mt_del (we_new env) key) key None e st es"
  shows "en_dir e' = en_dir e \<and> (holds fp ((view st es)(key := None)) r e' \<or> (r \<noteq> None \<and> holds fp (view st es) r e'))"
proof (rule apply_write_ok [OF assms(1,2) _ _ assms(4) assms(3) [unfolded del_def]])
  have "new_ok (we_new env)" using assms(4) by (simp add: write_lawful_def)
  then show "step_post m key None es (mt_del (we_new env) key rng m)" if "mt_ok m es" for rng m
    using that by (rule mt_del_ok)
  show "entry_ok (key, None)" if "appendDel (we_append env) key (en_wal e) = Some (Inr t, w)" for t w
    using appended_fits that by (fastforce simp: appendDel_def entry_ok_def)
qed

lemma engine_flush_ok:
  assumes "engine_inv fp e st es" "fp_sane fp" "flush_lawful fp env e st es" "engine_flush fp env e = Some (tr, r, e')"
  shows "holds fp (view st es) r e' \<and> en_dir e' = en_dir e"
  using flushMemtable_ok [OF assms(1-3)] assms(1,4) by (auto simp: engine_flush_def holds_def split: if_split_asm)

lemma engine_sync_ok:
  assumes "engine_inv fp e st es" "engine_sync envs e = Some (tr, r, e')"
  shows "engine_inv fp e' st es"
  using assms(2) engine_inv_set_wal [OF assms(1)] by (auto simp: engine_sync_def split: option.splits)

lemma read_inv_engine:
  assumes "engine_inv fp e st es" "read_inv fp (e\<lparr>en_cache := c\<rparr>) st es"
  shows "engine_inv fp (e\<lparr>en_cache := c\<rparr>) st es"
  using assms by (simp add: engine_inv_def)

section \<open>Histories of calls\<close>

datatype engine_call =
    CallPut write_env bytes bytes
  | CallDel write_env bytes
  | CallSync "(drain_env \<times> sync_env) list"
  | CallFlush flush_env
  | CallGet "entry list \<Rightarrow> nat" pread_fn bytes
  | CallScan bytes "bytes option" nat

datatype engine_reply =
    Replied "engine_error option"
  | Got "sst_error + bytes option"
  | Scanned "(bytes \<times> bytes) list"

definition returned :: "engine_step \<Rightarrow> (engine_reply \<times> engine) option" where
  "returned = map_option (\<lambda>(tr, r, e). (Replied r, e))"

fun call_engine :: "(nat \<Rightarrow> nat) \<Rightarrow> engine_call \<Rightarrow> engine \<Rightarrow> (engine_reply \<times> engine) option" where
  "call_engine fp (CallPut env key val) e = returned (put fp env key val e)"
| "call_engine fp (CallDel env key) e = returned (del fp env key e)"
| "call_engine fp (CallSync envs) e = returned (engine_sync envs e)"
| "call_engine fp (CallFlush env) e = returned (engine_flush fp env e)"
| "call_engine fp (CallGet sz pread key) e = map_option (\<lambda>(r, e). (Got r, e)) (get sz pread key e)"
| "call_engine fp (CallScan start stop limit) e = map_option (\<lambda>out. (Scanned out, e)) (engine_scan start stop limit e)"

text \<open>The specification: a map from keys to values. A write that throws has happened or has not; a read may throw only for the
  device.\<close>

definition is_range :: "(bytes \<rightharpoonup> bytes) \<Rightarrow> bytes \<Rightarrow> bytes option \<Rightarrow> nat \<Rightarrow> (bytes \<times> bytes) list \<Rightarrow> bool" where
  "is_range V start stop limit out \<longleftrightarrow> (\<exists>R. out = take limit R \<and> sorted_wrt (\<lambda>x y. fst x < fst y) R
     \<and> (\<forall>k v. (k, v) \<in> set R \<longleftrightarrow> start \<le> k \<and> \<not> past_end stop k \<and> V k = Some v))"

fun spec_call :: "engine_call \<Rightarrow> engine_reply \<Rightarrow> (bytes \<rightharpoonup> bytes) \<Rightarrow> (bytes \<rightharpoonup> bytes) \<Rightarrow> bool" where
  "spec_call (CallPut _ key val) (Replied r) V V' \<longleftrightarrow> V' = V(key \<mapsto> val) \<or> (r \<noteq> None \<and> V' = V)"
| "spec_call (CallDel _ key) (Replied r) V V' \<longleftrightarrow> V' = V(key := None) \<or> (r \<noteq> None \<and> V' = V)"
| "spec_call (CallSync _) (Replied r) V V' \<longleftrightarrow> V' = V"
| "spec_call (CallFlush _) (Replied r) V V' \<longleftrightarrow> V' = V"
| "spec_call (CallGet _ pread key) (Got r) V V' \<longleftrightarrow> V' = V \<and>
     (r = Inr (V key) \<or> (pread \<noteq> pread_full \<and> (r = Inl PreadError \<or> r = Inl ShortPread)))"
| "spec_call (CallScan start stop limit) (Scanned out) V V' \<longleftrightarrow> V' = V \<and> is_range V start stop limit out"
| "spec_call _ _ _ _ \<longleftrightarrow> False"

text \<open>What a call relies on.\<close>

fun call_lawful :: "(nat \<Rightarrow> nat) \<Rightarrow> engine_call \<Rightarrow> engine \<Rightarrow> store \<Rightarrow> entry list \<Rightarrow> bool" where
  "call_lawful fp (CallPut env key val) e st es \<longleftrightarrow>
     write_lawful fp env (appendPut (we_append env) key val (en_wal e)) (mt_put (we_new env) key val) key (Some val) e st es"
| "call_lawful fp (CallDel env key) e st es \<longleftrightarrow>
     write_lawful fp env (appendDel (we_append env) key (en_wal e)) (mt_del (we_new env) key) key None e st es"
| "call_lawful fp (CallSync _) e st es \<longleftrightarrow> True"
| "call_lawful fp (CallFlush env) e st es \<longleftrightarrow> flush_lawful fp env e st es"
| "call_lawful fp (CallGet sz pread key) e st es \<longleftrightarrow> pread_ok pread"
| "call_lawful fp (CallScan start stop limit) e st es \<longleftrightarrow> True"

text \<open>The engine holds a map: the invariant, for some content of the tables and of the memtable.\<close>

definition engine_holds :: "(nat \<Rightarrow> nat) \<Rightarrow> engine \<Rightarrow> (bytes \<rightharpoonup> bytes) \<Rightarrow> bool" where
  "engine_holds fp e V \<longleftrightarrow> (\<exists>st es. engine_inv fp e st es \<and> view st es = V)"

text \<open>One call of a history, labelled with its reply; a call that failed while a table was being written is not one.\<close>

fun call_step :: "(nat \<Rightarrow> nat) \<Rightarrow> engine \<Rightarrow> engine_call \<times> engine_reply \<Rightarrow> engine \<Rightarrow> bool" where
  "call_step fp e (c, r) e' \<longleftrightarrow> (\<forall>st es. engine_inv fp e st es \<longrightarrow> call_lawful fp c e st es) \<and> call_engine fp c e = Some (r, e')
     \<and> (\<forall>x. r \<noteq> Replied (Some (SstError x)))"

fun spec_step :: "(bytes \<rightharpoonup> bytes) \<Rightarrow> engine_call \<times> engine_reply \<Rightarrow> (bytes \<rightharpoonup> bytes) \<Rightarrow> bool" where
  "spec_step V (c, r) V' \<longleftrightarrow> spec_call c r V V'"

lemma engine_scan_ok:
  assumes "read_inv fp e st es"
  shows "\<exists>out. engine_scan start stop limit e = Some out \<and> is_range (view st es) start stop limit out"
  using scan_range [of "en_memtable e" es fp "en_dir e" "en_fs e" st start stop limit] assms
  by (auto simp: engine_scan_def is_range_def read_inv_def view_def)

lemma call_refines:
  assumes inv: "engine_inv fp e st es" and fp: "fp_sane fp" and law: "call_lawful fp c e st es" and run: "call_engine fp c e = Some (r, e')"
  shows "\<exists>V. spec_call c r (view st es) V \<and> (engine_holds fp e' V \<or> (\<exists>x st' es'. r = Replied (Some (SstError x)) \<and> read_inv fp e' st' es' \<and> view st' es' = V))"
proof (cases c)
  case (CallPut env key val)
  then obtain tr x where p: "put fp env key val e = Some (tr, x, e')" "r = Replied x" using run by (auto simp: returned_def)
  have "holds fp ((view st es)(key \<mapsto> val)) x e' \<or> (x \<noteq> None \<and> holds fp (view st es) x e')"
    using put_ok [OF inv fp p(1)] law CallPut by simp
  then show ?thesis using CallPut p(2) by (auto simp: holds_def engine_holds_def)
next
  case (CallDel env key)
  then obtain tr x where p: "del fp env key e = Some (tr, x, e')" "r = Replied x" using run by (auto simp: returned_def)
  have "holds fp ((view st es)(key := None)) x e' \<or> (x \<noteq> None \<and> holds fp (view st es) x e')"
    using del_ok [OF inv fp p(1)] law CallDel by simp
  then show ?thesis using CallDel p(2) by (auto simp: holds_def engine_holds_def)
next
  case (CallSync envs)
  then obtain tr x where p: "engine_sync envs e = Some (tr, x, e')" "r = Replied x" using run by (auto simp: returned_def)
  show ?thesis using engine_sync_ok [OF inv p(1)] CallSync p(2) by (auto simp: engine_holds_def)
next
  case (CallFlush env)
  then obtain tr x where p: "engine_flush fp env e = Some (tr, x, e')" "r = Replied x" using run by (auto simp: returned_def)
  have "holds fp (view st es) x e'" using engine_flush_ok [OF inv fp _ p(1)] law CallFlush by simp
  then show ?thesis using CallFlush p(2) by (auto simp: holds_def engine_holds_def)
next
  case (CallGet sz pread key)
  have "read_inv fp e st es" "pread_ok pread" using inv law CallGet by (simp_all add: engine_inv_def)
  from engine_get_ok [OF this, of sz key] obtain x c where g: "get sz pread key e = Some (x, e\<lparr>en_cache := c\<rparr>)" "read_inv fp (e\<lparr>en_cache := c\<rparr>) st es"
      "x = Inr (view st es key) \<or> x = Inl PreadError \<or> x = Inl ShortPread" "pread = pread_full \<longrightarrow> x = Inr (view st es key)"
    by blast
  then have "r = Got x" "e' = e\<lparr>en_cache := c\<rparr>" using run CallGet by auto
  then show ?thesis using g(3,4) read_inv_engine [OF inv g(2)] CallGet by (auto simp: engine_holds_def)
next
  case (CallScan start stop limit)
  have "read_inv fp e st es" using inv by (simp add: engine_inv_def)
  from engine_scan_ok [OF this, of start stop limit] obtain out
    where "engine_scan start stop limit e = Some out" "is_range (view st es) start stop limit out" by blast
  then have "spec_call c r (view st es) (view st es)" "e' = e" using run CallScan by auto
  then show ?thesis using inv unfolding engine_holds_def by blast
qed

interpretation eng: simulation "\<lambda>e V. fp_sane fp \<and> engine_holds fp e V" "call_step fp" spec_step for fp
proof (unfold_locales, goal_cases)
  case (1 e V l e')
  obtain c r where l: "l = (c, r)" by (cases l)
  obtain st es where i: "engine_inv fp e st es" "view st es = V" using 1(1) by (auto simp: engine_holds_def)
  have law: "call_lawful fp c e st es" and run: "call_engine fp c e = Some (r, e')" and ok: "\<forall>x. r \<noteq> Replied (Some (SstError x))"
    using 1(2) l i(1) by simp_all
  obtain V' where "spec_call c r V V'" "engine_holds fp e' V'"
    using call_refines [OF i(1) _ law run] 1(1) i(2) ok by blast
  then show ?case using 1(1) l by auto
qed


section \<open>The directory lock\<close>

lemma open_locks:
  assumes "open_engine env d mx dur rng c locks fs = Some (r, locks', fs')"
  shows "(d \<in> locks \<or> \<not> st_flock env \<or> \<not> st_lock_open env) \<and> (\<exists>x. r = Inl x) \<and> locks' = locks \<and> (\<forall>p. p \<noteq> lock_path d \<longrightarrow> fs' p = fs p)
    \<or> d \<notin> locks \<and> \<not> st_create_dir env \<and> (\<exists>x. r = Inl x) \<and> locks' = locks
    \<or> d \<notin> locks \<and> locks' = insert d locks \<and> (\<forall>e. r = Inr e \<longrightarrow> en_dir e = d)"
proof (cases "st_create_dir env \<and> st_lock_open env \<and> st_flock env \<and> d \<notin> locks")
  case True
  then have "locks' = insert d locks \<and> (\<forall>e. r = Inr e \<longrightarrow> en_dir e = d)"
    using assms by (auto simp: open_engine_def ensureDir_def acquireDirectoryLock_def Let_def split: sum.splits option.splits prod.splits)
  then show ?thesis using True by blast
next
  case False
  then show ?thesis using assms by (auto simp: open_engine_def ensureDir_def acquireDirectoryLock_def split: if_split_asm)
qed

text \<open>C9. The lock keeps a second engine out. An opening of a directory that is locked is refused and touches nothing in it but the
  lock file, the log in particular; an opening that succeeds found the directory free and leaves it locked, until the
  destructor of its engine gives the lock back.\<close>

theorem directory_lock_exclusive:
  assumes "open_engine env d mx dur rng c locks fs = Some (r, locks', fs')"
  shows "(d \<in> locks \<longrightarrow> (\<exists>x. r = Inl x) \<and> locks' = locks \<and> (\<forall>p. p \<noteq> lock_path d \<longrightarrow> fs' p = fs p))
    \<and> (\<forall>e. r = Inr e \<longrightarrow> d \<notin> locks \<and> locks' = insert d locks \<and> en_dir e = d)
    \<and> (\<forall>e fp fenv denv tr fs2 c2 locks2. close_engine fp fenv denv e locks' = Some (tr, fs2, c2, locks2) \<longrightarrow> locks2 = locks' - {en_dir e})"
proof -
  have "locks2 = locks' - {en_dir e}" if "close_engine fp fenv denv e locks' = Some (tr, fs2, c2, locks2)" for e fp fenv denv tr fs2 c2 locks2
    using that by (auto simp: close_engine_def Let_def split: option.splits)
  then show ?thesis using open_locks [OF assms] by blast
qed

text \<open>A constructor that throws after it has taken the lock leaves it taken: the lock is a plain descriptor that only the
  destructor closes, and the destructor does not run. Every later opening in the process is refused.\<close>

theorem failed_open_keeps_lock:
  assumes "st_create_dir env" "st_lock_open env" "st_flock env" "d \<notin> locks" "\<not> oe_ring (st_wal env)" "oe_open (st_wal env)" "oe_stat (st_wal env)"
    and "st_create_dir env'"
  shows "\<exists>fs'. open_engine env d mx dur rng c locks fs = Some (Inl (WalError RingInitFailed), insert d locks, fs')
    \<and> (\<exists>fs''. open_engine env' d mx' dur' rng' c' (insert d locks) fs' = Some (Inl LockFailed, insert d locks, fs''))"
  using assms by (simp add: open_engine_def ensureDir_def acquireDirectoryLock_def mk_wal_def Let_def)

section \<open>A concrete engine\<close>

lemma ex_list_eq: "ex_list = \<lparr>sl_arena = \<lparr>ar_destructors = [4248, 4096], ar_block_size = 1048576, ar_offset = 192, ar_current_size = 1048576, ar_current = 4096, ar_blocks = [(4096, 1048576)]\<rparr>,
   sl_nodes = [4096 \<mapsto> \<lparr>nd_key = [], nd_value = 4248, nd_height = 12, nd_next = replicate 12 None\<rparr>], sl_slots = [4248 \<mapsto> None], sl_head = 4096\<rparr>"
  by (simp add: ex_list_def mk_arena_def ex_new_def mk_skiplist_def create_def makeSlot_def sizeof_node_def sizeof_link_def alignof_node_def
          sizeof_slot_def max_height_def  allocate_def padFor_def registerDestructor_def)

lemma ex_find_from: "n \<le> 12 \<Longrightarrow> find_from (sl_nodes ex_list) key n 4096 = Some (replicate n (4096, None))"
proof (induction n)
  case (Suc n)
  have "find_level (sl_nodes ex_list) key n 4096 = Some (4096, None)"
    by (subst find_level.simps) (use Suc.prems in \<open>simp add: link_def ex_list_eq\<close>)
  then show ?case using Suc by (simp add: replicate_append_same [symmetric])
qed simp

lemma ex_insert: "\<exists>s. sl_insert ex_new key v (sconst 1) ex_list = Some (Inr (True, 0), sconst 1, s)"
proof -
  have f: "sl_find (sl_nodes ex_list) (sl_head ex_list) key = Some (False, replicate 12 (4096, None))"
    using ex_find_from [of 12 key] by (simp add: sl_find_def max_height_def ex_list_eq)
  have r: "randomHeight 1 (sconst 1) = (1, sconst 1)" by (subst randomHeight.simps) (simp add: max_height_def)
  show ?thesis
    apply (subst sl_insert.simps)
    unfolding f r
    by (simp add: ex_list_eq create_def makeSlot_def sizeof_node_def sizeof_link_def alignof_node_def
          sizeof_slot_def  allocate_def padFor_def registerDestructor_def cas_def set_link_def link_def)
qed

lemma ex_mt_put: "\<exists>m. mt_put ex_new [97] [57] (sconst 1) ex_memtable = Some (Inr (), sconst 1, m) \<and> \<not> isFull m"
  using ex_insert [of "[97]" "Some [57]"] by (auto simp: mt_put_def ex_memtable_def isFull_def)


definition ex_engine :: engine where
  "ex_engine = \<lparr>en_dir = ''/d'', en_memtable_max_bytes = 4096, en_wal = ex_wal\<lparr>wl_durability := Async\<rparr>, en_memtable = ex_memtable,
     en_sstables = store_tables (\<lambda>n. 10 * n) ''/d'' ex_store, en_sst_counter = 4, en_rng = sconst 1,
     en_fs = run_disk ''/d'' [LogIs []] ex_dir, en_cache = globalInstance\<rparr>"

definition ex_ce :: clear_env where
  "ex_ce = \<lparr>ce_drain = ([], []), ce_remove = True, ce_open = True, ce_ring = True\<rparr>"

definition ex_fe :: flush_env where
  "ex_fe = \<lparr>fe_before_sst = False, fe_write = ex_io, fe_open = (True, True), fe_after_sst = False, fe_new = ex_new,
     fe_clear = ex_ce, fe_after_wal_clear = False, fe_compact = ex_cio\<rparr>"

definition ex_we :: write_env where
  "ex_we = \<lparr>we_append = ex_append, we_new = ex_new, we_flush = ex_fe, we_wait = []\<rparr>"

lemma ex_coherent: "cache_coherent (store_blocks ''/d'' ex_store) globalInstance"
  by (simp add: lru.coherent_def globalInstance_def mk_cache_def cache_ok_def cache_view_def node_refs_def total_bytes_def)

lemma ex_engine_inv: "engine_inv (\<lambda>n. 10 * n) ex_engine ex_store []"
proof -
  have d: "on_disk (\<lambda>n. 10 * n) ''/d'' (run_disk ''/d'' [LogIs []] ex_dir) ex_store" by (rule on_disk_log [OF ex_on_disk]) simp
  have c: "\<forall>x \<in> set ex_store. fst (fst x) = 0 \<longrightarrow> snd (fst x) < 4" by (simp add: ex_store_def)
  show ?thesis
    using d c on_disk_holds [OF d] ex_coherent mk_memtable_ok [OF ex_new_ok ex_memtable_mk]
    by (simp add: engine_inv_def read_inv_def ex_engine_def mem_fits_def payload_def)
qed

lemma ex_put_step:
  "\<exists>e1. call_engine (\<lambda>n. 10 * n) (CallPut ex_we [97] [57]) ex_engine = Some (Replied None, e1)"
proof -
  have len: "length (encode_record 1 [97] [57]) = 512" by (simp add: length_encode_record record_size_def align512_def)
  obtain m where m: "mt_put ex_new [97] [57] (sconst 1) ex_memtable = Some (Inr (), sconst 1, m)" "\<not> isFull m" using ex_mt_put by blast
  obtain t w where "appendPut ex_append [97] [57] (ex_wal\<lparr>wl_durability := Async\<rparr>) = Some (Inr t, w)" "wl_durability w = Async"
    by (simp add: ex_wal_eq appendPut_def wal_writeEntry_def submit_record_def Let_def ex_append_def io_submit_def len)
  then show ?thesis using m
    by (simp add: put_def apply_write_def returned_def ex_we_def ex_engine_def Let_def await_durable_def set_wal_def)
qed

lemma ex_pread_ok: "pread_ok pread_full"
  by (simp add: pread_ok_def pread_full_def)

lemma ex_put_lawful:
  assumes "engine_inv (\<lambda>n. 10 * n) ex_engine st es"
  shows "call_lawful (\<lambda>n. 10 * n) (CallPut ex_we [97] [57]) ex_engine st es"
proof -
  have "mt_ok ex_memtable es" "mem_fits es" using assms by (simp_all add: engine_inv_def read_inv_def ex_engine_def)
  from mt_empty_iff [OF this] have "es = []" by (simp add: mt_empty_def mt_size_def ex_memtable_def)
  then show ?thesis using ex_mt_put ex_new_ok
    by (auto simp: write_lawful_def ex_we_def ex_engine_def payload_def value_len_def)
qed


theorem directory_lock_exclusive_witness:
  "\<exists>x fs'. open_engine \<lparr>st_create_dir = True, st_lock_open = True, st_flock = True, st_wal = ex_oe, st_new = ex_new, st_size = None,
       st_reads = [], st_names = [], st_opens = (\<lambda>_. (True, True))\<rparr> ''/d'' 4096 Async (sconst 1) globalInstance {''/d''} (en_fs ex_engine)
       = Some (Inl x, {''/d''}, fs') \<and> fs' (wal_path ''/d'') = Some []"
proof -
  let ?o = "open_engine \<lparr>st_create_dir = True, st_lock_open = True, st_flock = True, st_wal = ex_oe, st_new = ex_new, st_size = None,
       st_reads = [], st_names = [], st_opens = (\<lambda>_. (True, True))\<rparr> ''/d'' 4096 Async (sconst 1) globalInstance {''/d''} (en_fs ex_engine)"
  obtain r l f where o: "?o = Some (r, l, f)" by (simp add: open_engine_def ensureDir_def acquireDirectoryLock_def)
  have "wal_path ''/d'' \<noteq> lock_path ''/d''" by (simp add: wal_path_def lock_path_def)
  moreover have "en_fs ex_engine (wal_path ''/d'') = Some []" by (simp add: ex_engine_def run_disk_def)
  ultimately show ?thesis using directory_lock_exclusive [OF o] o by auto
qed

end
