(* ===== verification/Recovery.thy ===== *)
theory Recovery
  imports Engine
begin

text \<open>
  Construction after a crash: what \<open>recoverFromWAL\<close> and \<open>loadSSTables\<close> make of the directory an engine left behind, whatever
  it was doing. The lemmas describe every state of the directory during a flush and a write, and show that an engine opened
  on it holds what the first one held.
\<close>

section \<open>Opening\<close>

definition entry_value :: "wal_entry \<Rightarrow> bytes option" where
  "entry_value x = (if we_type x = PUT then Some (we_value x) else None)"

definition replayed :: "wal_entry list \<Rightarrow> entry list \<Rightarrow> entry list" where
  "replayed xs es = fold (\<lambda>x. upsert (we_key x) (entry_value x)) xs es"

definition log_of :: "path \<Rightarrow> fs \<Rightarrow> bytes" where
  "log_of d f = (case f (wal_path d) of None \<Rightarrow> [] | Some l \<Rightarrow> l)"

abbreviation logged :: "path \<Rightarrow> fs \<Rightarrow> wal_entry list" where
  "logged d f \<equiv> recover_from (log_of d f) 0"

lemma replay_ok:
  assumes "new_ok new" "mt_ok m es"
  shows "\<exists>r rng' m'. replay new xs rng m = Some (r, rng', m') \<and> (r = None \<longrightarrow> mt_ok m' (replayed xs es))"
  using assms(2)
proof (induction xs arbitrary: rng m es)
  case (Cons x xs)
  let ?step = "if we_type x = PUT then mt_put new (we_key x) (we_value x) rng m else mt_del new (we_key x) rng m"
  have "step_post m (we_key x) (entry_value x) es ?step"
    using mt_put_ok [OF assms(1) Cons.prems] mt_del_ok [OF assms(1) Cons.prems] by (simp add: entry_value_def)
  then obtain r rng1 m1 where s: "?step = Some (r, rng1, m1)" "mt_ok m1 (case r of Inl _ \<Rightarrow> es | Inr _ \<Rightarrow> upsert (we_key x) (entry_value x) es)"
    unfolding step_post_def by blast
  show ?case
  proof (cases r)
    case (Inl err)
    then show ?thesis using s(1) by simp
  next
    case (Inr u)
    then show ?thesis using s Cons.IH [of m1 "upsert (we_key x) (entry_value x) es" rng1] by (simp add: replayed_def)
  qed
qed (simp add: replayed_def)

text \<open>The environment of an opening that nothing but the memory allocator can fail: the calls succeed, the reads deliver the
  log, which is within the limit, and the directory iteration is complete.\<close>

definition start_lawful :: "start_env \<Rightarrow> path \<Rightarrow> fs \<Rightarrow> bool" where
  "start_lawful env d f \<longleftrightarrow> st_create_dir env \<and> st_lock_open env \<and> st_flock env
     \<and> oe_open (st_wal env) \<and> oe_stat (st_wal env) \<and> oe_ring (st_wal env) \<and> new_ok (st_new env)
     \<and> st_size env = Some (length (log_of d f)) \<and> delivers (st_reads env) (log_of d f) \<and> length (log_of d f) \<le> max_recovery_bytes
     \<and> lists_dir d (f(lock_path d \<mapsto> [], wal_path d \<mapsto> log_of d f)) (st_names env) \<and> st_opens env = (\<lambda>_. (True, True))"

lemma lock_path_no_table [simp]: "parse_sst (lock_path d) = None"
proof -
  have "filename (lock_path d) = ''LOCK''"
    unfolding lock_path_def using filename_join [of "''LOCK''" d] by simp
  then have "extension (lock_path d) = []" by (simp add: extension_def)
  then show ?thesis by (simp add: parse_sst_def)
qed

text \<open>What recovery reads fits the memtable: it is in the log.\<close>

lemma recovered_size: "(\<Sum>x \<leftarrow> recover_from buf s. record_size (we_key x) (we_value x)) \<le> length buf - s"
proof (induction buf s rule: recover_from.induct)
  case (1 buf s)
  obtain ox s' where step: "recover_step buf s = (ox, s')" by fastforce
  have le: "s < s'" using recover_step_progress [of s buf] step by simp
  show ?case
  proof (cases "s < length buf")
    case True
    show ?thesis
    proof (cases ox)
      case None
      then have "(\<Sum>x \<leftarrow> recover_from buf s. record_size (we_key x) (we_value x)) \<le> length buf - s'"
        using 1(1) [OF True] step True by (simp add: recover_from.simps [of buf s])
      then show ?thesis using le by simp
    next
      case (Some x)
      have "s + record_size (we_key x) (we_value x) \<le> length buf" "s' = s + align512 (record_size (we_key x) (we_value x))"
        using recover_step_SomeD [of buf s x s'] step Some by (auto simp: record_size_def)
      moreover have "record_size (we_key x) (we_value x) \<le> align512 (record_size (we_key x) (we_value x))" by (rule align512_ge)
      moreover have "(\<Sum>x \<leftarrow> recover_from buf s'. record_size (we_key x) (we_value x)) \<le> length buf - s'"
        using 1(2) [OF True] step Some by simp
      ultimately show ?thesis using step Some True by (simp add: recover_from.simps [of buf s])
    qed
  qed (simp add: recover_from.simps)
qed

lemma replayed_sorted: "ssorted es \<Longrightarrow> ssorted (replayed xs es)"
  by (induction xs arbitrary: es) (simp_all add: replayed_def ssorted_upsert)

lemma replayed_payload:
  assumes "ssorted es"
  shows "payload (replayed xs es) \<le> payload es + (\<Sum>x \<leftarrow> xs. record_size (we_key x) (we_value x))"
  using assms
proof (induction xs arbitrary: es)
  case (Cons x xs)
  let ?es = "upsert (we_key x) (entry_value x) es"
  have "payload ?es \<le> payload es + record_size (we_key x) (we_value x)"
    using payload_upsert [OF Cons.prems, of "we_key x" "entry_value x"] by (simp add: entry_value_def value_len_def record_size_def split: if_split_asm)
  moreover have "payload (replayed xs ?es) \<le> payload ?es + (\<Sum>x \<leftarrow> xs. record_size (we_key x) (we_value x))"
    by (rule Cons.IH) (simp add: ssorted_upsert Cons.prems)
  ultimately show ?case by (simp add: replayed_def)
qed (simp add: replayed_def)

lemma replayed_entry:
  assumes "e \<in> set (replayed xs es)" "e \<notin> set es"
  shows "\<exists>x \<in> set xs. e = (we_key x, entry_value x)"
  using assms
proof (induction xs arbitrary: es)
  case (Cons x xs)
  then have "e \<in> set (replayed xs (upsert (we_key x) (entry_value x) es))" by (simp add: replayed_def)
  then show ?case
    using Cons.IH Cons.prems(2) by (cases "e \<in> set (upsert (we_key x) (entry_value x) es)") (auto simp: upsert_def)
qed (simp add: replayed_def)

lemma recovered_fits:
  assumes "length buf \<le> max_recovery_bytes"
  shows "mem_fits (replayed (recover_from buf 0) [])"
proof -
  let ?xs = "recover_from buf 0"
  have sz: "(\<Sum>x \<leftarrow> ?xs. record_size (we_key x) (we_value x)) \<le> 2 ^ 30"
    using recovered_size [of buf 0] assms by (simp add: max_recovery_bytes_def)
  have "entry_ok e" if e: "e \<in> set (replayed ?xs [])" for e
  proof -
    obtain x where x: "x \<in> set ?xs" "e = (we_key x, entry_value x)" using replayed_entry [OF e] by auto
    have "record_size (we_key x) (we_value x) \<le> (\<Sum>x \<leftarrow> ?xs. record_size (we_key x) (we_value x))"
      by (rule member_le_sum_list) (use x in auto)
    then show ?thesis using sz x(2) by (simp add: entry_ok_def entry_value_def record_size_def)
  qed
  moreover have "payload (replayed ?xs []) \<le> 2 ^ 34"
    using replayed_payload [of "[]" ?xs] sz by (simp add: payload_def)
  ultimately show ?thesis by (simp add: mem_fits_def)
qed

text \<open>Between writes of a durable log: nothing is in flight, and the file is the records \<open>xs\<close>, with holes for what an earlier
  engine lost.\<close>

definition log_holds :: "bytes \<Rightarrow> wal_entry list \<Rightarrow> bool" where
  "log_holds l xs \<longleftrightarrow> (\<exists>ss. l = concat (map slot_bytes ss) \<and> (\<forall>s \<in> set ss. entry_fits (fst s)) \<and> xs = map fst (filter snd ss))"

definition log_idle :: "engine \<Rightarrow> wal_entry list \<Rightarrow> bool" where
  "log_idle e xs \<longleftrightarrow> (let w = en_wal e in
     log_holds (wl_file w) xs \<and> log_inv (wl_file w) [] w \<and> wl_failure w = None \<and> wl_ring_ready w \<and> wl_fd w
     \<and> wl_durable_end w \<le> wl_write_offset w \<and> en_fs e (wal_path (en_dir e)) = Some (wl_file w))"

text \<open>An opening takes the lock and gives an engine with the tables of the directory and the entries of the log in its
  memtable, unless memory runs out.\<close>

lemma reopen:
  assumes disk: "on_disk fp d f st" and env: "start_lawful env d f" and lock: "d \<notin> locks" and c: "cache_coherent (store_blocks d st) c"
  shows "\<exists>r f'. open_engine env d mx dur rng c locks f = Some (r, insert d locks, f')
     \<and> ((\<exists>x. r = Inl (MemError x)) \<or> (\<exists>e. r = Inr e \<and> en_dir e = d \<and> engine_inv fp e st (replayed (logged d f) [])
           \<and> (\<forall>xs. log_holds (log_of d f) xs \<longrightarrow> log_idle e xs)))"
proof -
  let ?f = "f(lock_path d \<mapsto> [], wal_path d \<mapsto> log_of d f)"
  have e: "st_create_dir env" "st_lock_open env" "st_flock env" "oe_open (st_wal env)" "oe_stat (st_wal env)" "oe_ring (st_wal env)"
      "new_ok (st_new env)" "st_size env = Some (length (log_of d f))" "delivers (st_reads env) (log_of d f)"
      "length (log_of d f) \<le> max_recovery_bytes" "lists_dir d ?f (st_names env)" "st_opens env = (\<lambda>_. (True, True))"
    using env by (simp_all add: start_lawful_def)
  have acq: "acquireDirectoryLock (st_lock_open env) (st_flock env) d locks = Inr (insert d locks)"
    using e lock by (simp add: acquireDirectoryLock_def)
  have ne: "lock_path d \<noteq> wal_path d" by (simp add: lock_path_def wal_path_def)
  then have log: "(case (f(lock_path d \<mapsto> [])) (wal_path d) of None \<Rightarrow> [] | Some f \<Rightarrow> f) = log_of d f" by (simp add: log_of_def)
  obtain w where w: "mk_wal (st_wal env) dur (log_of d f) = Inr w" using e by (simp add: mk_wal_def)
  have rec: "recover (Some (log_of d f)) (st_size env) (st_reads env) = Inr (logged d f)"
    using recover_delivers [OF e(9,10)] e(8) by simp
  have disk': "on_disk fp d ?f st" by (rule on_disk_quiet [OF disk]) auto
  note load = load_store [OF disk' e(11)]
  show ?thesis
  proof (cases "mk_memtable (st_new env) mx")
    case (Inl x)
    then show ?thesis using e(1) acq log w unfolding open_engine_def by (simp add: ensureDir_def Let_def)
  next
    case (Inr m)
    obtain r rng' m' where rp: "replay (st_new env) (logged d f) rng m = Some (r, rng', m')"
        "r = None \<longrightarrow> mt_ok m' (replayed (logged d f) [])"
      using replay_ok [OF e(7) mk_memtable_ok [OF e(7) Inr]] by blast
    show ?thesis
    proof (cases r)
      case (Some x)
      then show ?thesis using e(1) acq log w Inr rec rp unfolding open_engine_def by (simp add: ensureDir_def Let_def)
    next
      case None
      let ?e = "\<lparr>en_dir = d, en_memtable_max_bytes = mx, en_wal = w, en_memtable = m', en_sstables = store_tables fp d st,
          en_sst_counter = next_counter st, en_rng = rng', en_fs = ?f, en_cache = c\<rparr>"
      have o: "open_engine env d mx dur rng c locks f = Some (Inr ?e, insert d locks, ?f)"
        using e(1,12) acq log w Inr rec rp None load unfolding open_engine_def by (simp add: ensureDir_def Let_def)
      have "engine_inv fp ?e st (replayed (logged d f) [])"
        using disk' on_disk_holds [OF disk'] rp(2) None c recovered_fits [OF e(10)] next_counter_bound [of _ st]
        by (simp add: engine_inv_def read_inv_def)
      moreover have "log_idle ?e xs" if "log_holds (log_of d f) xs" for xs
        using that mk_wal_inv [OF w] w by (auto simp: log_idle_def mk_wal_def split: if_split_asm)
      ultimately show ?thesis using o by auto
    qed
  qed
qed

section \<open>The log is not a table\<close>

lemma last_table_paths: "last (sstPath d l c) = CHR ''t''" "last (p @ ''.tmp'') = CHR ''p''"
  by (simp_all add: sstPath_def sst_name_def)

lemma last_wal_path: "last (wal_path d) = CHR ''g''"
  by (simp add: wal_path_def)

lemma wal_path_extension: "extension (wal_path d) = ''.log''"
proof -
  have "filename (wal_path d) = ''wal'' @ CHR ''.'' # ''log''"
    unfolding wal_path_def using filename_join [of "''wal.log''" d] by simp
  then show ?thesis by (rule extension_split(1)) simp_all
qed

lemma wal_not_table [simp]: "wal_path d \<noteq> sstPath d' l c" "wal_path d \<noteq> p @ ''.tmp''" "wal_path d \<noteq> tmp_path p"
  using last_table_paths(1) [of d' l c] last_table_paths(2) [of p] last_wal_path [of d] unfolding tmp_path_def by fastforce+

lemma wal_not_stage: "wal_path d \<notin> stage_paths d' c"
  by (auto simp: stage_paths_def simp del: append_assoc)

lemma publish_paths: "x \<in> set (fst (publish io k staged)) \<Longrightarrow> op_paths x \<subseteq> fst ` set staged \<union> snd ` set staged"
proof (induction io k staged rule: publish.induct)
  case (2 io k tmp fin staged)
  consider "x = Rename tmp fin" | "x \<in> set (fst (publish io (k + 1) staged))" "rename_ok io k" "\<not> injected io ''compact.mid_publish'' k"
    using 2(2) by (auto simp: case_prod_unfold split: if_split_asm)
  then show ?case
  proof cases
    case 1
    then show ?thesis by simp
  next
    case 2
    then show ?thesis using "2.IH" by auto
  qed
qed simp

lemma undo_paths: "x \<in> set (undo io k staged) \<Longrightarrow> op_paths x \<subseteq> fst ` set staged \<union> snd ` set staged"
  using set_take_subset [of k staged] set_drop_subset [of k staged] by (force simp: undo_def)

lemma fsyncDir_paths: "x \<in> set (fsyncDir io d) \<Longrightarrow> op_paths x = {}"
  by (auto simp: fsyncDir_def split: if_split_asm)

lemma publish_phase_paths:
  assumes "publish_phase io d f staged = (ops, r, closed)" "x \<in> set ops"
  shows "op_paths x \<subseteq> fst ` set staged \<union> snd ` set staged"
proof -
  obtain ps n err where p: "publish io 0 staged = (ps, n, err)" by (cases "publish io 0 staged")
  have "set ops \<subseteq> set ps \<union> set (fsyncDir io d) \<union> set (undo io n staged)"
    using assms(1) p by (auto simp: publish_phase_def Let_def split: option.splits prod.splits if_split_asm)
  then show ?thesis using assms(2) publish_paths [of x io 0 staged] p undo_paths [of x io n staged] fsyncDir_paths [of x io d] by auto
qed

lemma compact_spares_log:
  assumes disk: "on_disk fp d f st" and start: "l1_start io (store_tables fp d st) = Some n" and n: "n + length (outputs st) \<le> int_max"
    and run: "compact_run fp io d f (store_tables fp d st) cnt c = Some (ops, r, c')"
  shows "\<forall>x \<in> set ops. wal_path d' \<notin> op_paths x"
proof (cases "length (l0_paths (store_tables fp d st)) < l0_threshold")
  case True
  then show ?thesis using run by (simp add: compact_run_def)
next
  case False
  let ?ts = "store_tables fp d st" and ?f = "run_ops (sweep io) f"
  have sw: "\<forall>x \<in> set (sweep io). wal_path d' \<notin> op_paths x" by (auto simp: sweep_def wal_path_extension)
  have disk0: "on_disk fp d ?f st" using disk by (rule on_disk_quiet_ops) (use sweep_quiet in blast)
  obtain ops1 staged err where m: "merge_phase fp io d ?f ?ts n = Some (ops1, staged, err)" "\<forall>x \<in> set ops1. op_paths x \<subseteq> stage_paths d n"
      "err = None \<longrightarrow> staged = out_names d n (length (outputs st))"
    using merge_phase_spec [OF disk0 n, of io] by metis
  have st1: "\<forall>x \<in> set ops1. wal_path d' \<notin> op_paths x" using m(2) wal_not_stage by blast
  show ?thesis
  proof (cases err)
    case (Some e)
    then show ?thesis using run False start m(1) sw st1 by (auto simp: compact_run_def Let_def)
  next
    case None
    obtain ops2 r2 closed where p: "publish_phase io d (run_ops (sweep io @ ops1) f) staged = (ops2, r2, closed)"
      by (cases "publish_phase io d (run_ops (sweep io @ ops1) f) staged")
    have st2: "\<forall>x \<in> set ops2. wal_path d' \<notin> op_paths x"
      using publish_phase_paths [OF p] m(3) None by (fastforce simp: out_names_def)
    have st3: "\<forall>x \<in> set (remove_inputs io d ?ts). wal_path d' \<notin> op_paths x"
      using fsyncDir_paths [of _ io d] by (auto simp: remove_inputs_def store_tables_def)
    have "set ops \<subseteq> set (sweep io) \<union> set ops1 \<union> set ops2 \<union> set (remove_inputs io d ?ts)"
      using run False start m(1) None p by (auto simp: compact_run_def Let_def split: sum.splits)
    then show ?thesis using sw st1 st2 st3 by blast
  qed
qed

section \<open>The directory during a flush\<close>

lemma run_disk_append: "run_disk d (xs @ ys) f = run_disk d ys (run_disk d xs f)"
  by (simp add: run_disk_def)

lemma disk_crashes_append:
  "g \<in> disk_crashes d (xs @ ys) f \<longleftrightarrow> g \<in> disk_crashes d xs f \<or> g \<in> disk_crashes d ys (run_disk d xs f)"
  unfolding disk_crashes_def prefix_append by (auto simp: run_disk_append intro: exI [of _ "xs @ _"])

lemma run_files: "run_disk d (map FileOp ops) f = run_ops ops f"
  by (induction ops arbitrary: f) (simp_all add: run_disk_def)

lemma prefix_map: "prefix ys (map h xs) \<Longrightarrow> \<exists>zs. prefix zs xs \<and> ys = map h zs"
  by (metis prefix_take take_is_prefix take_map)

lemma disk_crashes_files: "g \<in> disk_crashes d (map FileOp ops) f \<longleftrightarrow> g \<in> crash_states ops f"
proof
  assume "g \<in> disk_crashes d (map FileOp ops) f"
  then obtain pre where "prefix pre ops" "g = run_disk d (map FileOp pre) f" using prefix_map by (fastforce simp: disk_crashes_def)
  then show "g \<in> crash_states ops f" by (auto simp: crash_states_def run_files)
next
  assume "g \<in> crash_states ops f"
  then obtain pre where "prefix pre ops" "g = run_disk d (map FileOp pre) f" by (auto simp: crash_states_def run_files)
  then show "g \<in> disk_crashes d (map FileOp ops) f" using map_mono_prefix by (auto simp: disk_crashes_def)
qed

lemma disk_crashes_all: "run_disk d tr f \<in> disk_crashes d tr f"
  by (auto simp: disk_crashes_def)

lemma disk_crashes_Nil: "g \<in> disk_crashes d [] f \<longleftrightarrow> g = f"
  by (auto simp: disk_crashes_def run_disk_def)

lemma crash_other: "g \<in> crash_states ops f \<Longrightarrow> \<forall>x \<in> set ops. p \<notin> op_paths x \<Longrightarrow> g p = f p"
  by (auto simp: crash_states_def dest!: set_mono_prefix intro!: run_ops_other)

lemma log_of_eq: "g (wal_path d) = f (wal_path d) \<Longrightarrow> log_of d g = log_of d f"
  by (simp add: log_of_def)

text \<open>What is drained is the log at the time of \<open>clear\<close>, with what was in flight.\<close>

abbreviation clearing :: "wal \<Rightarrow> wal" where
  "clearing w \<equiv> w\<lparr>wl_durable_end := 0, wl_epoch := wl_epoch w + 1\<rparr>"

lemma log_inv_clearing: "log_inv pre bufs (clearing w) = log_inv pre bufs w"
  by (simp add: log_inv_def ring_inv_def all_there_def tag_ok_def)

lemma clear_crash:
  assumes "g \<in> disk_crashes d (clear_trace d env w) f"
  shows "log_of d g = log_of d f \<or> log_of d g = [] \<or> (\<exists>w'. drain (ce_drain env) (clearing w) = Some w' \<and> log_of d g = wl_file w')"
    and "on_disk fp d f st \<Longrightarrow> on_disk fp d g st"
proof -
  obtain tr where tr: "prefix tr (clear_trace d env w)" "g = run_disk d tr f" using assms by (auto simp: disk_crashes_def)
  show "log_of d g = log_of d f \<or> log_of d g = [] \<or> (\<exists>w'. drain (ce_drain env) (clearing w) = Some w' \<and> log_of d g = wl_file w')"
    using tr by (auto simp: clear_trace_def run_disk_def log_of_def prefix_Cons split: option.splits if_split_asm)
  have "list_all (log_only d) tr" using log_ops_only(2) [of d env w] set_mono_prefix [OF tr(1)] by (auto simp: list_all_iff)
  then show "on_disk fp d f st \<Longrightarrow> on_disk fp d g st" unfolding tr(2) by (rule on_disk_log [rotated])
qed

lemma cleared_log:
  assumes "wal_clear env w = Some (None, w')"
  shows "run_disk d (clear_trace d env w) f (wal_path d) = Some []"
  using assms by (auto simp: wal_clear_def clear_trace_def run_disk_def Let_def split: if_split_asm option.splits)

lemma cleared_wal: "wal_clear env w = Some (None, w') \<Longrightarrow> wl_file w' = [] \<and> wl_ring_ready w' \<and> wl_fd w' \<and> wl_failure w' = None"
  by (auto simp: wal_clear_def Let_def split: if_split_asm option.splits)

text \<open>\<open>P\<close> stands for what the log can hold while it is drained.\<close>

definition flush_state :: "(nat \<Rightarrow> nat) \<Rightarrow> path \<Rightarrow> (bytes \<Rightarrow> bool) \<Rightarrow> store \<Rightarrow> store \<Rightarrow> fs \<Rightarrow> bool" where
  "flush_state fp d P st st' f \<longleftrightarrow>
     (P (log_of d f) \<and> (on_disk fp d f st \<or> on_disk fp d f st'))
     \<or> (log_of d f = [] \<and> (\<exists>st''. on_disk fp d f st'' \<and> view st'' [] = view st' []))"

lemma write_state:
  assumes inv: "engine_inv fp e st es" and fp: "fp_sane fp" and c: "en_sst_counter e < int_max"
    and w: "sst_write fp io (sstPath (en_dir e) 0 (en_sst_counter e)) es = (ops, err)" and g: "g \<in> crash_states ops (en_fs e)"
    and P: "P (log_of (en_dir e) (en_fs e))"
  shows "flush_state fp (en_dir e) P st (with_table st (en_sst_counter e) es) g" and "P (log_of (en_dir e) g)"
proof -
  have i: "on_disk fp (en_dir e) (en_fs e) st" "mt_ok (en_memtable e) es" "mem_fits es" "\<forall>x \<in> set st. fst (fst x) = 0 \<longrightarrow> snd (fst x) < en_sst_counter e"
    using inv by (simp_all add: engine_inv_def read_inv_def)
  have tok: "table_ok fp es" by (rule mem_fits_table_ok [OF i(3) mt_ok_sorted [OF i(2)] fp])
  note ws = write_table_states [OF i(1,4) c tok w]
  have "g (wal_path (en_dir e)) = en_fs e (wal_path (en_dir e))" by (rule ws(3) [OF g]) simp_all
  then have "log_of (en_dir e) g = log_of (en_dir e) (en_fs e)" by (rule log_of_eq)
  then show "P (log_of (en_dir e) g)" using P by simp
  then show "flush_state fp (en_dir e) P st (with_table st (en_sst_counter e) es) g" using ws(1) [OF g] by (simp add: flush_state_def)
qed

lemma clear_state:
  assumes inv: "engine_inv fp e st es" and fp: "fp_sane fp" and c: "en_sst_counter e < int_max"
    and w: "sst_write fp io (sstPath (en_dir e) 0 (en_sst_counter e)) es = (ops, None)"
    and g: "g \<in> disk_crashes (en_dir e) (map FileOp ops @ clear_trace (en_dir e) cenv (en_wal e)) (en_fs e)"
    and P: "P (log_of (en_dir e) (en_fs e))" "\<And>w'. drain (ce_drain cenv) (clearing (en_wal e)) = Some w' \<Longrightarrow> P (wl_file w')"
  shows "flush_state fp (en_dir e) P st (with_table st (en_sst_counter e) es) g"
proof -
  let ?d = "en_dir e" and ?st = "with_table st (en_sst_counter e) es" and ?f = "run_ops ops (en_fs e)"
  consider "g \<in> crash_states ops (en_fs e)" | "g \<in> disk_crashes ?d (clear_trace ?d cenv (en_wal e)) ?f"
    using g by (auto simp: disk_crashes_append disk_crashes_files run_files)
  then show ?thesis
  proof cases
    case 1
    show ?thesis by (rule write_state(1) [where P = P, OF inv fp c w 1 P(1)])
  next
    case 2
    have "?f \<in> crash_states ops (en_fs e)" by (auto simp: crash_states_def)
    from write_state(2) [where P = P, OF inv fp c w this P(1)] have "P (log_of ?d ?f)" .
    moreover have "on_disk fp ?d ?f ?st" using tabled_inv [OF inv fp c w] by (simp add: engine_inv_def tabled_def)
    ultimately show ?thesis using clear_crash [OF 2] P(2) unfolding flush_state_def by metis
  qed
qed

lemma compact_log:
  assumes inv: "engine_inv fp e st es" and fp: "fp_sane fp" and io: "compact_lawful fp io e st" and run: "engine_compact fp io e = Some (tr, r, e')"
    and g: "g \<in> disk_crashes (en_dir e) tr (en_fs e)"
  shows "g (wal_path (en_dir e)) = en_fs e (wal_path (en_dir e)) \<and> (\<exists>st'. on_disk fp (en_dir e) g st' \<and> view st' [] = view st [])"
proof -
  obtain ops r' e1 where ops: "engine_compact fp io e = Some (map FileOp ops, r', e1)"
      "\<forall>f \<in> crash_states ops (en_fs e). \<exists>st'. on_disk fp (en_dir e) f st' \<and> same_view st st'"
    using engine_compact_ok [OF inv fp io] by blast
  then have g': "g \<in> crash_states ops (en_fs e)" using run g by (simp add: disk_crashes_files)
  have i: "on_disk fp (en_dir e) (en_fs e) st" "en_sstables e = store_tables fp (en_dir e) st" using inv by (simp_all add: engine_inv_def read_inv_def)
  obtain n where n: "l1_start io (store_tables fp (en_dir e) st) = Some n" "n + length (outputs st) \<le> int_max"
    using io i(2) by (auto simp: compact_lawful_def)
  obtain x c where x: "compact_run fp io (en_dir e) (en_fs e) (store_tables fp (en_dir e) st) (en_sst_counter e) (en_cache e) = Some (ops, x, c)"
    using ops(1) i(2) by (auto simp: engine_compact_def Let_def inj_map_eq_map inj_def split: option.splits sum.splits)
  have "g (wal_path (en_dir e)) = en_fs e (wal_path (en_dir e))" by (rule crash_other [OF g' compact_spares_log [OF i(1) n x]])
  then show ?thesis using ops(2) g' same_view_view by blast
qed

text \<open>Every state of the directory during a flush. \<open>e1\<close> is the engine after the log is cleared.\<close>

lemma flush_crash:
  assumes inv: "engine_inv fp e st es" and fp: "fp_sane fp" and env: "flush_lawful fp env e st es" and fl: "flushMemtable fp env e = Some (tr, r, e')"
    and g: "g \<in> disk_crashes (en_dir e) tr (en_fs e)"
    and P: "P (log_of (en_dir e) (en_fs e))" "\<And>w'. drain (ce_drain (fe_clear env)) (clearing (en_wal e)) = Some w' \<Longrightarrow> P (wl_file w')"
  shows "flush_state fp (en_dir e) P st (with_table st (en_sst_counter e) es) g"
proof (cases "mt_empty (en_memtable e)")
  case True
  then show ?thesis using fl g P(1) inv by (simp add: flushMemtable_def disk_crashes_Nil flush_state_def engine_inv_def)
next
  case False
  let ?d = "en_dir e" and ?st = "with_table st (en_sst_counter e) es"
  obtain tr1 r1 e1 where f1: "flush_to_table fp env e = Some (tr1, r1, e1)"
    using fl False by (auto simp: flushMemtable_def split: option.splits)
  have new: "new_ok (fe_new env)" using env by (simp add: flush_lawful_def)
  have first: "flush_state fp ?d P st ?st h" if h: "h \<in> disk_crashes ?d tr1 (en_fs e)" for h
    using inv fp f1
  proof (cases rule: flush_to_table_cases)
    case before
    then show ?thesis using h P(1) inv by (simp add: disk_crashes_Nil flush_state_def engine_inv_def)
  next
    case (failed ops x y)
    then show ?thesis using h write_state(1) [where P = P, OF inv fp failed(2,1) _ P(1)] by (simp add: disk_crashes_files)
  next
    case (stopped ops x)
    then show ?thesis using h write_state(1) [where P = P, OF inv fp stopped(2,1) _ P(1)] by (simp add: disk_crashes_files)
  next
    case (uncleared ops x w)
    show ?thesis by (rule clear_state [where P = P, OF inv fp uncleared(2,1) h [unfolded uncleared] P])
  next
    case (cleared ops w m)
    show ?thesis by (rule clear_state [where P = P, OF inv fp cleared(2,1) h [unfolded cleared(6)] P])
  qed
  show ?thesis
  proof (cases r1)
    case (Some x)
    then have "tr = tr1" using fl False f1 by (simp add: flushMemtable_def)
    then show ?thesis using first g by simp
  next
    case None
    then obtain tr2 where c: "engine_compact fp (fe_compact env) e1 = Some (tr2, r, e')" "tr = tr1 @ tr2"
      using fl False f1 by (auto simp: flushMemtable_def split: option.splits)
    have law: "compact_lawful fp (fe_compact env) e1 ?st" using env f1 None by (auto simp: flush_lawful_def)
    have inv1: "engine_inv fp e1 ?st []" "en_dir e1 = ?d" using flush_to_table_ok [OF inv fp new f1] None by auto
    have e1: "en_fs e1 = run_disk ?d tr1 (en_fs e) \<and> log_of ?d (en_fs e1) = []"
      using inv fp f1
    proof (cases rule: flush_to_table_cases)
      case (cleared ops w m)
      then show ?thesis using cleared_log [OF cleared(3), of ?d] by (simp add: emptied_def tabled_def run_disk_append run_files log_of_def)
    qed (use None in auto)
    consider "g \<in> disk_crashes ?d tr1 (en_fs e)" | "g \<in> disk_crashes ?d tr2 (en_fs e1)"
      using g e1 unfolding c(2) disk_crashes_append by auto
    then show ?thesis
    proof cases
      case 1
      then show ?thesis by (rule first)
    next
      case 2
      have k: "g (wal_path ?d) = en_fs e1 (wal_path ?d)" "\<exists>st'. on_disk fp ?d g st' \<and> view st' [] = view ?st []"
        using compact_log [OF inv1(1) fp law c(1)] 2 inv1(2) by simp_all
      have "log_of ?d g = log_of ?d (en_fs e1)" using k(1) by (rule log_of_eq)
      then show ?thesis using conjunct2 [OF e1] k(2) unfolding flush_state_def by simp
    qed
  qed
qed

section \<open>The log between and during writes\<close>

lemma log_holds_recovers: "log_holds l xs \<Longrightarrow> recover_from (l @ rest) 0 = xs @ recover_from rest 0"
  by (auto simp: log_holds_def recover_from_slots)

lemma log_holds_append: "log_holds l xs \<Longrightarrow> entry_fits x \<Longrightarrow> log_holds (l @ encode_entry x) (xs @ [x])"
proof -
  assume "log_holds l xs" "entry_fits x"
  then obtain ss where "l = concat (map slot_bytes ss)" "\<forall>s \<in> set ss. entry_fits (fst s)" "xs = map fst (filter snd ss)"
    by (auto simp: log_holds_def)
  then show "log_holds (l @ encode_entry x) (xs @ [x])"
    using \<open>entry_fits x\<close> unfolding log_holds_def by (intro exI [of _ "ss @ [(x, True)]"]) (auto simp: slot_bytes_def)
qed

lemma log_holds_Nil: "log_holds [] []"
  unfolding log_holds_def by (intro exI [of _ "[]"]) simp

text \<open>What the file of the log can be while the record of \<open>x\<close> is being written: cut anywhere, it recovers with or without
  \<open>x\<close>, when the record fits a block.\<close>

definition with_or_without :: "wal_entry list \<Rightarrow> wal_entry \<Rightarrow> bytes \<Rightarrow> bool" where
  "with_or_without xs x l \<longleftrightarrow> recover_from l 0 = xs \<or> recover_from l 0 = xs @ [x]"

lemma torn_record:
  assumes "log_holds l xs" "entry_fits x" "record_size (we_key x) (we_value x) \<le> 512"
  shows "with_or_without xs x (l @ take n (encode_entry x))"
proof -
  have "align512 (record_size (we_key x) (we_value x)) = 512" using assms(3) by (simp add: align512_def record_size_def div_nat_eqI)
  then have "length (encode_entry x) = 512" by (simp add: encode_entry_def length_encode_record)
  then have "take n (encode_entry x) = take (min n 512) (encode_entry x)" by (simp add: min_def)
  then show ?thesis
    using recover_from_torn [OF assms(2,3), of "min n 512"] log_holds_recovers [OF assms(1)] by (simp add: with_or_without_def)
qed

lemma idle_rebase:
  assumes "log_inv pre bufs w" "wl_failure w = None" "wl_flight w = []"
  shows "log_inv (wl_file w) [] w" "wl_file w = pre @ concat bufs" "wl_write_offset w = length (wl_file w)"
proof -
  have i: "ring_inv pre bufs w" "all_there pre bufs w" using assms by (simp_all add: log_inv_def)
  then show f: "wl_file w = pre @ concat bufs" using assms(3) by (intro all_complete) (auto simp: all_there_def)
  show "wl_write_offset w = length (wl_file w)" using i(1) by (simp add: ring_inv_def f)
  then show "log_inv (wl_file w) [] w" using i assms(2,3) by (auto simp: log_inv_def ring_inv_def all_there_def holds_at_def tags_def)
qed

text \<open>An append on an idle log.\<close>

lemma append_state:
  assumes idle: "log_idle e xs" and env: "append_lawful env"
    and ap: "wal_writeEntry env ty key val (en_wal e) = Some (a, w)"
  obtains (refused) x where "a = Inl x" "w = en_wal e"
  | (taken) "log_inv (wl_file (en_wal e)) [encode_entry (mk_entry ty key val)] w"
      "\<exists>n. wl_file w = wl_file (en_wal e) @ take n (encode_entry (mk_entry ty key val))"
      "entry_fits (mk_entry ty key val)" "\<And>t. a = Inr t \<Longrightarrow> tk_epoch t = wl_epoch w \<and> tk_end t = wl_write_offset w"
      "wl_durable_end w = wl_durable_end (en_wal e)" "wl_durable_end w < wl_write_offset w" "wl_ring_ready w" "wal_config w = wal_config (en_wal e)"
proof -
  let ?w = "en_wal e" and ?x = "mk_entry ty key val"
  have i: "log_holds (wl_file ?w) xs" "log_inv (wl_file ?w) [] ?w" "wl_failure ?w = None" "wl_ring_ready ?w" "wl_durable_end ?w \<le> wl_write_offset ?w"
    using idle by (simp_all add: log_idle_def Let_def)
  consider (no) x where "a = Inl x" "w = ?w"
    | (yes) "entry_fits ?x" "reap (ae_reap env) (enqueue (encode_entry ?x) ?w) = Some w" "\<And>t. a = Inr t \<Longrightarrow> t = \<lparr>tk_epoch = wl_epoch w, tk_end = wl_write_offset w\<rparr>"
    using writeEntry_cases [OF i(2) env ap] by blast
  then show thesis
  proof cases
    case no
    then show thesis by (rule refused)
  next
    case yes
    note rq = reap_enqueue_inv [OF i(2) env i(3) yes(2)]
    have en: "log_inv (wl_file ?w) [encode_entry ?x] (enqueue (encode_entry ?x) ?w)"
      using enqueue_inv [OF i(2,3) encode_nonempty] by simp
    have fl: "\<exists>n. wl_file w = wl_file ?w @ take n (encode_entry ?x)"
      by (rule reap_file [OF en _ yes(2) landing_one])
        (use env in \<open>auto simp: append_lawful_def enqueue_def Let_def intro: exI [of _ 0]\<close>)
    have "wl_write_offset w = wl_write_offset ?w + length (encode_entry ?x)"
      using reap_frame [OF yes(2)] by (simp add: wal_frame_def enqueue_def Let_def)
    moreover have "0 < length (encode_entry ?x)" using encode_nonempty by simp
    ultimately have "wl_durable_end w < wl_write_offset w" using rq(3) i(5) by linarith
    then show thesis using rq fl yes i(4) reap_config [OF yes(2)] by (intro taken) simp_all
  qed
qed

text \<open>After a flush that returns, the log is empty and idle.\<close>

lemma flush_done:
  assumes inv: "engine_inv fp e st es" and fp: "fp_sane fp" and env: "flush_lawful fp env e st es"
    and fl: "flushMemtable fp env e = Some (tr, None, e')" and ne: "es \<noteq> []"
  shows "\<exists>st'. engine_inv fp e' st' [] \<and> view st' [] = view st es \<and> log_idle e' [] \<and> en_dir e' = en_dir e
    \<and> wl_file (en_wal e') = [] \<and> wl_epoch (en_wal e') = wl_epoch (en_wal e) + 1 \<and> en_fs e' = run_disk (en_dir e) tr (en_fs e)"
proof -
  let ?d = "en_dir e" and ?st = "with_table st (en_sst_counter e) es"
  have "\<not> mt_empty (en_memtable e)" using mt_empty_iff [of "en_memtable e" es] inv ne by (simp add: engine_inv_def read_inv_def)
  then obtain tr1 tr2 e1 where f1: "flush_to_table fp env e = Some (tr1, None, e1)" "engine_compact fp (fe_compact env) e1 = Some (tr2, None, e')"
      "tr = tr1 @ tr2"
    using fl by (auto simp: flushMemtable_def split: option.splits prod.splits)
  have new: "new_ok (fe_new env)" using env by (simp add: flush_lawful_def)
  have inv1: "engine_inv fp e1 ?st []" "en_dir e1 = ?d" using flush_to_table_ok [OF inv fp new f1(1)] by auto
  have law: "compact_lawful fp (fe_compact env) e1 ?st" using env f1(1) by (auto simp: flush_lawful_def)
  obtain ops st' where c: "tr2 = map FileOp ops" "engine_inv fp e' st' []" "view st' [] = view ?st []" "en_dir e' = ?d" "en_wal e' = en_wal e1"
      "en_fs e' = run_ops ops (en_fs e1)"
    using engine_compact_ok [OF inv1(1) fp law] f1(2) inv1(2) by auto
  have e1: "en_fs e1 = run_disk ?d tr1 (en_fs e) \<and> (\<exists>env. wal_clear env (en_wal e) = Some (None, en_wal e1)) \<and> en_fs e1 (wal_path ?d) = Some []"
    using inv fp f1(1)
  proof (cases rule: flush_to_table_cases)
    case (cleared ops w m)
    then show ?thesis using cleared_log [OF cleared(3), of ?d] cleared(3)
      by (auto simp: emptied_def tabled_def run_disk_append run_files)
  qed simp_all
  then obtain cenv where cl: "wal_clear cenv (en_wal e) = Some (None, en_wal e1)" by blast
  have "en_fs e' (wal_path ?d) = Some []"
  proof -
    have "en_fs e' \<in> disk_crashes ?d tr2 (en_fs e1)" unfolding c(1,6) disk_crashes_files by (auto simp: crash_states_def)
    then have "en_fs e' (wal_path ?d) = en_fs e1 (wal_path ?d)" using compact_log [OF inv1(1) fp law f1(2)] inv1(2) by simp
    then show ?thesis using conjunct2 [OF conjunct2 [OF e1]] by simp
  qed
  then have "log_idle e' []"
    using wal_clear_frame [OF cl] cleared_wal [OF cl] log_holds_Nil c(4,5) by (simp add: log_idle_def Let_def)
  then show ?thesis
    using c e1 f1(3) wal_clear_frame(1) [OF cl] cleared_wal [OF cl] by (intro exI [of _ st']) (simp add: run_disk_append run_files)
qed

section \<open>The directory during a write\<close>

lemma log_step:
  assumes "g \<in> disk_crashes d (log_ops w) f" "P (log_of d f)" "P (wl_file w)" "on_disk fp d f st"
  shows "P (log_of d g) \<and> on_disk fp d g st"
proof -
  obtain tr where tr: "prefix tr (log_ops w)" "g = run_disk d tr f" using assms(1) by (auto simp: disk_crashes_def)
  have "list_all (log_only d) tr" using log_ops_only(1) [of d w] set_mono_prefix [OF tr(1)] by (auto simp: list_all_iff)
  moreover have "log_of d g = log_of d f \<or> log_of d g = wl_file w"
    using tr by (auto simp: log_ops_def run_disk_def log_of_def prefix_Cons split: if_split_asm)
  ultimately show ?thesis using assms(2-4) on_disk_log unfolding tr(2) by auto
qed

text \<open>What a write needs beside \<open>write_lawful\<close>: the kernel's promises, and a record that fits a block, so that tearing it cannot go
  unnoticed.\<close>

definition kernel_lawful :: "write_env \<Rightarrow> bytes \<Rightarrow> bytes \<Rightarrow> bool" where
  "kernel_lawful env key val \<longleftrightarrow> append_lawful (we_append env) \<and> waits_lawful (we_wait env)
     \<and> drain_lawful (ce_drain (fe_clear (we_flush env))) \<and> record_size key val \<le> 512"

lemma entry_fits_ok: "entry_fits (mk_entry ty key val) \<Longrightarrow> entry_ok (key, entry_value (mk_entry ty key val))"
  by (simp add: entry_fits_def entry_ok_def entry_value_def mk_entry_def)

lemma write_crash:
  assumes inv: "engine_inv fp e st es" and idle: "log_idle e xs" and fp: "fp_sane fp"
    and mem: "\<And>rng m. mt_ok m es \<Longrightarrow> step_post m key (entry_value (mk_entry ty key val)) es (mem_op rng m)"
    and ap: "wal_writeEntry (we_append env) ty key val (en_wal e) = Some (a, w)"
    and env: "write_lawful fp env (Some (a, w)) mem_op key (entry_value (mk_entry ty key val)) e st es" and kl: "kernel_lawful env key val"
    and run: "apply_write fp env (Some (a, w)) mem_op e = Some (tr, r, e')" and g: "g \<in> disk_crashes (en_dir e) tr (en_fs e)"
  shows "\<exists>c. flush_state fp (en_dir e) (with_or_without xs (mk_entry ty key val)) st
           (with_table st c (upsert key (entry_value (mk_entry ty key val)) es)) g"
proof -
  let ?d = "en_dir e" and ?x = "mk_entry ty key val" and ?L = "wl_file (en_wal e)"
  let ?P = "with_or_without xs ?x" and ?es = "upsert key (entry_value ?x) es"
  let ?Q = "\<lambda>f. \<exists>n. f = ?L @ take n (encode_entry ?x)"
  have i: "log_holds ?L xs" "en_fs e (wal_path ?d) = Some ?L" using idle by (simp_all add: log_idle_def Let_def)
  have P0: "?P ?L" using log_holds_recovers [OF i(1), of "[]"] by (simp add: with_or_without_def recover_from_past)
  then have P1: "?P (log_of ?d (en_fs e))" using i(2) by (simp add: log_of_def)
  have disk: "on_disk fp ?d (en_fs e) st" using inv by (simp add: engine_inv_def)
  have lawful: "append_lawful (we_append env)" "waits_lawful (we_wait env)" "drain_lawful (ce_drain (fe_clear (we_flush env)))" "record_size key val \<le> 512"
    using kl by (simp_all add: kernel_lawful_def)
  have stp: "\<exists>c. flush_state fp ?d ?P st (with_table st c ?es) h" if "?P (log_of ?d h) \<and> on_disk fp ?d h st" for h
    using that by (auto simp: flush_state_def)
  from idle lawful(1) ap show ?thesis
  proof (cases rule: append_state)
    case (refused x)
    then have "tr = log_ops w" using run by (simp add: apply_write_def)
    then show ?thesis using stp log_step [where P = ?P, OF _ P1 _ disk] g P0 refused(2) by blast
  next
    case taken
    have QP: "?P f" if "?Q f" for f using that torn_record [OF i(1) taken(3)] lawful(4) by (auto simp: mk_entry_def)
    have P2: "?P (wl_file w)" by (rule QP [OF taken(2)])
    have log: "\<exists>c. flush_state fp ?d ?P st (with_table st c ?es) h" if "h \<in> disk_crashes ?d (log_ops w) (en_fs e)" for h
      by (rule stp [OF log_step [where P = ?P, OF that P1 P2 disk]])
    have P3: "?P (log_of ?d (run_disk ?d (log_ops w) (en_fs e)))" "on_disk fp ?d (run_disk ?d (log_ops w) (en_fs e)) st"
      using log_step [where P = ?P, OF disk_crashes_all P1 P2 disk] by simp_all
    have inv2: "engine_inv fp ((set_wal w e)\<lparr>en_rng := rng, en_memtable := m\<rparr>) st ?es" if "mem_op (en_rng e) (en_memtable e) = Some (Inr u, rng, m)" for u rng m
      by (rule taken_inv [OF inv mem env entry_fits_ok [OF taken(3)] that])
    have dr: "?P (wl_file w')" if "drain (ce_drain (fe_clear (we_flush env))) (clearing w) = Some w'" for w'
    proof (rule QP, rule drain_file [OF _ lawful(3) that landing_one])
      show "log_inv ?L [encode_entry ?x] (clearing w)" using taken(1) by (rule log_inv_clearing [THEN iffD2])
      show "?Q (wl_file (clearing w))" using taken(2) by simp
    qed
    have fl: "flush_state fp ?d ?P st (with_table st (en_sst_counter e) ?es) h"
      if "mem_op (en_rng e) (en_memtable e) = Some (Inr u, rng, m)" "isFull m"
        "flushMemtable fp (we_flush env) ((set_wal w e)\<lparr>en_rng := rng, en_memtable := m\<rparr>) = Some (tr1, r1, e1)" "a = Inr t"
        "h \<in> disk_crashes ?d tr1 (run_disk ?d (log_ops w) (en_fs e))" for u rng m tr1 r1 e1 t h
      using flush_crash [where P = ?P, OF inv2 [OF that(1)] fp write_lawfulD [OF env _ that(1,2)] that(3)] that(4,5) P3(1) dr by simp
    from run show ?thesis
    proof (cases rule: apply_write_cases)
      case (no_log x)
      then show ?thesis using log g by simp
    next
      case (no_mem t x rng m)
      then show ?thesis using log g by simp
    next
      case (fit t u rng m tr2)
      consider "g \<in> disk_crashes ?d (log_ops w) (en_fs e)" | "g \<in> disk_crashes ?d tr2 (run_disk ?d (log_ops w) (en_fs e))"
        using g unfolding fit(5) disk_crashes_append by blast
      then show ?thesis
      proof cases
        case 1
        then show ?thesis by (rule log)
      next
        case 2
        show ?thesis
        proof (cases "wl_durability w = Durable")
          case True
          then obtain r' w' where w': "waitDurable (we_wait env) t w = Some (r', w')" "tr2 = log_ops w'"
            using fit(4) by (auto simp: await_durable_def split: option.splits)
          have "?P (wl_file w')" by (rule QP, rule wait_file [OF taken(1) lawful(2) w'(1) landing_one taken(2)])
          then show ?thesis using stp log_step [where P = ?P, OF _ P3(1) _ P3(2)] 2 w'(2) by blast
        next
          case False
          then have "tr2 = []" using fit(4) by (simp add: await_durable_def)
          then show ?thesis using 2 stp P3 by (simp add: disk_crashes_Nil)
        qed
      qed
    next
      case (bad_flush t u rng m tr1 x)
      show ?thesis using g log fl [OF bad_flush(2,3,4,1)] unfolding bad_flush(6) disk_crashes_append by blast
    next
      case (flushed t u rng m tr1 e1 tr2)
      let ?e2 = "(set_wal w e)\<lparr>en_rng := rng, en_memtable := m\<rparr>"
      have ne: "?es \<noteq> []" by (simp add: upsert_def)
      obtain st' where st': "engine_inv fp e1 st' []" "view st' [] = view st ?es" "log_idle e1 []" "en_dir e1 = ?d" "wl_file (en_wal e1) = []"
          "wl_epoch (en_wal e1) = wl_epoch w + 1" "en_fs e1 = run_disk ?d tr1 (run_disk ?d (log_ops w) (en_fs e))"
        using flush_done [OF inv2 [OF flushed(2)] fp write_lawfulD [OF env _ flushed(2,3)] flushed(4) ne] flushed(1) by auto
      have "tk_epoch t \<noteq> wl_epoch (en_wal e1)" using taken(4) [OF flushed(1)] st'(6) by simp
      then have tr2: "tr2 = log_ops (en_wal e1) \<or> tr2 = []"
        using flushed(5) wait_stale by (auto simp: await_durable_def split: if_split_asm)
      have nil: "log_of ?d (en_fs e1) = []" "on_disk fp ?d (en_fs e1) st'"
        using st'(1,3,4,5) by (simp_all add: log_idle_def Let_def log_of_def engine_inv_def)
      have last: "flush_state fp ?d ?P st (with_table st (en_sst_counter e) ?es) h" if "h \<in> disk_crashes ?d tr2 (en_fs e1)" for h
      proof -
        have "log_of ?d h = [] \<and> on_disk fp ?d h st'"
          using tr2 that log_step [where P = "\<lambda>l. l = []", OF _ nil(1) st'(5) nil(2)] nil by (auto simp: disk_crashes_Nil)
        then show ?thesis using st'(2) by (auto simp: flush_state_def)
      qed
      show ?thesis using g log fl [OF flushed(2,3,4,1)] last unfolding flushed(6) disk_crashes_append st'(7) by blast
    qed
  qed
qed

section \<open>Acknowledged writes\<close>

text \<open>A durable engine between writes: its memtable is what its log says.\<close>

definition durable_inv :: "(nat \<Rightarrow> nat) \<Rightarrow> engine \<Rightarrow> store \<Rightarrow> entry list \<Rightarrow> bool" where
  "durable_inv fp e st es \<longleftrightarrow> engine_inv fp e st es \<and> (\<exists>xs. log_idle e xs \<and> es = replayed xs [])"

lemma idle_set_wal:
  assumes "log_inv pre bufs w" "wl_failure w = None" "wl_flight w = []" "wl_ring_ready w" "wl_fd w" "wl_durable_end w \<le> wl_write_offset w"
    and "log_holds (pre @ concat bufs) xs"
  shows "log_idle (set_wal w e) xs"
  using idle_rebase [OF assms(1-3)] assms(2-) by (simp add: log_idle_def Let_def log_ops_def run_disk_def)

lemma write_acknowledged:
  assumes inv: "engine_inv fp e st es" and idle: "log_idle e xs" and es: "es = replayed xs []" and fp: "fp_sane fp"
    and mem: "\<And>rng m. mt_ok m es \<Longrightarrow> step_post m key (entry_value (mk_entry ty key val)) es (mem_op rng m)"
    and ap: "wal_writeEntry (we_append env) ty key val (en_wal e) = Some (a, w)"
    and env: "write_lawful fp env (Some (a, w)) mem_op key (entry_value (mk_entry ty key val)) e st es" and kl: "kernel_lawful env key val"
    and run: "apply_write fp env (Some (a, w)) mem_op e = Some (tr, None, e')" and dur: "wl_durability (en_wal e) = Durable"
  shows "\<exists>st' es'. durable_inv fp e' st' es' \<and> view st' es' = (view st es)(key := entry_value (mk_entry ty key val))"
proof -
  let ?x = "mk_entry ty key val" and ?L = "wl_file (en_wal e)"
  let ?es = "upsert key (entry_value ?x) es"
  have i: "log_holds ?L xs" "wl_fd (en_wal e)" using idle by (simp_all add: log_idle_def Let_def)
  have v: "view st ?es = (view st es)(key := entry_value ?x)"
    by (rule view_upsert) (simp add: es replayed_sorted)
  have lawful: "append_lawful (we_append env)" "waits_lawful (we_wait env)" using kl by (simp_all add: kernel_lawful_def)
  from idle lawful(1) ap show ?thesis
  proof (cases rule: append_state)
    case (refused x)
    then show ?thesis using run by (simp add: apply_write_def)
  next
    case taken
    have cfg: "wl_fd w" "wl_durability w = Durable" using taken(8) i(2) dur by (simp_all add: wal_config_def)
    have inv2: "engine_inv fp ((set_wal w e)\<lparr>en_rng := rng, en_memtable := m\<rparr>) st ?es" if "mem_op (en_rng e) (en_memtable e) = Some (Inr u, rng, m)" for u rng m
      by (rule taken_inv [OF inv mem env entry_fits_ok [OF taken(3)] that])
    from run show ?thesis
    proof (cases rule: apply_write_cases)
      case (fit t u rng m tr2)
      let ?e = "(set_wal w e)\<lparr>en_rng := rng, en_memtable := m\<rparr>"
      obtain w' where w': "waitDurable (we_wait env) t w = Some (None, w')" "e' = set_wal w' ?e"
        using fit(4) cfg by (auto simp: await_durable_def split: option.splits)
      have t: "tk_epoch t = wl_epoch w" "tk_end t = wl_write_offset w" using taken(4) [OF fit(1)] by simp_all
      have d: "log_inv ?L [encode_entry ?x] w' \<and> wl_failure w' = None \<and> wl_flight w' = [] \<and> wl_ring_ready w'
          \<and> wal_config w' = wal_config w \<and> wl_durable_end w' \<le> wl_write_offset w'"
        using wait_done [OF taken(1) lawful(2) w'(1) t(1) taken(7)] t(2) taken(6) by simp
      have "log_idle e' (xs @ [?x])"
        unfolding w'(2) using d cfg(1) log_holds_append [OF i(1) taken(3)] by (intro idle_set_wal) (auto simp: wal_config_def)
      moreover have "?es = replayed (xs @ [?x]) []" by (simp add: es replayed_def mk_entry_def)
      moreover have "engine_inv fp e' st ?es" unfolding w'(2) by (rule engine_inv_set_wal [OF inv2 [OF fit(2)]])
      ultimately show ?thesis using v unfolding durable_inv_def by blast
    next
      case (flushed t u rng m tr1 e1 tr2)
      have ne: "?es \<noteq> []" by (simp add: upsert_def)
      obtain st' where st': "engine_inv fp e1 st' []" "view st' [] = view st ?es" "log_idle e1 []" "wl_epoch (en_wal e1) = wl_epoch w + 1"
        using flush_done [OF inv2 [OF flushed(2)] fp write_lawfulD [OF env _ flushed(2,3)] flushed(4) ne] flushed(1) by auto
      have "tk_epoch t \<noteq> wl_epoch (en_wal e1)" using taken(4) [OF flushed(1)] st'(4) by simp
      then have "e' = set_wal (en_wal e1) e1 \<or> e' = e1"
        using flushed(5) wait_stale by (auto simp: await_durable_def split: if_split_asm)
      moreover have "log_idle (set_wal (en_wal e1) e1) []" using st'(3) by (simp add: log_idle_def Let_def log_ops_def run_disk_def)
      ultimately have "engine_inv fp e' st' [] \<and> log_idle e' []" using st'(1,3) engine_inv_set_wal by auto
      then show ?thesis using st'(2) v unfolding durable_inv_def by (intro exI [of _ st'] exI [of _ "[]"]) (auto simp: replayed_def intro: exI [of _ "[]"])
    qed simp_all
  qed
qed

section \<open>Opening what a crash left\<close>

lemma fresh_cache: "cache_coherent src globalInstance"
  by (simp add: lru.coherent_def globalInstance_def mk_cache_def cache_ok_def cache_view_def node_refs_def total_bytes_def)

text \<open>The outcome of an opening: out of memory, or an engine that holds a map of \<open>Vs\<close>; the directory is locked.\<close>

definition opens_with :: "(nat \<Rightarrow> nat) \<Rightarrow> path \<Rightarrow> (bytes \<rightharpoonup> bytes) set \<Rightarrow> ((engine_error + engine) \<times> path set \<times> fs) option \<Rightarrow> bool" where
  "opens_with fp d Vs res \<longleftrightarrow> (\<exists>r f'. res = Some (r, {d}, f')
     \<and> (case r of Inl x \<Rightarrow> \<exists>m. x = MemError m | Inr e \<Rightarrow> en_dir e = d \<and> (\<exists>V \<in> Vs. engine_holds fp e V)))"

lemma reopen_view:
  assumes "on_disk fp d f st" "start_lawful env d f"
  shows "opens_with fp d {view st (replayed (logged d f) [])} (open_engine env d mx dur rng globalInstance {} f)"
  using reopen [OF assms _ fresh_cache, of "{}"] unfolding opens_with_def engine_holds_def by (fastforce split: sum.splits)

lemma opens_with_mono: "opens_with fp d Vs res \<Longrightarrow> Vs \<subseteq> Ws \<Longrightarrow> opens_with fp d Ws res"
  unfolding opens_with_def by (fastforce split: sum.splits)

lemma reopen_state:
  assumes fs: "flush_state fp d P st (with_table st c es') f" and P: "\<And>l. P l \<Longrightarrow> recover_from l 0 = xs \<or> recover_from l 0 = xs'"
    and es: "es = replayed xs []" "es' = replayed xs' []"
    and mix: "view (with_table st c es') es = view st es \<or> view (with_table st c es') es = view st es'" and env: "start_lawful env d f"
  shows "opens_with fp d {view st es, view st es'} (open_engine env d mx dur rng globalInstance {} f)"
proof -
  have "\<exists>st'. on_disk fp d f st' \<and> view st' (replayed (logged d f) []) \<in> {view st es, view st es'}"
    using fs unfolding flush_state_def
  proof (elim disjE conjE exE)
    assume "P (log_of d f)" "on_disk fp d f st"
    then show ?thesis using P [of "log_of d f"] es by auto
  next
    assume "P (log_of d f)" "on_disk fp d f (with_table st c es')"
    then show ?thesis using P [of "log_of d f"] es mix view_with_table(1) [of st c es'] by auto
  next
    fix st'' assume "log_of d f = []" "on_disk fp d f st''" "view st'' [] = view (with_table st c es') []"
    then show ?thesis by (auto simp: recover_from_past replayed_def)
  qed
  then obtain st' where st': "on_disk fp d f st'" "view st' (replayed (logged d f) []) \<in> {view st es, view st es'}" by blast
  show ?thesis by (rule opens_with_mono [OF reopen_view [OF st'(1) env]]) (use st'(2) in blast)
qed

text \<open>A table that has the new entry of a key, under a log that does not: the key has its old value if the log mentions it, and
  its new one otherwise.\<close>

lemma mixed_view:
  assumes "ssorted es"
  shows "view (with_table st c (upsert key v es)) es = view st es \<or> view (with_table st c (upsert key v es)) es = view st (upsert key v es)"
proof (cases "map_of es key")
  case None
  then have "view (with_table st c (upsert key v es)) es k = view st (upsert key v es) k" for k
    by (auto simp: view_def map_add_def map_of_upsert [OF assms] split: option.splits)
  then show ?thesis by blast
next
  case (Some u)
  then have "view (with_table st c (upsert key v es)) es k = view st es k" for k
    by (auto simp: view_def map_add_def map_of_upsert [OF assms] split: option.splits)
  then show ?thesis by blast
qed

text \<open>\<open>put\<close> and \<open>del\<close> as one: a write of a value or of a tombstone.\<close>

definition write_op :: "(nat \<Rightarrow> nat) \<Rightarrow> write_env \<Rightarrow> bytes \<Rightarrow> bytes option \<Rightarrow> engine \<Rightarrow> engine_step" where
  "write_op fp env key v e = (case v of Some val \<Rightarrow> put fp env key val e | None \<Rightarrow> del fp env key e)"

definition write_call :: "write_env \<Rightarrow> bytes \<Rightarrow> bytes option \<Rightarrow> engine_call" where
  "write_call env key v = (case v of Some val \<Rightarrow> CallPut env key val | None \<Rightarrow> CallDel env key)"

abbreviation write_type :: "bytes option \<Rightarrow> etype" where
  "write_type v \<equiv> (case v of Some _ \<Rightarrow> PUT | None \<Rightarrow> DEL)"

definition write_mem :: "write_env \<Rightarrow> bytes \<Rightarrow> bytes option \<Rightarrow> nat stream \<Rightarrow> memtable \<Rightarrow> mem_step" where
  "write_mem env key v = (case v of Some val \<Rightarrow> mt_put (we_new env) key val | None \<Rightarrow> mt_del (we_new env) key)"

lemma write_value [simp]: "entry_value (mk_entry (write_type v) key (value_bytes v)) = v"
  by (simp add: entry_value_def mk_entry_def value_bytes_def split: option.splits)

lemma write_opD:
  assumes "write_op fp env key v e = Some (tr, r, e')" "call_lawful fp (write_call env key v) e st es"
  obtains a w where "wal_writeEntry (we_append env) (write_type v) key (value_bytes v) (en_wal e) = Some (a, w)"
    "apply_write fp env (Some (a, w)) (write_mem env key v) e = Some (tr, r, e')"
    "write_lawful fp env (Some (a, w)) (write_mem env key v) key v e st es"
    "\<forall>rng m. mt_ok m es \<longrightarrow> step_post m key v es (write_mem env key v rng m)"
proof -
  let ?ap = "wal_writeEntry (we_append env) (write_type v) key (value_bytes v) (en_wal e)"
  have run: "apply_write fp env ?ap (write_mem env key v) e = Some (tr, r, e')" "write_lawful fp env ?ap (write_mem env key v) key v e st es"
    using assms by (auto simp: write_op_def write_call_def write_mem_def put_def del_def appendPut_def appendDel_def value_bytes_def split: option.splits)
  then obtain a w where ap: "?ap = Some (a, w)" by (cases ?ap) (auto simp: apply_write_def)
  have new: "new_ok (we_new env)" using run(2) by (simp add: write_lawful_def)
  have "step_post m key v es (write_mem env key v rng m)" if "mt_ok m es" for rng m
    using mt_put_ok [OF new that] mt_del_ok [OF new that] by (simp add: write_mem_def split: option.splits)
  then show thesis using that ap run by simp
qed



lemma write_op_durable:
  assumes "durable_inv fp e st es" "fp_sane fp" "call_lawful fp (write_call env key v) e st es" "kernel_lawful env key (value_bytes v)"
    and "wl_durability (en_wal e) = Durable" "write_op fp env key v e = Some (tr, None, e')"
  obtains st' es' where "durable_inv fp e' st' es'" "view st' es' = (view st es)(key := v)"
proof -
  obtain xs where i: "engine_inv fp e st es" "log_idle e xs" "es = replayed xs []" using assms(1) by (auto simp: durable_inv_def)
  obtain a w where w: "wal_writeEntry (we_append env) (write_type v) key (value_bytes v) (en_wal e) = Some (a, w)"
    "apply_write fp env (Some (a, w)) (write_mem env key v) e = Some (tr, None, e')"
    "write_lawful fp env (Some (a, w)) (write_mem env key v) key v e st es"
    "\<forall>rng m. mt_ok m es \<longrightarrow> step_post m key v es (write_mem env key v rng m)"
    by (rule write_opD [OF assms(6,3)])
  show thesis using write_acknowledged [OF i assms(2) _ w(1) _ assms(4) w(2) assms(5)] w(3,4) that by auto
qed


text \<open>Without durability, records can still be in flight when the table of a flush is published. If they are lost then, the log is
  replayed over a table that is newer: here the second value of the first key is lost while the later write of the other key
  is kept.\<close>

theorem lost_tail_reverts:
  "let a = mk_entry PUT [1] [1]; b = mk_entry PUT [1] [2]; c = mk_entry PUT [2] [3];
       V = view (with_table [] 0 (replayed [a, b, c] [])) (replayed [a] [])
   in V [1] = Some [1] \<and> V [2] = Some [3]"
  by code_simp

section \<open>A concrete durable engine\<close>

lemma start_exists:
  assumes "finite (dom f)" "length (log_of d f) \<le> max_recovery_bytes"
  shows "\<exists>env. start_lawful env d f"
proof -
  let ?l = "log_of d f"
  have "finite (dom (f(lock_path d \<mapsto> [], wal_path d \<mapsto> ?l)))" using assms(1) by simp
  then obtain names where "lists_dir d (f(lock_path d \<mapsto> [], wal_path d \<mapsto> ?l)) names" using lists_dir_exists by blast
  moreover have "delivers [Chunk ?l] ?l" by simp
  ultimately show ?thesis
    using assms(2) ex_new_ok
    by (intro exI [of _ "\<lparr>st_create_dir = True, st_lock_open = True, st_flock = True, st_wal = ex_oe, st_new = ex_new,
          st_size = Some (length ?l), st_reads = [Chunk ?l], st_names = names, st_opens = (\<lambda>_. (True, True))\<rparr>"])
      (simp add: start_lawful_def ex_oe_def)
qed

definition ex_durable :: engine where
  "ex_durable = ex_engine\<lparr>en_wal := ex_wal\<rparr>"

lemma ex_durable_inv: "durable_inv (\<lambda>n. 10 * n) ex_durable ex_store []"
proof -
  have "engine_inv (\<lambda>n. 10 * n) ex_durable ex_store []"
    using ex_engine_inv by (simp add: ex_durable_def engine_inv_def read_inv_def)
  moreover have "log_inv [] [] ex_wal" using mk_wal_inv [of ex_oe Durable "[]" ex_wal] by (simp add: mk_wal_def ex_oe_def ex_wal_eq)
  then have "log_idle ex_durable []"
    using log_holds_Nil by (simp add: log_idle_def Let_def ex_durable_def ex_engine_def run_disk_def ex_wal_eq)
  ultimately show ?thesis unfolding durable_inv_def by (auto simp: replayed_def intro: exI [of _ "[]"])
qed

text \<open>A write whose wait for the device meets the given completion.\<close>

definition ex_dwe :: "cqe_ev \<Rightarrow> write_env" where
  "ex_dwe ev = ex_we\<lparr>we_wait := [(([ev], []), ex_se)]\<rparr>"

lemma ex_append_durable: "appendPut ex_append [1] [1] ex_wal = Some (Inr ex_tk, enqueue (encode_entry ex_rec) ex_wal)"
  unfolding ex_rec_len(2)
  by (simp add: appendPut_def wal_writeEntry_def ex_wal_eq ex_append_def submit_record_def io_submit_def enqueue_def Let_def ex_tk_def)

lemma ex_mt_put1: "\<exists>m. mt_put ex_new [1] [1] (sconst 1) ex_memtable = Some (Inr (), sconst 1, m) \<and> \<not> isFull m"
  using ex_insert [of "[1]" "Some [1]"] by (auto simp: mt_put_def ex_memtable_def isFull_def)

lemma ex_write_lawful: "call_lawful (\<lambda>n. 10 * n) (write_call (ex_dwe ev) [1] (Some [1])) ex_durable ex_store []"
  using ex_mt_put1 ex_new_ok
  by (auto simp: write_call_def write_lawful_def ex_dwe_def ex_we_def ex_durable_def ex_engine_def payload_def value_len_def)

lemma ex_kernel_lawful: "ev_lawful ev \<Longrightarrow> kernel_lawful (ex_dwe ev) [1] (value_bytes (Some [1]))"
  by (simp add: kernel_lawful_def ex_dwe_def ex_we_def ex_fe_def ex_ce_def append_lawful_def ex_append_def waits_lawful_def drain_lawful_def
      value_bytes_def record_size_def)

lemma ex_write_op:
  assumes "waitDurable [(([ev], []), ex_se)] ex_tk (enqueue (encode_entry ex_rec) ex_wal) = Some (r, w)" "wl_fd w"
  shows "\<exists>tr e'. write_op (\<lambda>n. 10 * n) (ex_dwe ev) [1] (Some [1]) ex_durable = Some (tr, map_option WalError r, e') \<and> en_dir e' = ''/d''
    \<and> en_fs e' = run_disk ''/d'' tr (en_fs ex_durable) \<and> log_of ''/d'' (en_fs e') = wl_file w \<and> finite (dom (en_fs e')) \<and> en_sst_counter e' = 4"
proof -
  let ?w = "enqueue (encode_entry ex_rec) ex_wal"
  obtain m where m: "mt_put ex_new [1] [1] (sconst 1) ex_memtable = Some (Inr (), sconst 1, m)" "\<not> isFull m" using ex_mt_put1 by blast
  let ?e = "(set_wal ?w ex_durable)\<lparr>en_rng := sconst 1, en_memtable := m\<rparr>"
  have d: "wl_durability ?w = Durable" "wl_fd ?w" by (simp_all add: enqueue_def Let_def ex_wal_eq)
  have e: "en_wal ex_durable = ex_wal" "en_rng ex_durable = sconst 1" "en_memtable ex_durable = ex_memtable" "en_dir ex_durable = ''/d''"
      "en_sst_counter ex_durable = 4"
    by (simp_all add: ex_durable_def ex_engine_def)
  have "finite (dom (en_fs ex_durable))"
    by (simp add: ex_durable_def ex_engine_def run_disk_def ex_dir_def finite_dom_map_of)
  moreover have "write_op (\<lambda>n. 10 * n) (ex_dwe ev) [1] (Some [1]) ex_durable = Some (log_ops ?w @ log_ops w, map_option WalError r, set_wal w ?e)"
    using assms(1) m d(1) ex_append_durable
    by (simp add: write_op_def put_def apply_write_def ex_dwe_def ex_we_def e Let_def await_durable_def)
  ultimately show ?thesis using assms(2) d(2) e(4,5) by (simp add: run_disk_append log_ops_def run_disk_def log_of_def)
qed

lemma ex_acknowledged:
  obtains tr e' where "write_op (\<lambda>n. 10 * n) (ex_dwe ex_ev) [1] (Some [1]) ex_durable = Some (tr, None, e')" "en_dir e' = ''/d''"
    "log_of ''/d'' (en_fs e') = encode_entry ex_rec" "finite (dom (en_fs e'))" "en_sst_counter e' = 4"
proof -
  let ?w = "ex_drained\<lparr>wl_sync_calls := 1, wl_sync_in_progress := False, wl_durable_end := 512\<rparr>"
  have "waitDurable [(([ex_ev], []), ex_se)] ex_tk (enqueue (encode_entry ex_rec) ex_wal) = Some (None, ?w)"
    using ex_drain_step
    by (simp add: wd_check_def ex_tk_def enqueue_def ex_wal_eq Let_def wd_drain_def ex_drained_def wd_sync_def ex_se_def wd_finish_def)
  moreover have "wl_fd ?w" "wl_file ?w = encode_entry ex_rec" by (simp_all add: ex_drained_def ex_wal_eq)
  ultimately show thesis using ex_write_op [of ex_ev None ?w] that by auto
qed

lemma ex_ev_lawful: "ev_lawful ex_ev"
  by (simp add: ev_lawful_def ex_ev_def)



text \<open>An acknowledged write, then a flush that dies once the table is there and before the log is cleared.\<close>

lemma finite_dom_disk: "finite (dom f) \<Longrightarrow> finite (dom (run_disk d (map FileOp ops) f))"
  by (simp add: run_files finite_dom_run)


end
