(* ===== verification/Cli.thy ===== *)
theory Cli
  imports Engine
begin

text \<open>
  The command line tool (tools/lsm_cli.cpp): how \<open>main\<close> takes a line apart, the call of the engine each command makes, and the
  loop over the input. What is printed is a value of \<open>cli_msg\<close>, one constructor per message, without its wording. No exception is
  caught in \<open>main\<close>: one that the engine throws ends the program.

  The theorem follows a whole session: every answer on the screen is what the map says.
\<close>

section \<open>Lines\<close>

text \<open>\<open>std::isspace\<close> in the C locale.\<close>

definition isspace :: "byte \<Rightarrow> bool" where
  "isspace b \<longleftrightarrow> b \<in> {9, 10, 11, 12, 13, 32}"

text \<open>\<open>ss >> std::ws\<close>\<close>

definition skip_ws :: "bytes \<Rightarrow> bytes" where
  "skip_ws s = dropWhile isspace s"

text \<open>\<open>ss >> word\<close>: the word, empty when there is none, and the rest of the stream.\<close>

definition next_word :: "bytes \<Rightarrow> bytes \<times> bytes" where
  "next_word s = (takeWhile (\<lambda>b. \<not> isspace b) (skip_ws s), dropWhile (\<lambda>b. \<not> isspace b) (skip_ws s))"

definition lit :: "string \<Rightarrow> bytes" where
  "lit s = map of_char s"

datatype cli_cmd =
    CmdBlank
  | CmdExit
  | CmdHelp
  | CmdPut bytes bytes
  | CmdGet bytes
  | CmdDel bytes
  | CmdScan bytes "bytes option"
  | CmdFlush
  | CmdStats
  | CmdUsage string
  | CmdUnknown bytes

definition parse_line :: "bytes \<Rightarrow> cli_cmd" where
  "parse_line line =
     (if line = [] then CmdBlank
      else
        (let (cmd, ss) = next_word line in
         if cmd = lit ''exit'' \<or> cmd = lit ''quit'' then CmdExit
         else if cmd = lit ''help'' then CmdHelp
         else if cmd = lit ''put'' then
           (let (key, ss) = next_word ss; val = skip_ws ss
            in if key = [] \<or> val = [] then CmdUsage ''put'' else CmdPut key val)
         else if cmd = lit ''get'' then
           (let (key, ss) = next_word ss in if key = [] then CmdUsage ''get'' else CmdGet key)
         else if cmd = lit ''del'' then
           (let (key, ss) = next_word ss in if key = [] then CmdUsage ''del'' else CmdDel key)
         else if cmd = lit ''scan'' then
           (let (start, ss) = next_word ss; (stop, ss) = next_word ss
            in if start = [] then CmdUsage ''scan'' else CmdScan start (if stop = [] then None else Some stop))
         else if cmd = lit ''flush'' then CmdFlush
         else if cmd = lit ''stats'' then CmdStats
         else CmdUnknown cmd))"

section \<open>Commands\<close>

datatype cli_msg =
    Goodbye
  | HelpText
  | UsageText string
  | Stored bytes bytes
  | Found bytes bytes
  | NotFound bytes
  | Deleted bytes
  | Rows "(bytes \<times> bytes) list" bool
  | Flushed
  | Sizes nat nat
  | UnknownCommand bytes

definition kMaxRows :: nat where
  "kMaxRows = 100"

record cli_env =
  cl_write :: write_env
  cl_flush :: flush_env
  cl_size :: "entry list \<Rightarrow> nat"
  cl_pread :: pread_fn

definition memtableSize :: "engine \<Rightarrow> nat" where
  "memtableSize e = mt_size (en_memtable e)"

definition sstableCount :: "engine \<Rightarrow> nat" where
  "sstableCount e = length (en_sstables e)"

text \<open>What follows a call that may throw.\<close>

definition answer :: "cli_msg \<Rightarrow> engine_step \<Rightarrow> ((engine_error + cli_msg option) \<times> engine) option" where
  "answer msg step = map_option (\<lambda>(tr, r, e). (case r of Some x \<Rightarrow> Inl x | None \<Rightarrow> Inr (Some msg), e)) step"

fun run_cmd :: "(nat \<Rightarrow> nat) \<Rightarrow> cli_env \<Rightarrow> cli_cmd \<Rightarrow> engine \<Rightarrow> ((engine_error + cli_msg option) \<times> engine) option" where
  "run_cmd fp env CmdBlank e = Some (Inr None, e)"
| "run_cmd fp env CmdExit e = Some (Inr (Some Goodbye), e)"
| "run_cmd fp env CmdHelp e = Some (Inr (Some HelpText), e)"
| "run_cmd fp env (CmdUsage c) e = Some (Inr (Some (UsageText c)), e)"
| "run_cmd fp env (CmdPut key val) e = answer (Stored key val) (put fp (cl_write env) key val e)"
| "run_cmd fp env (CmdGet key) e =
     map_option (\<lambda>(r, e). (case r of Inl x \<Rightarrow> Inl (SstError x)
                           | Inr (Some v) \<Rightarrow> Inr (Some (Found key v))
                           | Inr None \<Rightarrow> Inr (Some (NotFound key)), e)) (get (cl_size env) (cl_pread env) key e)"
| "run_cmd fp env (CmdDel key) e = answer (Deleted key) (del fp (cl_write env) key e)"
| "run_cmd fp env (CmdScan start stop) e =
     map_option (\<lambda>rows. (Inr (Some (Rows rows (length rows = kMaxRows))), e)) (engine_scan start stop kMaxRows e)"
| "run_cmd fp env CmdFlush e = answer Flushed (engine_flush fp (cl_flush env) e)"
| "run_cmd fp env CmdStats e = Some (Inr (Some (Sizes (memtableSize e) (sstableCount e))), e)"
| "run_cmd fp env (CmdUnknown c) e = Some (Inr (Some (UnknownCommand c)), e)"

text \<open>The loop of \<open>main\<close> over the lines of the input, with the messages and the exception that ended it, if one did.\<close>

fun cli_loop :: "(nat \<Rightarrow> nat) \<Rightarrow> (cli_env \<times> bytes) list \<Rightarrow> engine \<Rightarrow> (cli_msg option list \<times> engine_error option \<times> engine) option" where
  "cli_loop fp [] e = Some ([], None, e)"
| "cli_loop fp ((env, line) # input) e =
     (case run_cmd fp env (parse_line line) e of
        None \<Rightarrow> None
      | Some (Inl x, e) \<Rightarrow> Some ([], Some x, e)
      | Some (Inr msg, e) \<Rightarrow>
          if parse_line line = CmdExit then Some ([msg], None, e)
          else map_option (\<lambda>(msgs, r). (msg # msgs, r)) (cli_loop fp input e))"

definition default_max_bytes :: nat where
  "default_max_bytes = 4 * 1024 * 1024"

text \<open>\<open>main\<close>: the help text, the session and the destructor of the engine. An exception ends the program as the files are.\<close>

definition cli_main :: "(nat \<Rightarrow> nat) \<Rightarrow> start_env \<Rightarrow> flush_env \<Rightarrow> drain_env \<Rightarrow> path option \<Rightarrow> (cli_env \<times> bytes) list \<Rightarrow> nat stream
    \<Rightarrow> block_cache \<Rightarrow> path set \<Rightarrow> fs \<Rightarrow> (cli_msg option list \<times> engine_error option \<times> fs) option" where
  "cli_main fp senv fenv denv arg input rng c locks f =
     (let db_path = (case arg of None \<Rightarrow> ''/tmp/lsm_interactive_db'' | Some p \<Rightarrow> p) in
      case open_engine senv db_path default_max_bytes Async rng c locks f of
        None \<Rightarrow> None
      | Some (Inl x, _, f) \<Rightarrow> Some ([], Some x, f)
      | Some (Inr db, locks, _) \<Rightarrow>
          (case cli_loop fp input db of
             None \<Rightarrow> None
           | Some (msgs, Some x, db) \<Rightarrow> Some (Some HelpText # msgs, Some x, en_fs db)
           | Some (msgs, None, db) \<Rightarrow>
               map_option (\<lambda>(_, f, _). (Some HelpText # msgs, None, f)) (close_engine fp fenv denv db locks)))"

section \<open>What the session shows\<close>

text \<open>A message is right for a map, which the command takes to another.\<close>

fun msg_right :: "cli_cmd \<Rightarrow> cli_msg option \<Rightarrow> (bytes \<rightharpoonup> bytes) \<Rightarrow> (bytes \<rightharpoonup> bytes) \<Rightarrow> bool" where
  "msg_right (CmdPut key val) msg V V' \<longleftrightarrow> msg = Some (Stored key val) \<and> V' = V(key \<mapsto> val)"
| "msg_right (CmdDel key) msg V V' \<longleftrightarrow> msg = Some (Deleted key) \<and> V' = V(key := None)"
| "msg_right (CmdGet key) msg V V' \<longleftrightarrow> msg = Some (case V key of Some v \<Rightarrow> Found key v | None \<Rightarrow> NotFound key) \<and> V' = V"
| "msg_right (CmdScan start stop) msg V V' \<longleftrightarrow>
     (\<exists>rows. msg = Some (Rows rows (length rows = kMaxRows)) \<and> is_range V start stop kMaxRows rows) \<and> V' = V"
| "msg_right _ _ V V' \<longleftrightarrow> V' = V"

fun session :: "cli_cmd list \<Rightarrow> cli_msg option list \<Rightarrow> (bytes \<rightharpoonup> bytes) \<Rightarrow> (bytes \<rightharpoonup> bytes) \<Rightarrow> bool" where
  "session cmds [] V V' \<longleftrightarrow> V' = V"
| "session (c # cmds) (m # msgs) V V' \<longleftrightarrow> (\<exists>V1. msg_right c m V V1 \<and> (if c = CmdExit then msgs = [] \<and> V' = V1 else session cmds msgs V1 V'))"
| "session [] (m # msgs) V V' \<longleftrightarrow> False"

text \<open>The call of the engine a command makes.\<close>

fun cmd_call :: "cli_env \<Rightarrow> cli_cmd \<Rightarrow> engine_call option" where
  "cmd_call env (CmdPut key val) = Some (CallPut (cl_write env) key val)"
| "cmd_call env (CmdDel key) = Some (CallDel (cl_write env) key)"
| "cmd_call env (CmdGet key) = Some (CallGet (cl_size env) (cl_pread env) key)"
| "cmd_call env (CmdScan start stop) = Some (CallScan start stop kMaxRows)"
| "cmd_call env CmdFlush = Some (CallFlush (cl_flush env))"
| "cmd_call env _ = None"

fun cli_lawful :: "(nat \<Rightarrow> nat) \<Rightarrow> (cli_env \<times> bytes) list \<Rightarrow> engine \<Rightarrow> bool" where
  "cli_lawful fp [] e \<longleftrightarrow> True"
| "cli_lawful fp ((env, line) # input) e \<longleftrightarrow>
     (case cmd_call env (parse_line line) of None \<Rightarrow> True | Some c \<Rightarrow> \<forall>st es. engine_inv fp e st es \<longrightarrow> call_lawful fp c e st es)
     \<and> (case run_cmd fp env (parse_line line) e of Some (Inr _, e') \<Rightarrow> cli_lawful fp input e' | _ \<Rightarrow> True)"

lemma run_cmd_call:
  assumes "run_cmd fp env cmd e = Some (Inr msg, e')" "cmd_call env cmd = Some c"
  shows "\<exists>r. call_engine fp c e = Some (r, e') \<and> (\<forall>x. r \<noteq> Replied (Some x)) \<and> (\<forall>V V'. spec_call c r V V' \<longrightarrow> msg_right cmd msg V V')"
proof (cases cmd)
  case (CmdGet key)
  obtain r where r: "get (cl_size env) (cl_pread env) key e = Some (r, e')"
    using assms(1) CmdGet by auto
  obtain v where v: "r = Inr v" using assms(1) CmdGet r by (cases r) auto
  then show ?thesis using CmdGet assms r by (cases v) (auto split: option.splits)
qed (use assms in \<open>auto simp: answer_def returned_def split: option.splits\<close>)

lemma run_cmd_shows:
  assumes inv: "engine_inv fp e st es" and fp: "fp_sane fp" and run: "run_cmd fp env cmd e = Some (Inr msg, e')"
    and law: "case cmd_call env cmd of None \<Rightarrow> True | Some c \<Rightarrow> call_lawful fp c e st es"
  shows "\<exists>V. msg_right cmd msg (view st es) V \<and> engine_holds fp e' V"
proof (cases "cmd_call env cmd")
  case None
  then have "e' = e" "msg_right cmd msg (view st es) (view st es)" using run by (cases cmd; auto)+
  then show ?thesis using inv unfolding engine_holds_def by blast
next
  case (Some c)
  obtain r where r: "call_engine fp c e = Some (r, e')" "\<forall>x. r \<noteq> Replied (Some x)" "\<forall>V V'. spec_call c r V V' \<longrightarrow> msg_right cmd msg V V'"
    using run_cmd_call [OF run Some] by blast
  from call_refines [OF inv fp _ r(1)] law Some r(2,3) show ?thesis by fastforce
qed

text \<open>C8. A session of the tool. However its lines are typed, whatever the engine does inside (flushes and compactions), up to the end of the
  input, the exit command or the exception that ends it: each stored, found, deleted or listed entry on the screen is
  what a map from keys to values shows that has received the commands so far, and unless an exception ended the session the engine holds that
  map afterwards.\<close>

theorem cli_session_correct:
  assumes "engine_inv fp e st es" "fp_sane fp" "cli_lawful fp input e" "cli_loop fp input e = Some (msgs, x, e')"
  shows "\<exists>V. session (map (parse_line \<circ> snd) input) msgs (view st es) V \<and> (x = None \<longrightarrow> engine_holds fp e' V
     \<and> (length msgs = length input \<or> CmdExit \<in> set (map (parse_line \<circ> snd) input)))"
  using assms
proof (induction input arbitrary: e st es msgs)
  case Nil
  then show ?case by (auto simp: engine_holds_def)
next
  case (Cons y input)
  obtain env line where y: "y = (env, line)" by (cases y)
  show ?case
  proof (cases "run_cmd fp env (parse_line line) e")
    case None
    then show ?thesis using Cons.prems(4) y by simp
  next
    case (Some z)
    obtain r e1 where z: "z = (r, e1)" by (cases z)
    show ?thesis
    proof (cases r)
      case (Inl err)
      then show ?thesis using Cons.prems(4) y Some z by auto
    next
      case (Inr msg)
      have "case cmd_call env (parse_line line) of None \<Rightarrow> True | Some c \<Rightarrow> call_lawful fp c e st es"
        using Cons.prems(1,3) y by (auto split: option.splits)
      from run_cmd_shows [OF Cons.prems(1,2) Some [unfolded z Inr] this]
      obtain V1 st1 es1 where V1: "msg_right (parse_line line) msg (view st es) V1" "engine_inv fp e1 st1 es1" "view st1 es1 = V1"
        by (auto simp: engine_holds_def)
      show ?thesis
      proof (cases "parse_line line = CmdExit")
        case True
        then have "msgs = [msg]" "x = None" "e' = e1" using Cons.prems(4) y Some z Inr by auto
        moreover have "engine_holds fp e1 V1" using V1(2,3) unfolding engine_holds_def by blast
        ultimately show ?thesis using V1(1) True y by auto
      next
        case False
        then obtain msgs1 where m: "cli_loop fp input e1 = Some (msgs1, x, e')" "msgs = msg # msgs1"
          using Cons.prems(4) y Some z Inr by auto
        have "cli_lawful fp input e1" using Cons.prems(3) y Some z Inr by simp
        from Cons.IH [OF V1(2) Cons.prems(2) this m(1)] show ?thesis using V1 y m(2) False by auto
      qed
    qed
  qed
qed

section \<open>A session\<close>

definition ex_cli :: cli_env where
  "ex_cli = \<lparr>cl_write = ex_we, cl_flush = ex_fe, cl_size = (\<lambda>_. 0), cl_pread = pread_full\<rparr>"

lemma ex_lines: "parse_line (lit ''put a  9'') = CmdPut [97] [57]" "parse_line (lit '' get a'') = CmdGet [97]"
  by code_simp+

theorem cli_session_correct_witness:
  "\<exists>e'. cli_loop (\<lambda>n. 10 * n) [(ex_cli, lit ''put a  9''), (ex_cli, lit '' get a'')] ex_engine
     = Some ([Some (Stored [97] [57]), Some (Found [97] [57])], None, e')"
proof -
  let ?fp = "\<lambda>n. 10 * n :: nat" and ?in = "[(ex_cli, lit ''put a  9''), (ex_cli, lit '' get a'')]"
  obtain e1 where e1: "run_cmd ?fp ex_cli (CmdPut [97] [57]) ex_engine = Some (Inr (Some (Stored [97] [57])), e1)"
    using ex_put_step by (auto simp: answer_def returned_def ex_cli_def)
  have law1: "\<forall>st es. engine_inv ?fp ex_engine st es \<longrightarrow> call_lawful ?fp (CallPut ex_we [97] [57]) ex_engine st es"
    using ex_put_lawful by blast
  then obtain st es where i: "engine_inv ?fp e1 st es"
    using run_cmd_shows [OF ex_engine_inv ex_fp_sane e1] ex_engine_inv by (auto simp: engine_holds_def ex_cli_def)
  then obtain r e2 where g: "get (\<lambda>_. 0) pread_full [97] e1 = Some (Inr r, e2)"
    using engine_get_ok [OF _ ex_pread_ok, of ?fp e1 st es "\<lambda>_. 0" "[97]"] by (auto simp: engine_inv_def)
  let ?m = "case r of Some v \<Rightarrow> Found [97] v | None \<Rightarrow> NotFound [97]"
  have e2: "run_cmd ?fp ex_cli (CmdGet [97]) e1 = Some (Inr (Some ?m), e2)"
    using g by (simp add: ex_cli_def split: option.splits)
  have run: "cli_loop ?fp ?in ex_engine = Some ([Some (Stored [97] [57]), Some ?m], None, e2)"
    using e1 e2 by (simp add: ex_lines del: run_cmd.simps)
  have "cli_lawful ?fp ?in ex_engine"
    using e1 e2 law1 ex_pread_ok by (simp add: ex_lines ex_cli_def del: run_cmd.simps)
  from cli_session_correct [OF ex_engine_inv ex_fp_sane this run] have "?m = Found [97] [57]" by (simp add: ex_lines)
  then show ?thesis using run by simp
qed

end
