(* ===== verification/Spec2Isabelle.thy ===== *)
theory Spec2Isabelle
  imports Prelude WalFormat Bloom FileSystem SSTableFormat BlockCache SSTable Arena SkipList Memtable Merge FileNames Store Compactor
    CompactorSafety WalWriter GroupCommit Fault Scan Engine Recovery Cli
begin

text \<open>
  A verification of the log-structured key-value store under src/: a model of its C++ code, component by component, and the
  theorems that make it a correct and crash-safe map from keys to values.

  \<^bold>\<open>The program.\<close> \<open>LSMEngine\<close> (src/db) puts every write into a write-ahead log (src/wal) and into a
  memtable, a skip list in an arena (src/memtable). A full memtable becomes a sorted table file (src/sstable) and the log is
  cleared; four level-0 tables are merged into level 1 by the compactor (src/compaction). A lookup asks the memtable and then the
  tables from the newest to the oldest, each through its Bloom filter, its index and a shared block cache. A range scan merges all of them.
  Construction takes a lock on the directory, replays the log and loads the tables. Fault points (src/util) are spread over the code,
  and tools/lsm_cli.cpp is an interactive client.

  \<^bold>\<open>The theories\<close>, in the order of their dependence.

  \<^item> \<open>Prelude\<close>: bytes, little-endian integers, strictly sorted association lists, and the locale \<open>simulation\<close>, the contract between an
    implementation and its specification.
  \<^item> \<open>WalFormat\<close>: the record of wal_writer.cpp (\<open>encode_record\<close>, \<open>crc32\<close>) and \<open>WAL::recover\<close> of wal_reader.cpp (\<open>read_loop\<close>,
    \<open>recover_step\<close>, \<open>recover_from\<close>). Recovery inverts the encoding, skips holes and corrupt records, stops at nothing
    else, and what it does at a torn tail.
  \<^item> \<open>Bloom\<close>: block_bloom_filter.h. No false negatives, distinct probes, serialisation; the locale \<open>membership_filter\<close>.
  \<^item> \<open>FileSystem\<close>: files, file operations as a sequence whose prefixes are the crash states, and \<open>std::ifstream\<close>.
  \<^item> \<open>SSTableFormat\<close>: sstable_builder.cpp, the layout of a table and \<open>SSTable::write\<close> with every point at which it can fail; atomic
    publication.
  \<^item> \<open>BlockCache\<close>: lru_block_cache.h, with its iterators and byte accounting; the locale \<open>read_cache\<close> says what a reader relies on.
  \<^item> \<open>SSTable\<close>: sstable_reader.cpp, opening, lookup, \<open>readAll\<close>, iterators, moves. A lookup agrees with the entries of the table.
  \<^item> \<open>Arena\<close>, \<open>SkipList\<close>, \<open>Memtable\<close>: arena.h and skip_list.h, with nodes and value cells in a store of addresses. Allocations
    are disjoint (locale \<open>allocator\<close>), the levels of the list are correct, the memtable is a sorted map.
  \<^item> \<open>Merge\<close>: the priority queue and the merge with shadowing that compaction and scans share, against the locale \<open>merge_source\<close>.
  \<^item> \<open>FileNames\<close>, \<open>Store\<close>: the names of tables, their parsing, \<open>loadSSTables\<close>; a \<open>store\<close> is the content of a directory of tables.
  \<^item> \<open>Compactor\<close>, \<open>CompactorSafety\<close>: leveled_compactor.cpp, and that a compaction keeps every live value at each of its crash
    points and through each exception.
  \<^item> \<open>WalWriter\<close>, \<open>GroupCommit\<close>: wal_writer.cpp, the ring with its completions, retries and failures, and the group commit of
    \<open>waitDurable\<close> as a step relation over any number of threads. An acknowledged record survives a power failure; there is one leader;
    retries are bounded.
  \<^item> \<open>Fault\<close>: fault.cpp and fault.h.
  \<^item> \<open>Scan\<close>: \<open>LSMEngine::scan\<close> with its two kinds of source.
  \<^item> \<open>Engine\<close>: the record \<open>engine\<close> with the members of \<open>LSMEngine\<close>, \<open>put\<close>, \<open>del\<close>, \<open>get\<close>, \<open>sync\<close>, \<open>flush\<close>, the constructor
    \<open>open_engine\<close> and the destructor. The engine simulates a map through every outcome of every call; the lock excludes a second
    engine.
  \<^item> \<open>Recovery\<close>: what \<open>open_engine\<close> makes of the directory at every crash point of a flush and of a write.
  \<^item> \<open>Cli\<close>: lsm_cli.cpp, from the lines typed to the answers shown.

  \<^bold>\<open>How code becomes definitions.\<close> A class is a record, an enumeration a datatype; each method is one definition with the source's
  branches, an exception a value of a sum or an option of an error type. \<open>None\<close> in a result is behaviour the C++ standard leaves
  undefined, or the case that the answers given for the environment are not enough. Strings are lists of 8-bit words;
  machine integers are words, or numbers with their bound, where they can wrap or be truncated. Loops are structural recursions,
  recursions with a measure, or \<open>partial_function (option)\<close>; for the last it is proved that they return. There is no fuel.

  \<^bold>\<open>The environment\<close> enters as arguments: the records \<open>write_io\<close>, \<open>compact_io\<close>, \<open>append_env\<close>, \<open>clear_env\<close>, \<open>sync_env\<close>, \<open>flush_env\<close>,
  \<open>write_env\<close>, \<open>start_env\<close> tell which system calls succeed, which fault points fire, in which order and with which
  results the kernel completes requests; \<open>new_fn\<close> is the memory allocator, a stream of numbers the random generator, \<open>fp_bits\<close> the floating-point
  expression that sizes a Bloom filter. Hypotheses name what is relied on: \<open>new_ok\<close> (blocks do not overlap), \<open>pread_ok\<close>, \<open>ev_lawful\<close> (a
  completion's result is what was written), \<open>lists_dir\<close> (a directory iteration is complete), \<open>fp_sane\<close> (filter size). Each property with
  hypotheses has a witness on a concrete instance.

  \<^bold>\<open>Crashes.\<close> A process crash leaves a prefix of the file operations of a call; the page cache survives. What a power failure leaves of the log is
  \<open>survives\<close> in \<open>GroupCommit\<close>: what an fdatasync covered. In \<open>Recovery\<close> a record of the log may be torn at any byte, and has to fit one 512-byte block:
  \<open>WalFormat\<close> proves that recovery can resynchronise inside the value of a longer corrupt record.

  \<^bold>\<open>Bounds.\<close> \<open>mem_fits\<close> limits a memtable to \<open>2 ^ 34\<close> bytes of entries (the default limit is 4 MiB), so that no offset of a table
  reaches \<open>2 ^ 63\<close>; the log refuses keys and values that the length fields cannot hold. \<open>int_max\<close> bounds the numbers of
  tables, where the code's \<open>int\<close> would overflow.

  \<^bold>\<open>Not modelled.\<close> Diagnostics on standard error, the wording of messages, performance, and the header-only conveniences that no code calls. The
  engine's lock is taken to serialise writers; concurrent readers under its shared mode see states between writes. Concurrent
  insertions into the skip list, which its compare-and-swap loops would allow, do not occur under that lock and are not modelled;
  the loops themselves are. Tests and benchmarks are outside.
\<close>

end
